(* ===== verification/Prelude.thy ===== *)
theory Prelude
  imports Main "HOL-Library.Word"
begin

unbundle bit_operations_syntax

text \<open>
  Shared vocabulary of the development.  Fixed-width integers whose wrap-around is
  observable are words; sizes (\<open>std::size_t\<close>) and time stamps
  (\<open>std::uint64_t\<close> milliseconds) are natural numbers, and every subtraction the
  code performs on them goes through \<open>sub64\<close>/\<open>add64\<close>, which write the
  64-bit wrap-around out.  Byte strings (\<open>std::string\<close>) are character lists,
  byte buffers are lists of \<open>u8\<close>.
\<close>

type_synonym u8 = "8 word"
type_synonym u32 = "32 word"
type_synonym u64 = "64 word"
type_synonym bytes = "u8 list"

named_theorems wf_intros "well-formedness preservation facts"
named_theorems codec_simps "unfoldings of the codec phases"
named_theorems session_simps "unfoldings of the session operations"

definition max64 :: nat where
  "max64 = 2 ^ 64 - 1"

definition add64 :: "nat \<Rightarrow> nat \<Rightarrow> nat" where
  "add64 a b = (a + b) mod 2 ^ 64"

definition sub64 :: "nat \<Rightarrow> nat \<Rightarrow> nat" where
  "sub64 a b = (if b \<le> a then a - b else a + 2 ^ 64 - b)"

lemma sub64_le [simp]: "b \<le> a \<Longrightarrow> sub64 a b = a - b"
  by (simp add: sub64_def)

lemma add64_small: "a + b < 2 ^ 64 \<Longrightarrow> add64 a b = a + b"
  by (simp add: add64_def)

lemma sub64_add64_one:
  assumes "0 < n" "n \<le> Suc a" "a < 2 ^ 64"
  shows "add64 (sub64 a n) 1 = Suc a - n"
proof (cases "n \<le> a")
  case True
  with assms have "a - n + 1 < 2 ^ 64" by linarith
  with True show ?thesis by (simp add: add64_small Suc_diff_le)
next
  case False
  with assms have "n = Suc a" by simp
  then show ?thesis using assms by (simp add: add64_def sub64_def)
qed

text \<open>A 64-bit total that is read at 32 bits follows the 32-bit parts added to it.\<close>

lemma mod_64_32: "(x :: int) mod 2 ^ 64 mod 2 ^ 32 = x mod 2 ^ 32"
  by (rule mod_mod_cancel) (simp add: le_imp_power_dvd)

lemma mod_64_32_diff: "((x :: int) mod 2 ^ 64 - k) mod 2 ^ 32 = (x - k) mod 2 ^ 32"
  by (metis mod_64_32 mod_diff_left_eq)

lemma mod_64_32_add: "((x :: int) mod 2 ^ 64 + k) mod 2 ^ 32 = (x + k) mod 2 ^ 32"
  by (metis mod_64_32 mod_add_left_eq)

lemma ucast_sub32: "(ucast (t - ucast (k :: u32) :: u64) :: u32) = ucast t - k"
  using mod_64_32 mod_64_32_diff
  by transfer (simp add: take_bit_eq_mod mod_diff_right_eq)

lemma ucast_add32: "(ucast (t + ucast (k :: u32) :: u64) :: u32) = ucast t + k"
  using mod_64_32 mod_64_32_add
  by transfer (simp add: take_bit_eq_mod mod_add_right_eq)

lemma mod_window_unique:
  "x \<le> y \<Longrightarrow> y - x < n \<Longrightarrow> x mod n = y mod n \<Longrightarrow> x = (y :: nat)"
  using mod_eq_dvd_iff_nat [of x y n] nat_dvd_not_less [of "y - x" n]
  by (metis le_antisym linorder_not_less zero_less_diff)

text \<open>A sequence of calls on a component, with the results in order.\<close>

fun run_calls :: "('c \<Rightarrow> 's \<Rightarrow> 's \<times> 'r) \<Rightarrow> 'c list \<Rightarrow> 's \<Rightarrow> 's \<times> 'r list" where
  "run_calls f [] s = (s, [])"
| "run_calls f (x # xs) s = (let (s', r) = f x s; (s'', rs) = run_calls f xs s' in (s'', r # rs))"

lemma run_calls_append:
  "run_calls f (xs @ ys) s =
     (let (s', rs) = run_calls f xs s; (s'', rs') = run_calls f ys s' in (s'', rs @ rs'))"
  by (induction xs arbitrary: s) (auto simp: case_prod_beta Let_def)

end
