(* ===== verification/Wire_Protocol.thy ===== *)
theory Wire_Protocol
  imports Prelude
begin

unbundle bit_operations_syntax

text \<open>
  The length-prefixed wire format (\<open>include/aegisflow/net/protocol_contract.hpp\<close>)
  and the incremental decoder \<open>LengthPrefixedCodec\<close>
  (\<open>src/net/length_prefixed_codec.cpp\<close>).  The decoder is specified by
  \<open>parse_stream\<close>, which reads a whole byte stream at once; the refinement lemma
  says that feeding any chunk keeps the decoder in step with that specification.
\<close>

section \<open>Frame headers\<close>

definition kFrameHeaderSize :: nat where
  "kFrameHeaderSize = 4"

definition kMinPayloadSize :: u32 where
  "kMinPayloadSize = 1"

definition kMaxPayloadSize :: u32 where
  "kMaxPayloadSize = 1024 * 1024"

datatype ProtocolError = error_none | empty_payload | payload_too_large | multiple_requests

definition encodePayloadLength :: "u32 \<Rightarrow> u8 list" where
  "encodePayloadLength n =
     [ucast (drop_bit 24 n AND 0xff), ucast (drop_bit 16 n AND 0xff),
      ucast (drop_bit 8 n AND 0xff), ucast (n AND 0xff)]"

definition decodePayloadLength :: "u8 list \<Rightarrow> u32" where
  "decodePayloadLength h =
     push_bit 24 (ucast (h ! 0)) OR push_bit 16 (ucast (h ! 1))
     OR push_bit 8 (ucast (h ! 2)) OR ucast (h ! 3)"

definition validatePayloadLength :: "u32 \<Rightarrow> ProtocolError" where
  "validatePayloadLength n =
     (if n < kMinPayloadSize then empty_payload
      else if n > kMaxPayloadSize then payload_too_large
      else error_none)"

section \<open>The incremental decoder\<close>

datatype CodecState = NeedHeader | NeedBody | FrameReady | CodecError

record codec =
  header_buf :: "u8 list"
  header_bytes :: nat
  expected_payload_bytes :: u32
  payload_buf :: bytes
  codec_next :: CodecState
  codec_error :: ProtocolError

record CodecConsumeResult =
  result_state :: CodecState
  result_error :: ProtocolError
  bytes_consumed :: nat
  out_frames :: "bytes list"

definition codec_init :: codec where
  "codec_init =
     \<lparr>header_buf = [0, 0, 0, 0], header_bytes = 0, expected_payload_bytes = 0, payload_buf = [],
      codec_next = NeedHeader, codec_error = error_none\<rparr>"

definition bufferedBytes :: "codec \<Rightarrow> nat" where
  "bufferedBytes c = header_bytes c + length (payload_buf c)"

definition enterError :: "ProtocolError \<Rightarrow> codec \<Rightarrow> codec" where
  "enterError e c =
     c\<lparr>codec_next := CodecError, codec_error := e, header_bytes := 0,
       expected_payload_bytes := 0, payload_buf := []\<rparr>"

text \<open>
  One iteration of the loop of \<open>consume\<close> has a header phase, which may
  \<open>continue\<close> or \<open>break\<close>, and a body phase.  \<open>copy_n dst at src\<close> is
  \<open>std::copy_n\<close> into a fixed-size array.
\<close>

datatype flow = Continue | Break | FallThrough

definition copy_n :: "'a list \<Rightarrow> nat \<Rightarrow> 'a list \<Rightarrow> 'a list" where
  "copy_n dst at src = take at dst @ src @ drop (at + length src) dst"

definition header_phase :: "codec \<Rightarrow> bytes \<Rightarrow> nat \<Rightarrow> flow \<times> codec \<times> nat" where
  "header_phase c input offset =
     (if codec_next c = NeedHeader then
        let header_remaining = sub64 kFrameHeaderSize (header_bytes c);
            copy_count = min header_remaining (length input - offset);
            c1 = c\<lparr>header_buf := copy_n (header_buf c) (header_bytes c)
                               (take copy_count (drop offset input)),
                   header_bytes := header_bytes c + copy_count\<rparr>;
            offset1 = offset + copy_count
        in if header_bytes c1 < kFrameHeaderSize then (Continue, c1, offset1)
           else let declared_length = decodePayloadLength (header_buf c1);
                    err = validatePayloadLength declared_length;
                    c2 = c1\<lparr>header_bytes := 0\<rparr>
                in if err \<noteq> error_none then (Break, enterError err c2, offset1)
                   else (FallThrough,
                         c2\<lparr>expected_payload_bytes := declared_length, codec_next := NeedBody\<rparr>,
                         offset1)
      else (FallThrough, c, offset))"

definition body_phase :: "codec \<Rightarrow> bytes \<Rightarrow> nat \<Rightarrow> bytes list \<Rightarrow> codec \<times> nat \<times> bytes list" where
  "body_phase c input offset out =
     (if codec_next c = NeedBody \<and> offset < length input then
        let payload_remaining = sub64 (unat (expected_payload_bytes c)) (length (payload_buf c));
            copy_count = min payload_remaining (length input - offset);
            c1 = c\<lparr>payload_buf := payload_buf c @ take copy_count (drop offset input)\<rparr>;
            offset1 = offset + copy_count
        in if length (payload_buf c1) = unat (expected_payload_bytes c)
           then (c1\<lparr>payload_buf := [], expected_payload_bytes := 0, codec_next := NeedHeader\<rparr>,
                 offset1, out @ [payload_buf c1])
           else (c1, offset1, out)
      else (c, offset, out))"

partial_function (option) consume_loop ::
  "codec \<Rightarrow> bytes \<Rightarrow> nat \<Rightarrow> bytes list \<Rightarrow> (codec \<times> nat \<times> bytes list) option" where
  "consume_loop c input offset out =
     (if offset < length input then
        (case header_phase c input offset of
           (flw, c1, offset1) \<Rightarrow>
             (if flw = Break then Some (c1, offset1, out)
              else if flw = Continue then consume_loop c1 input offset1 out
              else (case body_phase c1 input offset1 out of
                      (c2, offset2, out2) \<Rightarrow> consume_loop c2 input offset2 out2)))
      else Some (c, offset, out))"

definition consume :: "codec \<Rightarrow> bytes \<Rightarrow> (codec \<times> CodecConsumeResult) option" where
  "consume c input =
     (if codec_next c = CodecError
      then Some (c, \<lparr>result_state = CodecError, result_error = codec_error c,
                     bytes_consumed = 0, out_frames = []\<rparr>)
      else map_option
        (\<lambda>(c', offset, out).
           (c', \<lparr>result_state = (if codec_next c' = CodecError then CodecError
                                  else if out \<noteq> [] then FrameReady else codec_next c'),
                 result_error = codec_error c', bytes_consumed = offset, out_frames = out\<rparr>))
        (consume_loop c input 0 []))"

section \<open>Header arithmetic\<close>

lemma byte_mask: "(0xff :: u32) = mask 8"
  by (simp add: mask_eq_exp_minus_1)

lemma decode_encode [simp]: "decodePayloadLength (encodePayloadLength n) = n"
proof (rule bit_word_eqI)
  fix i assume "i < LENGTH(32)"
  then consider "i < 8" | "8 \<le> i" "i < 16" | "16 \<le> i" "i < 24" | "24 \<le> i" "i < 32"
    by force
  then show "bit (decodePayloadLength (encodePayloadLength n)) i = bit n i"
    by cases (auto simp: decodePayloadLength_def encodePayloadLength_def byte_mask bit_simps)
qed

lemma length_encodePayloadLength [simp]: "length (encodePayloadLength n) = 4"
  by (simp add: encodePayloadLength_def)

lemma byte_high_bit: "8 \<le> k \<Longrightarrow> \<not> bit (x :: u8) k"
  by (auto dest: bit_imp_le_length)

lemma encode_decode: 
  assumes "length h = 4"
  shows "encodePayloadLength (decodePayloadLength h) = h"
proof -
  obtain a b c d where h: "h = [a, b, c, d]"
    using assms by (auto simp: numeral_eq_Suc length_Suc_conv)
  show ?thesis
    unfolding h decodePayloadLength_def encodePayloadLength_def byte_mask
    by (auto intro!: bit_word_eqI simp: bit_simps byte_high_bit)
qed

section \<open>Specification: parsing a whole stream\<close>

datatype stream_tail = Partial bytes | Malformed ProtocolError bytes

function parse_stream :: "bytes \<Rightarrow> bytes list \<times> stream_tail" where
  "parse_stream bs =
     (if length bs < 4 then ([], Partial bs)
      else let n = decodePayloadLength (take 4 bs); body = drop 4 bs
           in if validatePayloadLength n \<noteq> error_none
              then ([], Malformed (validatePayloadLength n) body)
              else if length body < unat n then ([], Partial bs)
              else let (fs, t) = parse_stream (drop (unat n) body)
                   in (take (unat n) body # fs, t))"
  by pat_completeness auto
termination
  by (relation "measure length") auto

declare parse_stream.simps [simp del]

lemma parse_short: "length bs < 4 \<Longrightarrow> parse_stream bs = ([], Partial bs)"
  by (simp add: parse_stream.simps [of bs])

lemma parse_malformed:
  assumes "length h = 4" "validatePayloadLength (decodePayloadLength h) \<noteq> error_none"
  shows "parse_stream (h @ r) = ([], Malformed (validatePayloadLength (decodePayloadLength h)) r)"
  using assms by (simp add: parse_stream.simps [of "h @ r"])

lemma parse_partial:
  assumes "validatePayloadLength n = error_none" "length b < unat n"
  shows "parse_stream (encodePayloadLength n @ b) = ([], Partial (encodePayloadLength n @ b))"
  using assms by (simp add: parse_stream.simps [of "encodePayloadLength n @ b"])

lemma parse_frame:
  assumes "validatePayloadLength n = error_none" "length b = unat n"
  shows "parse_stream (encodePayloadLength n @ b @ r) =
           (b # fst (parse_stream r), snd (parse_stream r))"
  using assms
  by (simp add: parse_stream.simps [of "encodePayloadLength n @ b @ r"] split: prod.split)

section \<open>Invariant\<close>

definition codec_wf :: "codec \<Rightarrow> bool" where
  "codec_wf c \<longleftrightarrow> length (header_buf c) = 4 \<and>
     (case codec_next c of
        NeedHeader \<Rightarrow> header_bytes c < 4 \<and> payload_buf c = [] \<and> expected_payload_bytes c = 0 \<and>
                      codec_error c = error_none
      | NeedBody \<Rightarrow> header_bytes c = 0 \<and>
                    validatePayloadLength (expected_payload_bytes c) = error_none \<and>
                    length (payload_buf c) < unat (expected_payload_bytes c) \<and>
                    codec_error c = error_none
      | FrameReady \<Rightarrow> False
      | CodecError \<Rightarrow> header_bytes c = 0 \<and> payload_buf c = [] \<and> expected_payload_bytes c = 0 \<and>
                      codec_error c \<in> {empty_payload, payload_too_large})"

definition codec_pending :: "codec \<Rightarrow> bytes" where
  "codec_pending c =
     (case codec_next c of
        NeedHeader \<Rightarrow> take (header_bytes c) (header_buf c)
      | NeedBody \<Rightarrow> encodePayloadLength (expected_payload_bytes c) @ payload_buf c
      | _ \<Rightarrow> [])"

lemma validate_pos: "validatePayloadLength n = error_none \<Longrightarrow> 0 < unat n"
  by (cases "n = 0") (auto simp: validatePayloadLength_def kMinPayloadSize_def unat_gt_0)

lemma validate_le: "validatePayloadLength n = error_none \<Longrightarrow> unat n \<le> 1024 * 1024"
  by (simp add: validatePayloadLength_def kMinPayloadSize_def kMaxPayloadSize_def word_le_nat_alt
      not_less split: if_splits)

lemma validate_cases:
  "validatePayloadLength n \<in> {error_none, empty_payload, payload_too_large}"
  by (simp add: validatePayloadLength_def)

lemma consume_loop_done: "length input \<le> offset \<Longrightarrow> consume_loop c input offset out = Some (c, offset, out)"
  by (simp add: consume_loop.simps)

lemma consume_loop_body:
  assumes "codec_next c = NeedBody"
  shows "(case body_phase c input offset out of
            (c2, offset2, out2) \<Rightarrow> consume_loop c2 input offset2 out2)
         = consume_loop c input offset out"
  using assms
  by (cases "offset < length input")
     (auto simp: consume_loop.simps [of c input offset out] header_phase_def body_phase_def
        consume_loop_done)

lemma copy_n_header:
  assumes "k \<le> length dst" "k + length src \<le> length dst"
  shows "take (k + length src) (copy_n dst k src) = take k dst @ src"
    and "length (copy_n dst k src) = length dst"
  using assms by (auto simp: copy_n_def)



text \<open>One iteration in a header state: too few bytes, a bad length, a good length.\<close>

lemma header_stateD:
  assumes "codec_wf c" "codec_next c = NeedHeader"
  shows "header_bytes c < 4" "length (header_buf c) = 4" "payload_buf c = []"
    "expected_payload_bytes c = 0" "codec_error c = error_none"
    "codec_pending c = take (header_bytes c) (header_buf c)"
  using assms by (auto simp: codec_wf_def codec_pending_def)

lemma consume_loop_header_short:
  assumes wf: "codec_wf c" "codec_next c = NeedHeader" and off: "offset < length input"
    and r: "r = drop offset input" and short: "header_bytes c + length r < 4"
  shows "\<exists>c1. codec_wf c1 \<and> codec_next c1 = NeedHeader \<and> codec_pending c1 = codec_pending c @ r \<and>
           consume_loop c input offset out = consume_loop c1 input (length input) out"
proof -
  note hd = header_stateD [OF wf]
  define c1 where "c1 = c\<lparr>header_buf := copy_n (header_buf c) (header_bytes c) r,
                          header_bytes := header_bytes c + length r\<rparr>"
  have m: "min (sub64 kFrameHeaderSize (header_bytes c)) (length input - offset) = length r"
    using short hd(1) r by (simp add: kFrameHeaderSize_def)
  have "header_phase c input offset = (Continue, c1, length input)"
    using short wf(2) off r unfolding header_phase_def Let_def m
    by (simp add: c1_def kFrameHeaderSize_def)
  then have "consume_loop c input offset out = consume_loop c1 input (length input) out"
    using off by (simp add: consume_loop.simps [of c input offset out])
  moreover have "codec_pending c1 = codec_pending c @ r" "codec_wf c1" "codec_next c1 = NeedHeader"
    using short hd wf(2) copy_n_header [of "header_bytes c" "header_buf c" r]
    by (auto simp: c1_def codec_pending_def codec_wf_def)
  ultimately show ?thesis by blast
qed

lemma header_phase_full:
  assumes wf: "codec_wf c" "codec_next c = NeedHeader"
    and input: "drop offset input = q @ s" "header_bytes c + length q = 4"
    and h: "h = codec_pending c @ q" and n: "n = decodePayloadLength h"
  shows "header_phase c input offset =
      (if validatePayloadLength n \<noteq> error_none
       then (Break, enterError (validatePayloadLength n) (c\<lparr>header_buf := h, header_bytes := 0\<rparr>),
             offset + length q)
       else (FallThrough, c\<lparr>header_buf := h, header_bytes := 0, expected_payload_bytes := n,
                codec_next := NeedBody\<rparr>, offset + length q))"
    and "length h = 4"
proof -
  note hd = header_stateD [OF wf]
  have "length input - offset = length q + length s"
    using arg_cong [OF input(1), of length] by simp
  then have m: "min (sub64 kFrameHeaderSize (header_bytes c)) (length input - offset) = length q"
    using input(2) hd(1) by (simp add: kFrameHeaderSize_def)
  have copy: "copy_n (header_buf c) (header_bytes c) q = h"
    using copy_n_header [of "header_bytes c" "header_buf c" q] input(2) hd by (simp add: h)
  show "length h = 4" using input(2) hd by (simp add: h)
  show "header_phase c input offset =
      (if validatePayloadLength n \<noteq> error_none
       then (Break, enterError (validatePayloadLength n) (c\<lparr>header_buf := h, header_bytes := 0\<rparr>),
             offset + length q)
       else (FallThrough, c\<lparr>header_buf := h, header_bytes := 0, expected_payload_bytes := n,
                codec_next := NeedBody\<rparr>, offset + length q))"
    using wf(2) input unfolding header_phase_def Let_def m
    by (simp add: copy n kFrameHeaderSize_def)
qed

lemma consume_loop_header_bad:
  assumes wf: "codec_wf c" "codec_next c = NeedHeader" and off: "offset < length input"
    and input: "drop offset input = q @ s" "header_bytes c + length q = 4"
    and n: "n = decodePayloadLength (codec_pending c @ q)"
    and bad: "validatePayloadLength n \<noteq> error_none"
  shows "\<exists>c1. codec_wf c1 \<and> codec_next c1 = CodecError \<and> codec_error c1 = validatePayloadLength n \<and>
           consume_loop c input offset out = Some (c1, offset + length q, out)"
  using header_phase_full [OF wf input refl n] bad off validate_cases [of n]
  by (auto simp: consume_loop.simps [of c input offset out] enterError_def codec_wf_def)

lemma consume_loop_header_good:
  assumes wf: "codec_wf c" "codec_next c = NeedHeader" and off: "offset < length input"
    and input: "drop offset input = q @ s" "header_bytes c + length q = 4"
    and n: "n = decodePayloadLength (codec_pending c @ q)"
    and ok: "validatePayloadLength n = error_none"
  shows "\<exists>c1. codec_wf c1 \<and> codec_next c1 = NeedBody \<and> codec_pending c1 = codec_pending c @ q \<and>
           consume_loop c input offset out = consume_loop c1 input (offset + length q) out"
proof -
  note hp = header_phase_full [OF wf input refl n]
  define c1 where "c1 = c\<lparr>header_buf := codec_pending c @ q, header_bytes := 0,
                          expected_payload_bytes := n, codec_next := NeedBody\<rparr>"
  have "consume_loop c input offset out = consume_loop c1 input (offset + length q) out"
    using hp ok off consume_loop_body [of c1 input "offset + length q" out]
    by (simp add: consume_loop.simps [of c input offset out] c1_def)
  moreover have "codec_wf c1" "codec_next c1 = NeedBody" "codec_pending c1 = codec_pending c @ q"
    using ok header_stateD [OF wf] hp(2) validate_pos [OF ok] encode_decode [OF hp(2)]
    by (auto simp: c1_def codec_wf_def codec_pending_def n)
  ultimately show ?thesis by blast
qed

text \<open>One iteration in a body state: the payload stays incomplete, or a frame is emitted.\<close>

lemma consume_loop_body_partial:
  assumes wf: "codec_wf c" "codec_next c = NeedBody" and off: "offset < length input"
    and r: "r = drop offset input"
    and short: "length (payload_buf c) + length r < unat (expected_payload_bytes c)"
  shows "\<exists>c1. codec_wf c1 \<and> codec_next c1 = NeedBody \<and> codec_pending c1 = codec_pending c @ r \<and>
           consume_loop c input offset out = consume_loop c1 input (length input) out"
proof -
  define c1 where "c1 = c\<lparr>payload_buf := payload_buf c @ r\<rparr>"
  have m: "min (sub64 (unat (expected_payload_bytes c)) (length (payload_buf c)))
             (length input - offset) = length r"
    using short r by simp
  have "body_phase c input offset out = (c1, length input, out)"
    using wf(2) short off r unfolding body_phase_def Let_def m by (simp add: c1_def)
  then have "consume_loop c input offset out = consume_loop c1 input (length input) out"
    using consume_loop_body [OF wf(2), of input offset out] by simp
  moreover have "codec_wf c1" "codec_next c1 = NeedBody" "codec_pending c1 = codec_pending c @ r"
    using wf short by (auto simp: c1_def codec_wf_def codec_pending_def)
  ultimately show ?thesis by blast
qed

lemma consume_loop_body_frame:
  assumes wf: "codec_wf c" "codec_next c = NeedBody" and off: "offset < length input"
    and input: "drop offset input = q @ s"
      "length (payload_buf c) + length q = unat (expected_payload_bytes c)"
  shows "\<exists>c1. codec_wf c1 \<and> codec_next c1 = NeedHeader \<and> codec_pending c1 = [] \<and>
           consume_loop c input offset out =
             consume_loop c1 input (offset + length q) (out @ [payload_buf c @ q])"
proof -
  define c1 where "c1 = c\<lparr>payload_buf := [], expected_payload_bytes := 0, codec_next := NeedHeader\<rparr>"
  have "length input - offset = length q + length s"
    using arg_cong [OF input(1), of length] by simp
  then have m: "min (sub64 (unat (expected_payload_bytes c)) (length (payload_buf c)))
             (length input - offset) = length q"
    using input(2) [symmetric] by simp
  have "body_phase c input offset out = (c1, offset + length q, out @ [payload_buf c @ q])"
    using wf(2) off input unfolding body_phase_def Let_def m by (simp add: c1_def)
  then have "consume_loop c input offset out =
               consume_loop c1 input (offset + length q) (out @ [payload_buf c @ q])"
    using consume_loop_body [OF wf(2), of input offset out] by simp
  moreover have "codec_wf c1" "codec_next c1 = NeedHeader" "codec_pending c1 = []"
    using wf by (auto simp: c1_def codec_wf_def codec_pending_def)
  ultimately show ?thesis by blast
qed

text \<open>The loop refines the stream parser.  \<open>codec_at t c\<close> relates the decoder state to the
  tail the specification leaves.\<close>

definition codec_at :: "stream_tail \<Rightarrow> codec \<Rightarrow> bool" where
  "codec_at t c \<longleftrightarrow> codec_wf c \<and>
     (case t of
        Partial p \<Rightarrow> codec_next c \<noteq> CodecError \<and> codec_pending c = p
      | Malformed e rest \<Rightarrow> codec_next c = CodecError \<and> codec_error c = e)"

definition unread :: "stream_tail \<Rightarrow> nat" where
  "unread t = (case t of Partial p \<Rightarrow> 0 | Malformed e rest \<Rightarrow> length rest)"

definition refines_parse ::
  "bytes \<Rightarrow> nat \<Rightarrow> bytes list \<Rightarrow> (codec \<times> nat \<times> bytes list) option \<Rightarrow> bool" where
  "refines_parse bs len out res \<longleftrightarrow>
     (\<exists>c' offset'. res = Some (c', offset', out @ fst (parse_stream bs)) \<and>
        codec_at (snd (parse_stream bs)) c' \<and> offset' + unread (snd (parse_stream bs)) = len)"

lemma pending_parse:
  assumes "codec_wf c" "codec_next c \<noteq> CodecError"
  shows "parse_stream (codec_pending c) = ([], Partial (codec_pending c))"
  using assms
  by (cases "codec_next c") (auto simp: codec_wf_def codec_pending_def intro: parse_short parse_partial)

lemma split_at:
  assumes "a \<le> n" "n \<le> a + length r"
  obtains q s where "r = q @ s" "a + length q = n"
  using assms that [of "take (n - a) r" "drop (n - a) r"] by simp

lemma refines_stop:
  assumes "codec_wf c" "codec_next c \<noteq> CodecError"
  shows "refines_parse (codec_pending c) (length input) out (consume_loop c input (length input) out)"
  using assms by (auto simp: refines_parse_def codec_at_def unread_def consume_loop_done pending_parse)

lemma refines_header:
  assumes wf: "codec_wf c" and st: "codec_next c = NeedHeader" and off: "offset < length input"
    and IH: "\<And>c1 q s out1. codec_wf c1 \<Longrightarrow> codec_next c1 \<noteq> CodecError \<Longrightarrow>
               drop offset input = q @ s \<Longrightarrow> q \<noteq> [] \<Longrightarrow>
               refines_parse (codec_pending c1 @ s) (length input) out1
                 (consume_loop c1 input (offset + length q) out1)"
  shows "refines_parse (codec_pending c @ drop offset input) (length input) out
           (consume_loop c input offset out)"
proof (cases "header_bytes c + length (drop offset input) < 4")
  case True
  then show ?thesis
    using consume_loop_header_short [OF wf st off refl True, of out]
    by (metis refines_stop CodecState.distinct(5))
next
  case False
  note hd = header_stateD [OF wf st]
  from False hd(1) obtain q s where qs: "drop offset input = q @ s" "header_bytes c + length q = 4"
    by (metis split_at less_imp_le_nat not_less)
  with hd have hl: "length (codec_pending c @ q) = 4" "q \<noteq> []" by auto
  show ?thesis
  proof (cases "validatePayloadLength (decodePayloadLength (codec_pending c @ q)) = error_none")
    case True
    obtain c1 where c1: "codec_wf c1" "codec_next c1 = NeedBody" "codec_pending c1 = codec_pending c @ q"
        "consume_loop c input offset out = consume_loop c1 input (offset + length q) out"
      using consume_loop_header_good [OF wf st off qs refl True] by blast
    then show ?thesis using IH [OF c1(1) _ qs(1) hl(2), of out] qs(1) by simp
  next
    case bad: False
    have "length input = offset + length q + length s"
      using arg_cong [OF qs(1), of length] off by simp
    then show ?thesis
      using consume_loop_header_bad [OF wf st off qs refl bad, of out]
        parse_malformed [OF hl(1) bad, of s] qs(1)
      by (auto simp: refines_parse_def codec_at_def unread_def)
  qed
qed

lemma refines_body:
  assumes wf: "codec_wf c" and st: "codec_next c = NeedBody" and off: "offset < length input"
    and IH: "\<And>c1 q s out1. codec_wf c1 \<Longrightarrow> codec_next c1 \<noteq> CodecError \<Longrightarrow>
               drop offset input = q @ s \<Longrightarrow> q \<noteq> [] \<Longrightarrow>
               refines_parse (codec_pending c1 @ s) (length input) out1
                 (consume_loop c1 input (offset + length q) out1)"
  shows "refines_parse (codec_pending c @ drop offset input) (length input) out
           (consume_loop c input offset out)"
proof (cases "length (payload_buf c) + length (drop offset input) < unat (expected_payload_bytes c)")
  case True
  then show ?thesis
    using consume_loop_body_partial [OF wf st off refl True, of out]
    by (metis refines_stop CodecState.distinct(9))
next
  case False
  have ex: "validatePayloadLength (expected_payload_bytes c) = error_none"
    "length (payload_buf c) < unat (expected_payload_bytes c)"
    using wf st by (auto simp: codec_wf_def)
  from False ex(2) obtain q s where qs: "drop offset input = q @ s"
      "length (payload_buf c) + length q = unat (expected_payload_bytes c)"
    by (metis split_at less_imp_le_nat not_less)
  with ex(2) have q: "q \<noteq> []" by auto
  obtain c1 where c1: "codec_wf c1" "codec_next c1 = NeedHeader" "codec_pending c1 = []"
      "consume_loop c input offset out =
       consume_loop c1 input (offset + length q) (out @ [payload_buf c @ q])"
    using consume_loop_body_frame [OF wf st off qs] by blast
  then have "refines_parse s (length input) (out @ [payload_buf c @ q])
               (consume_loop c input offset out)"
    using IH [OF c1(1) _ qs(1) q, of "out @ [payload_buf c @ q]"] by simp
  then show ?thesis
    using parse_frame [OF ex(1), of "payload_buf c @ q" s] qs st
    by (auto simp: refines_parse_def codec_pending_def)
qed

lemma consume_loop_refines:
  assumes "codec_wf c" "codec_next c \<noteq> CodecError" "offset \<le> length input"
  shows "refines_parse (codec_pending c @ drop offset input) (length input) out
           (consume_loop c input offset out)"
  using assms
proof (induction "length input - offset" arbitrary: c offset out rule: less_induct)
  case less
  have IH: "refines_parse (codec_pending c1 @ s) (length input) out1
                (consume_loop c1 input (offset + length q) out1)"
    if c1: "codec_wf c1" "codec_next c1 \<noteq> CodecError" and qs: "drop offset input = q @ s" "q \<noteq> []"
    for c1 q s out1
  proof -
    have "length input - offset = length q + length s" "0 < length q"
      using arg_cong [OF qs(1), of length] qs(2) by simp_all
    then have "length input - (offset + length q) < length input - offset"
      "offset + length q \<le> length input" by linarith+
    moreover have "drop (offset + length q) input = s"
      using arg_cong [OF qs(1), of "drop (length q)"] by (simp add: add.commute)
    ultimately show ?thesis using less.hyps [of "offset + length q" c1 out1] c1 by simp
  qed
  consider "offset = length input" | "offset < length input" "codec_next c = NeedHeader"
    | "offset < length input" "codec_next c = NeedBody"
    using less.prems by (cases "codec_next c") (auto simp: codec_wf_def le_less)
  then show ?case
    using less.prems refines_stop [of c input out] refines_header refines_body IH
    by cases auto
qed

lemma consume_refines:
  assumes "codec_wf c" "codec_next c \<noteq> CodecError"
    and t: "t = parse_stream (codec_pending c @ input)"
  obtains c' r where "consume c input = Some (c', r)" "codec_at (snd t) c'"
    "out_frames r = fst t" "bytes_consumed r + unread (snd t) = length input"
    "result_error r = codec_error c'"
    "result_state r = (if codec_next c' = CodecError then CodecError
                       else if fst t \<noteq> [] then FrameReady else codec_next c')"
proof -
  obtain c' off where "consume_loop c input 0 [] = Some (c', off, fst t)" "codec_at (snd t) c'"
      "off + unread (snd t) = length input"
    using consume_loop_refines [OF assms(1,2), of 0 input "[]"] t
    by (auto simp: refines_parse_def)
  moreover define r where "r = \<lparr>result_state =
      (if codec_next c' = CodecError then CodecError
       else if fst t \<noteq> [] then FrameReady else codec_next c'),
      result_error = codec_error c', bytes_consumed = off, out_frames = fst t\<rparr>"
  ultimately have "consume c input = Some (c', r)" using assms(2) by (simp add: consume_def)
  then show thesis using that [of c' r] \<open>codec_at (snd t) c'\<close> \<open>off + unread (snd t) = length input\<close>
    by (simp add: r_def)
qed

section \<open>Streams of chunks\<close>

fun feed :: "codec \<Rightarrow> bytes list \<Rightarrow> (codec \<times> bytes list) option" where
  "feed c [] = Some (c, [])"
| "feed c (chunk # chunks) =
     (case consume c chunk of
        None \<Rightarrow> None
      | Some (c', r) \<Rightarrow> map_option (\<lambda>(c'', fs). (c'', out_frames r @ fs)) (feed c' chunks))"

lemma parse_append:
  "parse_stream (a @ b) =
     (case parse_stream a of
        (fs, Partial p) \<Rightarrow> (fs @ fst (parse_stream (p @ b)), snd (parse_stream (p @ b)))
      | (fs, Malformed e rest) \<Rightarrow> (fs, Malformed e (rest @ b)))"
proof (induction a rule: parse_stream.induct)
  case (1 a)
  let ?n = "decodePayloadLength (take 4 a)"
  consider "length a < 4" | "4 \<le> length a" "validatePayloadLength ?n \<noteq> error_none"
    | "4 \<le> length a" "validatePayloadLength ?n = error_none" "length (drop 4 a) < unat ?n"
    | "4 \<le> length a" "validatePayloadLength ?n = error_none" "unat ?n \<le> length (drop 4 a)"
    by linarith
  then show ?case
  proof cases
    case 4
    let ?r = "drop (unat ?n) (drop 4 a)"
    have a: "parse_stream a =
        (take (unat ?n) (drop 4 a) # fst (parse_stream ?r), snd (parse_stream ?r))"
      using 4 by (simp add: parse_stream.simps [of a] Let_def split: prod.split)
    have ab: "parse_stream (a @ b) =
        (take (unat ?n) (drop 4 a) # fst (parse_stream (?r @ b)), snd (parse_stream (?r @ b)))"
      using 4 by (simp add: parse_stream.simps [of "a @ b"] Let_def split: prod.split)
    show ?thesis
      unfolding a ab using 1 [OF _ refl refl] 4
      by (auto split: prod.split stream_tail.split)
  qed (simp_all add: parse_stream.simps [of a] parse_stream.simps [of "a @ b"])
qed

lemma feed_error:
  "codec_wf c \<Longrightarrow> codec_next c = CodecError \<Longrightarrow> feed c chunks = Some (c, [])"
  by (induction chunks) (simp_all add: consume_def)

lemma feed_refines:
  assumes "codec_wf c" "codec_next c \<noteq> CodecError"
  shows "\<exists>c'. feed c chunks = Some (c', fst (parse_stream (codec_pending c @ concat chunks))) \<and>
           codec_at (snd (parse_stream (codec_pending c @ concat chunks))) c'"
  using assms
proof (induction chunks arbitrary: c)
  case Nil
  then show ?case by (simp add: pending_parse codec_at_def)
next
  case (Cons x xs)
  obtain c' r where cr: "consume c x = Some (c', r)"
      "out_frames r = fst (parse_stream (codec_pending c @ x))"
      "codec_at (snd (parse_stream (codec_pending c @ x))) c'"
    using consume_refines [OF Cons.prems refl, of x] by metis
  note app = parse_append [of "codec_pending c @ x" "concat xs"]
  show ?case
  proof (cases "snd (parse_stream (codec_pending c @ x))")
    case (Partial p)
    then show ?thesis
      using cr Cons.IH [of c'] app
      by (cases "parse_stream (codec_pending c @ x)") (auto simp: codec_at_def)
  next
    case (Malformed e rest)
    then show ?thesis
      using cr feed_error [of c' xs] app
      by (cases "parse_stream (codec_pending c @ x)") (auto simp: codec_at_def)
  qed
qed

lemma codec_init_wf [simp]: "codec_wf codec_init" "codec_next codec_init = NeedHeader"
  "codec_pending codec_init = []"
  by (simp_all add: codec_init_def codec_wf_def codec_pending_def)

definition encodeLoginResponseFrame :: "('r \<Rightarrow> bytes option) \<Rightarrow> 'r \<Rightarrow> bytes option" where
  "encodeLoginResponseFrame serialize response =
     (case serialize response of
        None \<Rightarrow> None
      | Some body \<Rightarrow>
          if body = [] \<or> length body > unat kMaxPayloadSize then None
          else Some (encodePayloadLength (of_nat (length body)) @ body))"

lemma encoded_frame_parse:
  assumes "encodeLoginResponseFrame serialize x = Some f"
  shows "\<exists>p. serialize x = Some p \<and>
           parse_stream (f @ r) = (p # fst (parse_stream r), snd (parse_stream r))"
proof -
  obtain p where p: "serialize x = Some p" "p \<noteq> []" "length p \<le> 1048576"
      "f = encodePayloadLength (of_nat (length p)) @ p"
    using assms
    by (auto simp: encodeLoginResponseFrame_def kMaxPayloadSize_def split: option.splits if_splits)
  have u: "unat (of_nat (length p) :: u32) = length p"
    using p(3) by (simp add: unat_of_nat)
  have "0 < length p" using p(2) by simp
  then have "validatePayloadLength (of_nat (length p)) = error_none"
    using p(3) u
    by (simp add: validatePayloadLength_def kMinPayloadSize_def kMaxPayloadSize_def word_less_nat_alt)
  with p u parse_frame [of "of_nat (length p)" p r] show ?thesis by simp
qed

lemma encoded_frames_parse:
  assumes "map (encodeLoginResponseFrame serialize) rs = map Some fs"
  shows "parse_stream (concat fs) = (map (the \<circ> serialize) rs, Partial [])"
  using assms
proof (induction rs arbitrary: fs)
  case Nil
  then show ?case by (simp add: parse_short)
next
  case (Cons x rs)
  then obtain f fs' where f: "fs = f # fs'" "encodeLoginResponseFrame serialize x = Some f"
      "map (encodeLoginResponseFrame serialize) rs = map Some fs'"
    by (cases fs) auto
  then show ?case
    using Cons.IH [OF f(3)] encoded_frame_parse [OF f(2), of "concat fs'"] by auto
qed

section \<open>Feeding no more than the decoder needs\<close>

definition frame_of :: "bytes \<Rightarrow> bytes" where
  "frame_of f = encodePayloadLength (of_nat (length f)) @ f"

definition codec_needs :: "codec \<Rightarrow> nat" where
  "codec_needs c =
     (if codec_next c = NeedHeader then 4 - header_bytes c
      else unat (expected_payload_bytes c) - length (payload_buf c))"

definition codec_idle :: "codec \<Rightarrow> bool" where
  "codec_idle c \<longleftrightarrow> codec_wf c \<and> codec_next c = NeedHeader \<and> header_bytes c = 0"

lemma codec_idle_iff:
  "codec_idle c \<longleftrightarrow> codec_wf c \<and> codec_next c \<noteq> CodecError \<and> codec_pending c = []"
  by (cases "codec_next c")
     (auto simp: codec_idle_def codec_wf_def codec_pending_def dest: arg_cong [of _ _ length])

lemma codec_needs_pos: "codec_wf c \<Longrightarrow> codec_next c \<noteq> CodecError \<Longrightarrow> 0 < codec_needs c"
  by (cases "codec_next c") (auto simp: codec_needs_def codec_wf_def)

lemma bufferedBytes_pending:
  assumes "codec_wf c" "codec_next c \<noteq> CodecError"
  shows "bufferedBytes c =
      (if length (codec_pending c) < 4 then length (codec_pending c) else length (codec_pending c) - 4)"
  using assms
  by (cases "codec_next c") (auto simp: bufferedBytes_def codec_wf_def codec_pending_def)

lemma parse_header_chunk:
  assumes "length h = 4"
  shows "parse_stream h =
      (if validatePayloadLength (decodePayloadLength h) = error_none then ([], Partial h)
       else ([], Malformed (validatePayloadLength (decodePayloadLength h)) []))"
  using assms parse_malformed [OF assms, of "[]"] validate_pos [of "decodePayloadLength h"]
    parse_partial [of "decodePayloadLength h" "[]"] encode_decode [OF assms]
  by auto

lemma parse_needed:
  assumes "codec_wf c" "codec_next c \<noteq> CodecError" "length chunk \<le> codec_needs c"
  shows "parse_stream (codec_pending c @ chunk) = ([], Partial (codec_pending c @ chunk)) \<or>
    (\<exists>e. parse_stream (codec_pending c @ chunk) = ([], Malformed e [])) \<or>
    (codec_next c = NeedBody \<and>
     (\<exists>f. length f = unat (expected_payload_bytes c) \<and> codec_pending c @ chunk = frame_of f \<and>
        parse_stream (codec_pending c @ chunk) = ([f], Partial [])))"
proof (cases "codec_next c = NeedHeader")
  case True
  note hd = header_stateD [OF assms(1) True]
  have "length (codec_pending c @ chunk) < 4 \<or> length (codec_pending c @ chunk) = 4"
    using assms(3) hd True by (auto simp: codec_needs_def)
  then show ?thesis
  proof
    assume "length (codec_pending c @ chunk) < 4"
    then show ?thesis using parse_short by blast
  next
    assume "length (codec_pending c @ chunk) = 4"
    then show ?thesis using parse_header_chunk [of "codec_pending c @ chunk"] by (metis (full_types))
  qed
next
  case False
  then have st: "codec_next c = NeedBody"
    using assms by (cases "codec_next c") (auto simp: codec_wf_def)
  let ?n = "expected_payload_bytes c"
  have ex: "validatePayloadLength ?n = error_none" "length (payload_buf c) < unat ?n"
    and pend: "codec_pending c @ chunk = encodePayloadLength ?n @ payload_buf c @ chunk"
    using assms(1) st by (auto simp: codec_wf_def codec_pending_def)
  have len: "length (payload_buf c @ chunk) \<le> unat ?n"
    using assms(3) ex(2) False by (auto simp: codec_needs_def)
  show ?thesis
  proof (cases "length (payload_buf c @ chunk) = unat ?n")
    case True
    then have "codec_pending c @ chunk = frame_of (payload_buf c @ chunk)"
      by (simp add: frame_of_def pend del: length_append)
    moreover have "parse_stream (codec_pending c @ chunk) = ([payload_buf c @ chunk], Partial [])"
      using parse_frame [OF ex(1) True, of "[]"] by (simp add: pend parse_short)
    ultimately show ?thesis using True st by blast
  next
    case False
    then show ?thesis using len ex(1) parse_partial [of ?n "payload_buf c @ chunk"] pend by simp
  qed
qed

text \<open>Three outcomes of feeding at most \<open>codec_needs\<close> bytes: still collecting, one frame, error.\<close>

lemma consume_needed:
  assumes wf: "codec_wf c" "codec_next c \<noteq> CodecError" and len: "length chunk \<le> codec_needs c"
  obtains (collecting) c' r where "consume c chunk = Some (c', r)" "codec_wf c'"
      "codec_next c' \<noteq> CodecError" "codec_pending c' = codec_pending c @ chunk"
      "out_frames r = []" "bytes_consumed r = length chunk" "result_state r \<noteq> CodecError"
      "bufferedBytes c' \<le> bufferedBytes c + length chunk"
  | (framed) c' r f where "consume c chunk = Some (c', r)" "codec_idle c'"
      "out_frames r = [f]" "codec_pending c @ chunk = frame_of f"
      "bytes_consumed r = length chunk" "result_state r \<noteq> CodecError"
      "codec_next c = NeedBody" "length f = unat (expected_payload_bytes c)"
  | (failed) c' r where "consume c chunk = Some (c', r)" "codec_wf c'" "codec_next c' = CodecError"
      "bytes_consumed r = length chunk" "result_state r = CodecError"
      "result_error r \<in> {empty_payload, payload_too_large}"
proof -
  let ?t = "parse_stream (codec_pending c @ chunk)"
  obtain c' r where cr: "consume c chunk = Some (c', r)" "codec_at (snd ?t) c'"
    "out_frames r = fst ?t" "bytes_consumed r + unread (snd ?t) = length chunk"
    "result_error r = codec_error c'"
    "result_state r = (if codec_next c' = CodecError then CodecError
                       else if fst ?t \<noteq> [] then FrameReady else codec_next c')"
    using consume_refines [OF wf refl] by metis
  consider (1) "?t = ([], Partial (codec_pending c @ chunk))"
    | (2) e where "?t = ([], Malformed e [])"
    | (3) f where "codec_next c = NeedBody" "length f = unat (expected_payload_bytes c)"
        "codec_pending c @ chunk = frame_of f" "?t = ([f], Partial [])"
    using parse_needed [OF wf len] by blast
  then show thesis
  proof cases
    case 1
    then have c': "codec_wf c'" "codec_next c' \<noteq> CodecError" "codec_pending c' = codec_pending c @ chunk"
      using cr(2) by (auto simp: codec_at_def)
    then have "bufferedBytes c' \<le> bufferedBytes c + length chunk"
      using bufferedBytes_pending [OF c'(1,2)] bufferedBytes_pending [OF wf] by auto
    then show thesis using collecting [of c' r] c' cr 1 by (simp add: unread_def)
  next
    case 2
    then show thesis using failed [of c' r] cr by (auto simp: codec_at_def unread_def codec_wf_def)
  next
    case 3
    then show thesis using framed [of c' r f] cr by (auto simp: codec_at_def unread_def codec_idle_iff)
  qed
qed

section \<open>Properties\<close>

lemma parse_frames_bounded:
  "f \<in> set (fst (parse_stream bs)) \<Longrightarrow> 1 \<le> length f \<and> length f \<le> 1024 * 1024"
proof (induction bs rule: parse_stream.induct)
  case (1 bs)
  let ?n = "decodePayloadLength (take 4 bs)"
  show ?case
  proof (cases "length bs < 4 \<or> validatePayloadLength ?n \<noteq> error_none \<or> length (drop 4 bs) < unat ?n")
    case True
    with "1.prems" show ?thesis
      by (auto simp: parse_stream.simps [of bs] Let_def split: if_splits)
  next
    case False
    then have "f = take (unat ?n) (drop 4 bs) \<or>
        f \<in> set (fst (parse_stream (drop (unat ?n) (drop 4 bs))))"
      using "1.prems" by (auto simp: parse_stream.simps [of bs] Let_def split: prod.splits)
    then show ?thesis
      using 1 False validate_pos [of ?n] validate_le [of ?n] by (fastforce simp: Suc_le_eq)
  qed
qed

lemma codec_wf_buffer: "codec_wf c \<Longrightarrow> bufferedBytes c < 1024 * 1024"
  using validate_le [of "expected_payload_bytes c"]
  by (cases "codec_next c") (auto simp: codec_wf_def bufferedBytes_def)

lemma codec_chunk_feed_total: "\<exists>c' fs. feed codec_init chunks = Some (c', fs)"
  using feed_refines [of codec_init chunks] by auto

text \<open>
  C13.  Decoding does not depend on how TCP cuts the stream.  Whatever chunks arrive, the
  decoder terminates on each of them, the frames it emits are exactly the frames of the
  concatenated stream as \<open>parse_stream\<close> reads it, and it ends holding exactly the
  unfinished tail (or in the error state, with the error of the first bad header).
\<close>

theorem codec_chunk_independent:
  "\<exists>c'. feed codec_init chunks = Some (c', fst (parse_stream (concat chunks))) \<and>
     codec_at (snd (parse_stream (concat chunks))) c'"
  using feed_refines [of codec_init chunks] by simp

text \<open>
  C15.  Encode/decode round trip.  If the frames of some messages are sent back to back and the
  receiver sees the bytes in any chunks, it decodes exactly the serialized messages in order
  and is left idle, with nothing buffered.
\<close>

theorem frame_roundtrip:
  assumes "map (encodeLoginResponseFrame serialize) rs = map Some fs"
    and "concat chunks = concat fs"
  shows "\<exists>c'. feed codec_init chunks = Some (c', map (the \<circ> serialize) rs) \<and>
           codec_next c' = NeedHeader \<and> bufferedBytes c' = 0"
proof -
  have p: "parse_stream (concat chunks) = (map (the \<circ> serialize) rs, Partial [])"
    using encoded_frames_parse [OF assms(1)] assms(2) by simp
  obtain c' where "feed codec_init chunks = Some (c', map (the \<circ> serialize) rs)"
      "codec_at (Partial []) c'"
    using feed_refines [of codec_init chunks] p by auto
  moreover from this(2) have "codec_next c' = NeedHeader \<and> bufferedBytes c' = 0"
    by (cases "codec_next c'")
       (auto simp: codec_at_def codec_wf_def codec_pending_def bufferedBytes_def
          dest: arg_cong [of _ _ length])
  ultimately show ?thesis by blast
qed

theorem frame_roundtrip_witness:
  "map (encodeLoginResponseFrame Some) [[7, 8], [9]] = map Some [[0, 0, 0, 2, 7, 8], [0, 0, 0, 1, 9]] \<and>
   (\<exists>c'. feed codec_init [[0], [0, 0, 2, 7], [8, 0, 0], [0, 1, 9]] = Some (c', [[7, 8], [9]]) \<and>
      codec_next c' = NeedHeader \<and> bufferedBytes c' = 0)"
proof -
  have enc: "map (encodeLoginResponseFrame Some) [[7, 8], [9]] =
      map Some [[0, 0, 0, 2, 7, 8], [0, 0, 0, 1, 9]]"
    by (simp add: encodeLoginResponseFrame_def encodePayloadLength_def kMaxPayloadSize_def)
  show ?thesis
    using enc frame_roundtrip [OF enc, of "[[0], [0, 0, 2, 7], [8, 0, 0], [0, 1, 9]]"] by simp
qed

text \<open>
  C18.  Memory bound.  Whatever bytes a peer sends, the decoder never buffers a megabyte and every
  frame it hands out is non-empty and at most 1 MiB long.
\<close>

theorem codec_memory_bounded:
  assumes "feed codec_init chunks = Some (c', fs)"
  shows "bufferedBytes c' < 1024 * 1024 \<and> (\<forall>f \<in> set fs. 1 \<le> length f \<and> length f \<le> 1024 * 1024)"
  using feed_refines [of codec_init chunks] assms codec_wf_buffer parse_frames_bounded
  by (auto simp: codec_at_def)

theorem codec_memory_bounded_witness:
  "\<exists>c' fs. feed codec_init [[0, 0], [0, 1, 5, 0]] = Some (c', fs) \<and>
     bufferedBytes c' < 1024 * 1024 \<and> (\<forall>f \<in> set fs. 1 \<le> length f \<and> length f \<le> 1024 * 1024)"
  using codec_chunk_feed_total [of "[[0, 0], [0, 1, 5, 0]]"] codec_memory_bounded by blast

end
