(* ===== verification/Timer_Types.thy ===== *)
theory Timer_Types
  imports Prelude
begin

text \<open>
  Values the timer, the sessions and the maintenance tasks exchange
  (\<open>include/aegisflow/timer/timer_core.hpp\<close>,
  \<open>include/aegisflow/net/connection_token.hpp\<close>): timer identifiers and events, and the
  connection token \<open>{loop_id, fd, generation}\<close> that rejects results for a reused
  descriptor.  Steady-clock time points are integers (nanosecond ticks).
\<close>

type_synonym steady_time = int

record TimerId =
  id_value :: u64
  id_generation :: u64

definition no_timer :: TimerId where
  "no_timer = \<lparr>id_value = 0, id_generation = 0\<rparr>"

definition timer_id_valid :: "TimerId \<Rightarrow> bool" where
  "timer_id_valid i \<longleftrightarrow> id_value i \<noteq> 0 \<and> id_generation i \<noteq> 0"

datatype TimerEventKind =
    IdleTimeout | ReadTimeout | WriteTimeout | BusinessTimeout | CleanupTick
  | BlacklistMaintenanceTick

record TimerEvent =
  event_kind :: TimerEventKind
  target_id :: u64
  target_loop_id :: u32
  target_fd :: int
  target_generation :: u64
  target_sequence :: u64

datatype TimerStatus =
    TimerOk | InvalidConfig | ConfigConflict | NotInitialized | TimerInvalidState | NotRunning
  | TimerStopped | QueueFull | TimerLimit | SinkExpired | InvalidEvent | IdExhausted
  | NotFound | GenerationMismatch | AlreadyCancelled | ThreadStartFailed | SelfJoin
  | SystemCallFailed | WakeFailed | InternalError

record TimerScheduleResult =
  schedule_status :: TimerStatus
  schedule_id :: TimerId

record ConnectionToken =
  token_loop_id :: u32
  token_fd :: int
  token_generation :: u64

definition token_valid :: "ConnectionToken \<Rightarrow> bool" where
  "token_valid t \<longleftrightarrow> token_fd t \<ge> 0 \<and> token_generation t \<noteq> 0"

end
