(* ===== verification/Session.thy ===== *)
theory Session
  imports Wire_Protocol Timer_Types
begin

unbundle bit_operations_syntax

text \<open>
  One connection's state machine (\<open>src/net/session.cpp\<close>): bytes in, at most one
  request in flight, one response out, and an orderly close.  The connection handle is an
  interface of the code; the model keeps its descriptor and counts the calls of its
  \<open>close\<close>.  Loops are partial functions; every theorem about a result also shows that
  the operation returns.
\<close>

section \<open>Data\<close>

datatype SessionState = Reading | Processing | Writing | Closing | Closed

datatype SessionStatus =
    StatusOk | Buffered | RequestReady | InvalidState | InvalidArgument | StaleToken
  | InputLimitExceeded | OutputLimitExceeded | StatusProtocolError | TruncatedFrame
  | WriteProgressExceeded | StatusClosing | StatusClosed

datatype SessionCloseReason =
    ReasonNone | LocalShutdown | ReasonProtocolError | ReasonInputLimitExceeded
  | ReasonOutputLimitExceeded | PeerClosed | PeerTruncatedFrame | WriteInvariantViolation
  | IoError | BusinessQueueRejected | BusinessError | ReasonIdleTimeout | ReasonReadTimeout
  | ReasonWriteTimeout | ReasonBusinessTimeout | ResourceExhausted

type_synonym SessionInterest = u8

definition InterestNone :: SessionInterest where "InterestNone = 0"
definition InterestRead :: SessionInterest where "InterestRead = 1"
definition InterestWrite :: SessionInterest where "InterestWrite = 2"
definition InterestPeerReadClose :: SessionInterest where "InterestPeerReadClose = 4"

definition hasInterest :: "SessionInterest \<Rightarrow> SessionInterest \<Rightarrow> bool" where
  "hasInterest interests interest \<longleftrightarrow> interests AND interest \<noteq> 0"

datatype SessionTimerKind = TimerIdle | TimerRead | TimerWrite | TimerBusiness

record SessionTimers =
  timer_idle :: TimerId
  timer_read :: TimerId
  timer_write :: TimerId
  timer_business :: TimerId

definition no_timers :: SessionTimers where
  "no_timers = \<lparr>timer_idle = no_timer, timer_read = no_timer, timer_write = no_timer,
                timer_business = no_timer\<rparr>"

record SessionConfig =
  max_frame_payload_bytes :: nat
  input_soft_watermark_bytes :: nat
  max_input_buffer_bytes :: nat
  output_soft_watermark_bytes :: nat
  max_output_buffer_bytes :: nat

record SessionResult =
  sr_status :: SessionStatus
  sr_request :: "bytes option"
  sr_bytes_accepted :: nat
  sr_protocol_error :: ProtocolError

record session =
  s_token :: ConnectionToken
  s_config :: SessionConfig
  s_connection_fd :: int
  s_codec :: codec
  s_pending_input :: bytes
  s_pending_input_offset :: nat
  s_output :: bytes
  s_output_offset :: nat
  s_timers :: SessionTimers
  s_state :: SessionState
  s_close_reason :: SessionCloseReason
  s_peer_read_closed :: bool
  s_close_after_write :: bool
  s_connection_closed :: bool
  s_close_calls :: nat

definition resultWithStatus :: "SessionStatus \<Rightarrow> SessionResult" where
  "resultWithStatus st =
     \<lparr>sr_status = st, sr_request = None, sr_bytes_accepted = 0, sr_protocol_error = error_none\<rparr>"

section \<open>Construction and queries\<close>

definition session_validConfig :: "SessionConfig \<Rightarrow> bool" where
  "session_validConfig c \<longleftrightarrow>
     max_frame_payload_bytes c > 0 \<and>
     max_frame_payload_bytes c \<le> unat kMaxPayloadSize \<and>
     input_soft_watermark_bytes c > 0 \<and>
     input_soft_watermark_bytes c \<le> max_input_buffer_bytes c \<and>
     max_input_buffer_bytes c \<ge> max_frame_payload_bytes c \<and>
     output_soft_watermark_bytes c > 0 \<and>
     output_soft_watermark_bytes c \<le> max_output_buffer_bytes c"

text \<open>The constructor: \<open>Inl n\<close> is the exception, after \<open>n\<close> calls of \<open>close\<close> on the
  connection; the connection is \<open>None\<close> for a null pointer.\<close>

definition session_create ::
  "ConnectionToken \<Rightarrow> SessionConfig \<Rightarrow> int option \<Rightarrow> nat + session" where
  "session_create token config connection =
     (case connection of
        None \<Rightarrow> Inl 0
      | Some fd \<Rightarrow>
          if \<not> token_valid token \<or> \<not> session_validConfig config \<or> fd \<noteq> token_fd token then Inl 1
          else Inr \<lparr>s_token = token, s_config = config, s_connection_fd = fd, s_codec = codec_init,
                    s_pending_input = [], s_pending_input_offset = 0, s_output = [],
                    s_output_offset = 0, s_timers = no_timers, s_state = Reading,
                    s_close_reason = ReasonNone, s_peer_read_closed = False,
                    s_close_after_write = False, s_connection_closed = False,
                    s_close_calls = 0\<rparr>)"

definition session_destroy :: "session \<Rightarrow> session" where
  "session_destroy s =
     (if \<not> s_connection_closed s
      then s\<lparr>s_connection_closed := True, s_close_calls := s_close_calls s + 1\<rparr> else s)"

definition session_matches :: "session \<Rightarrow> ConnectionToken \<Rightarrow> bool" where
  "session_matches s t \<longleftrightarrow> s_token s = t"

definition pendingInputBytes :: "session \<Rightarrow> nat" where
  "pendingInputBytes s = sub64 (length (s_pending_input s)) (s_pending_input_offset s)"

definition bufferedInputBytes :: "session \<Rightarrow> nat" where
  "bufferedInputBytes s = bufferedBytes (s_codec s) + pendingInputBytes s"

definition inputAtOrAboveSoftWatermark :: "session \<Rightarrow> bool" where
  "inputAtOrAboveSoftWatermark s \<longleftrightarrow>
     bufferedInputBytes s \<ge> input_soft_watermark_bytes (s_config s)"

definition remainingOutputBytes :: "session \<Rightarrow> nat" where
  "remainingOutputBytes s = sub64 (length (s_output s)) (s_output_offset s)"

definition pendingOutput :: "session \<Rightarrow> bytes" where
  "pendingOutput s = drop (s_output_offset s) (s_output s)"

definition outputAtOrAboveSoftWatermark :: "session \<Rightarrow> bool" where
  "outputAtOrAboveSoftWatermark s \<longleftrightarrow>
     remainingOutputBytes s \<ge> output_soft_watermark_bytes (s_config s)"

definition readPausedByBackpressure :: "session \<Rightarrow> bool" where
  "readPausedByBackpressure s =
     (if s_peer_read_closed s \<or> (s_state s \<noteq> Processing \<and> s_state s \<noteq> Writing) then False
      else inputAtOrAboveSoftWatermark s \<or> outputAtOrAboveSoftWatermark s)"

definition session_interest :: "session \<Rightarrow> SessionInterest" where
  "session_interest s =
     (if s_state s = Closing \<or> s_state s = Closed then InterestNone
      else let interests = (if s_state s = Writing then InterestNone OR InterestWrite
                            else InterestNone)
           in if s_peer_read_closed s then interests
              else let interests = interests OR InterestPeerReadClose
                   in if s_state s = Reading \<or> \<not> readPausedByBackpressure s
                      then interests OR InterestRead else interests)"

definition bytesNeededByCodec :: "session \<Rightarrow> nat" where
  "bytesNeededByCodec s =
     (if codec_next (s_codec s) = NeedHeader
      then sub64 kFrameHeaderSize (bufferedBytes (s_codec s))
      else if codec_next (s_codec s) = NeedBody
      then sub64 (unat (expected_payload_bytes (s_codec s))) (bufferedBytes (s_codec s))
      else 0)"

section \<open>Closing\<close>

definition beginClose :: "SessionCloseReason \<Rightarrow> session \<Rightarrow> session \<times> SessionStatus" where
  "beginClose reason s =
     (if s_state s = Closed then (s, StatusClosed)
      else if s_state s = Closing then (s, StatusClosing)
      else if reason = ReasonNone then (s, InvalidArgument)
      else (s\<lparr>s_state := Closing, s_close_reason := reason\<rparr>, StatusClosing))"

definition finalizeClose :: "session \<Rightarrow> session \<times> SessionStatus" where
  "finalizeClose s =
     (if s_state s = Closed then (s, StatusClosed)
      else let s1 = (if s_state s \<noteq> Closing then fst (beginClose LocalShutdown s) else s);
               s2 = (if \<not> s_connection_closed s1
                     then s1\<lparr>s_connection_closed := True, s_close_calls := s_close_calls s1 + 1\<rparr>
                     else s1)
           in (s2\<lparr>s_state := Closed\<rparr>, StatusOk))"

section \<open>Input\<close>

definition appendPendingInput :: "bytes \<Rightarrow> session \<Rightarrow> session" where
  "appendPendingInput input s =
     (if input = [] then s
      else let s1 = (if s_pending_input_offset s \<noteq> 0
                     then s\<lparr>s_pending_input := drop (s_pending_input_offset s) (s_pending_input s),
                            s_pending_input_offset := 0\<rparr> else s)
           in s1\<lparr>s_pending_input := s_pending_input s1 @ input\<rparr>)"

definition clearConsumedPendingInput :: "session \<Rightarrow> session" where
  "clearConsumedPendingInput s =
     (if s_pending_input_offset s = length (s_pending_input s)
      then s\<lparr>s_pending_input := [], s_pending_input_offset := 0\<rparr> else s)"

text \<open>The loop of \<open>consumeReadingBytes\<close>: what an iteration does with a codec result, and the
  whole iteration.  The flag says that the function returns from inside the loop.\<close>

definition read_codec_result ::
  "session \<Rightarrow> SessionResult \<Rightarrow> nat \<Rightarrow> CodecConsumeResult \<Rightarrow> bool \<times> session \<times> SessionResult \<times> nat" where
  "read_codec_result s res offset codec_result =
     (if result_state codec_result = CodecError then
        (True, fst (beginClose ReasonProtocolError s),
         res\<lparr>sr_status := StatusProtocolError, sr_protocol_error := result_error codec_result,
             sr_bytes_accepted := offset\<rparr>, offset)
      else if codec_next (s_codec s) = NeedBody \<and>
              unat (expected_payload_bytes (s_codec s)) > max_frame_payload_bytes (s_config s) then
        (True, fst (beginClose ReasonInputLimitExceeded s),
         res\<lparr>sr_status := InputLimitExceeded, sr_bytes_accepted := offset\<rparr>, offset)
      else if out_frames codec_result \<noteq> [] then
        (if length (out_frames codec_result) \<noteq> 1 then
           (True, fst (beginClose ReasonProtocolError s),
            res\<lparr>sr_status := StatusProtocolError, sr_protocol_error := multiple_requests,
                sr_bytes_accepted := offset\<rparr>, offset)
         else (False, s\<lparr>s_state := Processing\<rparr>,
               res\<lparr>sr_request := Some (hd (out_frames codec_result)),
                   sr_status := RequestReady\<rparr>, offset))
      else (False, s, res, offset))"

definition reading_step ::
  "session \<Rightarrow> SessionResult \<Rightarrow> bytes \<Rightarrow> bool \<Rightarrow> nat \<Rightarrow> (bool \<times> session \<times> SessionResult \<times> nat) option" where
  "reading_step s res input store_remainder offset =
     (let consume_count = min (bytesNeededByCodec s) (length input - offset)
      in if store_remainder \<and>
            consume_count > sub64 (max_input_buffer_bytes (s_config s)) (bufferedInputBytes s)
         then Some (True, fst (beginClose ReasonInputLimitExceeded s),
                    res\<lparr>sr_status := InputLimitExceeded, sr_bytes_accepted := offset\<rparr>, offset)
         else map_option
           (\<lambda>(c, codec_result).
              read_codec_result (s\<lparr>s_codec := c\<rparr>) res (offset + bytes_consumed codec_result)
                codec_result)
           (consume (s_codec s) (take consume_count (drop offset input))))"

partial_function (option) reading_loop ::
  "session \<Rightarrow> SessionResult \<Rightarrow> bytes \<Rightarrow> bool \<Rightarrow> nat \<Rightarrow> (bool \<times> session \<times> SessionResult \<times> nat) option" where
  "reading_loop s res input store_remainder offset =
     (if offset < length input \<and> s_state s = Reading then
        Option.bind (reading_step s res input store_remainder offset)
          (\<lambda>(returned, s1, res1, offset1).
             if returned then Some (True, s1, res1, offset1)
             else reading_loop s1 res1 input store_remainder offset1)
      else Some (False, s, res, offset))"

definition consumeReadingBytes ::
  "session \<Rightarrow> bytes \<Rightarrow> bool \<Rightarrow> (session \<times> SessionResult) option" where
  "consumeReadingBytes s input store_remainder =
     map_option
       (\<lambda>(returned, s1, res, offset).
          if returned then (s1, res)
          else if store_remainder \<and> offset < length input then
            (if length input - offset >
                sub64 (max_input_buffer_bytes (s_config s1)) (bufferedInputBytes s1)
             then (fst (beginClose ReasonInputLimitExceeded s1),
                   res\<lparr>sr_status := InputLimitExceeded, sr_request := None,
                       sr_bytes_accepted := offset\<rparr>)
             else (appendPendingInput (drop offset input) s1,
                   res\<lparr>sr_bytes_accepted := length input\<rparr>))
          else (s1, res\<lparr>sr_bytes_accepted := offset\<rparr>))
       (reading_loop s (resultWithStatus Buffered) input store_remainder 0)"

definition consumePendingInput :: "session \<Rightarrow> (session \<times> SessionResult) option" where
  "consumePendingInput s =
     (if s_state s \<noteq> Reading \<or> pendingInputBytes s = 0
      then Some (s, resultWithStatus Buffered)
      else map_option
        (\<lambda>(s1, res).
           (clearConsumedPendingInput
              (s1\<lparr>s_pending_input_offset := s_pending_input_offset s1 + sr_bytes_accepted res\<rparr>),
            res))
        (consumeReadingBytes s (drop (s_pending_input_offset s) (s_pending_input s)) False))"

definition onInput :: "session \<Rightarrow> bytes \<Rightarrow> (session \<times> SessionResult) option" where
  "onInput s input =
     (if s_state s = Closing then Some (s, resultWithStatus StatusClosing)
      else if s_state s = Closed then Some (s, resultWithStatus StatusClosed)
      else if input = [] then Some (s, resultWithStatus Buffered)
      else if s_state s \<noteq> Reading then
        (if length input > sub64 (max_input_buffer_bytes (s_config s)) (bufferedInputBytes s)
         then Some (fst (beginClose ReasonInputLimitExceeded s),
                    resultWithStatus InputLimitExceeded)
         else Some (appendPendingInput input s,
                    (resultWithStatus Buffered)\<lparr>sr_bytes_accepted := length input\<rparr>))
      else consumeReadingBytes s input True)"

section \<open>Output\<close>

definition queueResponse ::
  "session \<Rightarrow> ConnectionToken \<Rightarrow> bytes \<Rightarrow> session \<times> SessionStatus" where
  "queueResponse s token response =
     (if \<not> session_matches s token then (s, StaleToken)
      else if s_state s = Closing then (s, StatusClosing)
      else if s_state s = Closed then (s, StatusClosed)
      else if s_state s \<noteq> Processing then (s, InvalidState)
      else if response = [] then (s, InvalidArgument)
      else if length response > max_output_buffer_bytes (s_config s)
      then (fst (beginClose ReasonOutputLimitExceeded s), OutputLimitExceeded)
      else (s\<lparr>s_output := response, s_output_offset := 0, s_state := Writing\<rparr>, StatusOk))"

definition onBytesWritten :: "session \<Rightarrow> nat \<Rightarrow> (session \<times> SessionResult) option" where
  "onBytesWritten s n =
     (if s_state s = Closing then Some (s, resultWithStatus StatusClosing)
      else if s_state s = Closed then Some (s, resultWithStatus StatusClosed)
      else if s_state s \<noteq> Writing then Some (s, resultWithStatus InvalidState)
      else if n > remainingOutputBytes s
      then Some (fst (beginClose WriteInvariantViolation s), resultWithStatus WriteProgressExceeded)
      else let s1 = s\<lparr>s_output_offset := s_output_offset s + n\<rparr>
           in if remainingOutputBytes s1 \<noteq> 0 then Some (s1, resultWithStatus StatusOk)
              else let s2 = s1\<lparr>s_output := [], s_output_offset := 0\<rparr>
                   in if s_close_after_write s2 \<or> s_peer_read_closed s2
                      then Some (fst (beginClose (if s_close_after_write s2 then s_close_reason s2
                                                  else PeerClosed) s2),
                                 resultWithStatus StatusClosing)
                      else map_option
                        (\<lambda>(s3, res). (s3, if sr_status res = Buffered
                                           then res\<lparr>sr_status := StatusOk\<rparr> else res))
                        (consumePendingInput (s2\<lparr>s_state := Reading\<rparr>)))"

definition closeAfterWrite :: "SessionCloseReason \<Rightarrow> session \<Rightarrow> session \<times> SessionStatus" where
  "closeAfterWrite reason s =
     (if s_state s = Closing then (s, StatusClosing)
      else if s_state s = Closed then (s, StatusClosed)
      else if s_state s \<noteq> Writing \<or> reason = ReasonNone then (s, InvalidState)
      else (s\<lparr>s_close_reason := reason, s_close_after_write := True\<rparr>, StatusOk))"

definition onPeerReadClosed :: "session \<Rightarrow> session \<times> SessionStatus" where
  "onPeerReadClosed s =
     (if s_state s = Closing then (s, StatusClosing)
      else if s_state s = Closed then (s, StatusClosed)
      else let s1 = s\<lparr>s_peer_read_closed := True\<rparr>
           in if s_state s1 = Processing \<or> s_state s1 = Writing
              then (s1\<lparr>s_close_reason := PeerClosed\<rparr>, StatusOk)
              else if bufferedInputBytes s1 \<noteq> 0
              then (fst (beginClose PeerTruncatedFrame s1), TruncatedFrame)
              else (fst (beginClose PeerClosed s1), StatusClosing))"

section \<open>Timer slots\<close>

definition timerSlot :: "SessionTimerKind \<Rightarrow> session \<Rightarrow> TimerId" where
  "timerSlot kind s =
     (case kind of
        TimerIdle \<Rightarrow> timer_idle (s_timers s)
      | TimerRead \<Rightarrow> timer_read (s_timers s)
      | TimerWrite \<Rightarrow> timer_write (s_timers s)
      | TimerBusiness \<Rightarrow> timer_business (s_timers s))"

definition replaceTimer :: "SessionTimerKind \<Rightarrow> TimerId \<Rightarrow> session \<Rightarrow> session \<times> TimerId" where
  "replaceTimer kind tid s =
     ((case kind of
         TimerIdle \<Rightarrow> s\<lparr>s_timers := (s_timers s)\<lparr>timer_idle := tid\<rparr>\<rparr>
       | TimerRead \<Rightarrow> s\<lparr>s_timers := (s_timers s)\<lparr>timer_read := tid\<rparr>\<rparr>
       | TimerWrite \<Rightarrow> s\<lparr>s_timers := (s_timers s)\<lparr>timer_write := tid\<rparr>\<rparr>
       | TimerBusiness \<Rightarrow> s\<lparr>s_timers := (s_timers s)\<lparr>timer_business := tid\<rparr>\<rparr>),
      timerSlot kind s)"

definition releaseTimersForClose :: "session \<Rightarrow> session \<times> SessionTimers" where
  "releaseTimersForClose s = (s\<lparr>s_timers := no_timers\<rparr>, s_timers s)"

end
