(* ===== verification/Session_Invariant.thy ===== *)
theory Session_Invariant
  imports Session
begin

text \<open>The invariant of a session and the proof that its input operations keep it: the read loop
  returns, takes exactly the bytes the codec needs, delivers at most one request and neither
  loses nor reorders a byte while the session stays open.\<close>


section \<open>Invariant\<close>

definition codec_ready :: "session \<Rightarrow> bool" where
  "codec_ready s \<longleftrightarrow> codec_wf (s_codec s) \<and> codec_next (s_codec s) \<noteq> CodecError \<and>
     (codec_next (s_codec s) = NeedBody \<longrightarrow>
        unat (expected_payload_bytes (s_codec s)) \<le> max_frame_payload_bytes (s_config s))"

definition session_wf :: "session \<Rightarrow> bool" where
  "session_wf s \<longleftrightarrow>
     token_valid (s_token s) \<and> session_validConfig (s_config s) \<and> codec_wf (s_codec s) \<and>
     (s_pending_input_offset s < length (s_pending_input s) \<or>
      s_pending_input s = [] \<and> s_pending_input_offset s = 0) \<and>
     s_output_offset s \<le> length (s_output s) \<and>
     length (s_output s) \<le> max_output_buffer_bytes (s_config s) \<and>
     bufferedInputBytes s \<le> max_input_buffer_bytes (s_config s) \<and>
     (s_connection_closed s \<longleftrightarrow> s_state s = Closed) \<and>
     s_close_calls s = (if s_connection_closed s then 1 else 0) \<and>
     (case s_state s of
        Reading \<Rightarrow> codec_ready s \<and> s_pending_input s = [] \<and> s_output s = [] \<and>
                   \<not> s_close_after_write s \<and> \<not> s_peer_read_closed s
      | Processing \<Rightarrow> codec_idle (s_codec s) \<and> s_output s = [] \<and> \<not> s_close_after_write s
      | Writing \<Rightarrow> codec_idle (s_codec s) \<and> s_output_offset s < length (s_output s) \<and>
                   (s_close_after_write s \<longrightarrow> s_close_reason s \<noteq> ReasonNone)
      | _ \<Rightarrow> s_close_reason s \<noteq> ReasonNone)"

definition session_stream :: "session \<Rightarrow> bytes" where
  "session_stream s = codec_pending (s_codec s) @ drop (s_pending_input_offset s) (s_pending_input s)"

lemma bytesNeededByCodec_eq:
  assumes "codec_ready s"
  shows "bytesNeededByCodec s = codec_needs (s_codec s)"
  using assms
  by (cases "codec_next (s_codec s)")
     (auto simp: codec_ready_def codec_wf_def bytesNeededByCodec_def codec_needs_def
        bufferedBytes_def kFrameHeaderSize_def)

lemma beginClose_open [simp]:
  assumes "s_state s \<notin> {Closing, Closed}" "reason \<noteq> ReasonNone"
  shows "beginClose reason s = (s\<lparr>s_state := Closing, s_close_reason := reason\<rparr>, StatusClosing)"
  using assms by (simp add: beginClose_def)

text \<open>What an iteration of the read loop, and the loop itself, may do.\<close>

definition only_reading_fields :: "session \<Rightarrow> session \<Rightarrow> bool" where
  "only_reading_fields s s' \<longleftrightarrow>
     s_token s' = s_token s \<and> s_config s' = s_config s \<and>
     s_connection_fd s' = s_connection_fd s \<and> s_pending_input s' = s_pending_input s \<and>
     s_pending_input_offset s' = s_pending_input_offset s \<and> s_output s' = s_output s \<and>
     s_output_offset s' = s_output_offset s \<and> s_timers s' = s_timers s \<and>
     s_peer_read_closed s' = s_peer_read_closed s \<and>
     s_close_after_write s' = s_close_after_write s \<and>
     s_connection_closed s' = s_connection_closed s \<and> s_close_calls s' = s_close_calls s"

definition read_closed :: "session \<Rightarrow> nat \<Rightarrow> session \<Rightarrow> SessionResult \<Rightarrow> nat \<Rightarrow> bool" where
  "read_closed s offset s' res' offset' \<longleftrightarrow>
     s_state s' = Closing \<and> s_close_reason s' \<noteq> ReasonNone \<and> sr_request res' = None \<and>
     sr_status res' \<in> {InputLimitExceeded, StatusProtocolError} \<and>
     sr_protocol_error res' \<noteq> multiple_requests \<and>
     sr_bytes_accepted res' = offset' \<and> codec_wf (s_codec s') \<and>
     bufferedBytes (s_codec s') \<le> bufferedBytes (s_codec s) + (offset' - offset)"

definition read_request ::
  "session \<Rightarrow> SessionResult \<Rightarrow> bytes \<Rightarrow> session \<Rightarrow> SessionResult \<Rightarrow> bool" where
  "read_request s res bs s' res' \<longleftrightarrow>
     (\<exists>f. s_state s' = Processing \<and> s_close_reason s' = s_close_reason s \<and>
        codec_idle (s_codec s') \<and>
        res' = res\<lparr>sr_request := Some f, sr_status := RequestReady\<rparr> \<and>
        codec_pending (s_codec s) @ bs = frame_of f \<and> f \<noteq> [] \<and>
        length f \<le> max_frame_payload_bytes (s_config s))"

definition read_more ::
  "session \<Rightarrow> SessionResult \<Rightarrow> bytes \<Rightarrow> session \<Rightarrow> SessionResult \<Rightarrow> bool" where
  "read_more s res bs s' res' \<longleftrightarrow>
     s_state s' = Reading \<and> s_close_reason s' = s_close_reason s \<and> codec_ready s' \<and> res' = res \<and>
     codec_pending (s_codec s') = codec_pending (s_codec s) @ bs \<and>
     bufferedBytes (s_codec s') \<le> bufferedBytes (s_codec s) + length bs"

definition within_buffer :: "bool \<Rightarrow> session \<Rightarrow> bool" where
  "within_buffer store s \<longleftrightarrow>
     (store \<longrightarrow> bufferedInputBytes s \<le> max_input_buffer_bytes (s_config s))"

definition step_ok ::
  "session \<Rightarrow> SessionResult \<Rightarrow> bytes \<Rightarrow> bool \<Rightarrow> nat \<Rightarrow> bool \<times> session \<times> SessionResult \<times> nat \<Rightarrow> bool" where
  "step_ok s res input store offset = (\<lambda>(ret, s', res', offset').
     only_reading_fields s s' \<and> offset' \<le> length input \<and> within_buffer store s' \<and>
     (if ret then offset \<le> offset' \<and> read_closed s offset s' res' offset'
      else offset < offset' \<and>
        (read_more s res (take (offset' - offset) (drop offset input)) s' res' \<or>
         read_request s res (take (offset' - offset) (drop offset input)) s' res')))"


lemma consume_step_ok:
  assumes st: "s_state s = Reading" and rdy: "codec_ready s"
    and res: "sr_request res = None" "sr_protocol_error res = error_none"
    and room: "store \<Longrightarrow> bufferedInputBytes s + n \<le> max_input_buffer_bytes (s_config s)"
    and n: "0 < n" "n \<le> codec_needs (s_codec s)" "offset + n \<le> length input"
    and chunk: "chunk = take n (drop offset input)"
  shows "\<exists>c r. consume (s_codec s) chunk = Some (c, r) \<and>
    step_ok s res input store offset
      (read_codec_result (s\<lparr>s_codec := c\<rparr>) res (offset + bytes_consumed r) r)"
proof -
  have wf: "codec_wf (s_codec s)" "codec_next (s_codec s) \<noteq> CodecError"
    using rdy by (auto simp: codec_ready_def)
  have len: "length chunk = n" using n(3) by (simp add: chunk)
  with n(2) have le: "length chunk \<le> codec_needs (s_codec s)" by simp
  note defs = read_codec_result_def step_ok_def only_reading_fields_def within_buffer_def
    read_closed_def read_more_def read_request_def
  show ?thesis
    using wf le
  proof (cases rule: consume_needed)
    case (collecting c r)
    have "store \<Longrightarrow> bufferedInputBytes (s\<lparr>s_codec := c\<rparr>) \<le> max_input_buffer_bytes (s_config s)"
      using room collecting(8) len by (simp add: bufferedInputBytes_def pendingInputBytes_def)
    then show ?thesis
      using collecting st res n len
      by (auto simp: defs codec_ready_def chunk bufferedInputBytes_def pendingInputBytes_def)
  next
    case (framed c r f)
    have b: "bufferedBytes c = 0" using framed(2)
      by (auto simp: codec_idle_def codec_wf_def bufferedBytes_def)
    have "length f \<le> max_frame_payload_bytes (s_config s)" "f \<noteq> []"
      using rdy wf framed(7,8) validate_pos by (auto simp: codec_ready_def codec_wf_def)
    then show ?thesis
      using framed st res n len room b
      by (auto simp: defs codec_idle_def chunk bufferedInputBytes_def pendingInputBytes_def)
  next
    case (failed c r)
    have b: "bufferedBytes c = 0" using failed(2,3)
      by (auto simp: codec_wf_def bufferedBytes_def)
    then show ?thesis
      using failed st res n len room
      by (auto simp: defs bufferedInputBytes_def pendingInputBytes_def)
  qed
qed

lemma reading_step_spec:
  assumes st: "s_state s = Reading" and rdy: "codec_ready s" and off: "offset < length input"
    and res: "sr_request res = None" "sr_protocol_error res = error_none"
    and buf: "within_buffer store s"
  shows "\<exists>x. reading_step s res input store offset = Some x \<and> step_ok s res input store offset x"
proof -
  define n where "n = min (codec_needs (s_codec s)) (length input - offset)"
  have wf: "codec_wf (s_codec s)" "codec_next (s_codec s) \<noteq> CodecError"
    using rdy by (auto simp: codec_ready_def)
  have n: "0 < n" "n \<le> codec_needs (s_codec s)" "offset + n \<le> length input"
    using codec_needs_pos [OF wf] off by (auto simp: n_def)
  show ?thesis
  proof (cases "store \<and> n > sub64 (max_input_buffer_bytes (s_config s)) (bufferedInputBytes s)")
    case True
    then show ?thesis using st off res wf buf
      by (simp add: reading_step_def bytesNeededByCodec_eq [OF rdy] n_def [symmetric]
          only_reading_fields_def step_ok_def read_closed_def within_buffer_def
          bufferedInputBytes_def pendingInputBytes_def)
  next
    case fits: False
    then have room: "store \<Longrightarrow> bufferedInputBytes s + n \<le> max_input_buffer_bytes (s_config s)"
      using buf by (auto simp: within_buffer_def)
    obtain c r where "consume (s_codec s) (take n (drop offset input)) = Some (c, r)"
        "step_ok s res input store offset
           (read_codec_result (s\<lparr>s_codec := c\<rparr>) res (offset + bytes_consumed r) r)"
      using consume_step_ok [OF st rdy res room n refl] by blast
    moreover from this(1) have "reading_step s res input store offset =
        Some (read_codec_result (s\<lparr>s_codec := c\<rparr>) res (offset + bytes_consumed r) r)"
      using fits by (auto simp: reading_step_def bytesNeededByCodec_eq [OF rdy] n_def [symmetric])
    ultimately show ?thesis by blast
  qed
qed

definition loop_ok ::
  "session \<Rightarrow> SessionResult \<Rightarrow> bytes \<Rightarrow> bool \<Rightarrow> nat \<Rightarrow> bool \<times> session \<times> SessionResult \<times> nat \<Rightarrow> bool" where
  "loop_ok s res input store offset = (\<lambda>(ret, s', res', offset').
     only_reading_fields s s' \<and> offset \<le> offset' \<and> offset' \<le> length input \<and> within_buffer store s' \<and>
     (if ret then read_closed s offset s' res' offset'
      else (offset' = length input \<and> read_more s res (drop offset input) s' res') \<or>
           read_request s res (take (offset' - offset) (drop offset input)) s' res'))"

lemma only_reading_fields_refl [simp]: "only_reading_fields s s"
  by (simp add: only_reading_fields_def)

lemma only_reading_fields_trans:
  "only_reading_fields s s1 \<Longrightarrow> only_reading_fields s1 s2 \<Longrightarrow> only_reading_fields s s2"
  by (simp add: only_reading_fields_def)

lemma take_drop_chain:
  assumes "a \<le> b" "b \<le> c"
  shows "take (b - a) (drop a xs) @ take (c - b) (drop b xs) = take (c - a) (drop a xs)"
  using assms take_add [of "b - a" "c - b" "drop a xs"] by simp

lemma loop_ok_step:
  assumes step: "step_ok s res input store offset (False, s1, res1, offset1)"
    and more: "read_more s res (take (offset1 - offset) (drop offset input)) s1 res1"
    and loop: "loop_ok s1 res1 input store offset1 x"
  shows "loop_ok s res input store offset x"
proof -
  obtain ret s' res' offset' where x: "x = (ret, s', res', offset')" by (cases x)
  have o: "offset < offset1" "offset1 \<le> offset'" "offset' \<le> length input"
    "only_reading_fields s s1" "only_reading_fields s1 s'"
    using step loop by (auto simp: step_ok_def loop_ok_def x)
  have buf: "bufferedBytes (s_codec s1) \<le> bufferedBytes (s_codec s) + (offset1 - offset)"
    using more by (auto simp: read_more_def)
  have chain: "take (offset1 - offset) (drop offset input) @ take (offset' - offset1) (drop offset1 input)
      = take (offset' - offset) (drop offset input)"
    using o by (intro take_drop_chain) auto
  have rest: "take (offset1 - offset) (drop offset input) @ drop offset1 input = drop offset input"
    using o(1) by (metis append_take_drop_id drop_drop le_add_diff_inverse2 less_imp_le_nat)
  have cfg: "s_config s1 = s_config s" using o(4) by (simp add: only_reading_fields_def)
  have closed: "read_closed s offset s' res' offset'" if "read_closed s1 offset1 s' res' offset'"
    using that buf o(1,2) by (auto simp: read_closed_def)
  have req: "read_request s res (take (offset' - offset) (drop offset input)) s' res'"
    if "read_request s1 res1 (take (offset' - offset1) (drop offset1 input)) s' res'"
    using that more cfg chain unfolding read_request_def read_more_def by (metis append_assoc)
  have again: "read_more s res (drop offset input) s' res'"
    if "read_more s1 res1 (drop offset1 input) s' res'"
    using that more o(1-3) by (auto simp: read_more_def rest)
  show ?thesis
    using loop o closed req again only_reading_fields_trans [OF o(4,5)]
    by (auto simp: x loop_ok_def split: if_splits)
qed


lemma reading_loop_spec:
  assumes "s_state s = Reading" "codec_ready s" "offset \<le> length input"
    and "sr_request res = None" "sr_protocol_error res = error_none" "within_buffer store s"
  shows "\<exists>x. reading_loop s res input store offset = Some x \<and> loop_ok s res input store offset x"
  using assms
proof (induction "length input - offset" arbitrary: s res offset rule: less_induct)
  case less
  show ?case
  proof (cases "offset < length input")
    case False
    then show ?thesis
      using less.prems
      by (auto simp: reading_loop.simps [of s] loop_ok_def read_more_def)
  next
    case True
    obtain ret s1 res1 offset1 where
      step: "reading_step s res input store offset = Some (ret, s1, res1, offset1)"
      and ok: "step_ok s res input store offset (ret, s1, res1, offset1)"
      using reading_step_spec [OF less.prems(1,2) True less.prems(4-6)] by auto
    then have unfold: "reading_loop s res input store offset =
        (if ret then Some (True, s1, res1, offset1) else reading_loop s1 res1 input store offset1)"
      using True less.prems(1) by (simp add: reading_loop.simps [of s res])
    consider "ret" | "\<not> ret" "read_more s res (take (offset1 - offset) (drop offset input)) s1 res1"
      | "\<not> ret" "read_request s res (take (offset1 - offset) (drop offset input)) s1 res1"
      using ok by (auto simp: step_ok_def split: if_splits)
    then show ?thesis
    proof cases
      case 1
      then show ?thesis using ok unfold by (auto simp: step_ok_def loop_ok_def)
    next
      case 2
      have "\<exists>x. reading_loop s1 res1 input store offset1 = Some x \<and> loop_ok s1 res1 input store offset1 x"
        using 2 ok less.prems True
        by (intro less.hyps) (auto simp: step_ok_def read_more_def split: if_splits)
      then show ?thesis using unfold 2 loop_ok_step [of s res input store offset s1 res1 offset1] ok by auto
    next
      case 3
      then have "reading_loop s1 res1 input store offset1 = Some (False, s1, res1, offset1)"
        by (auto simp: reading_loop.simps [of s1] read_request_def)
      then show ?thesis using unfold 3 ok by (auto simp: step_ok_def loop_ok_def split: if_splits)
    qed
  qed
qed


section \<open>Operations preserve the invariant and the byte stream\<close>

definition request_bytes :: "bytes option \<Rightarrow> bytes" where
  "request_bytes rq = (case rq of None \<Rightarrow> [] | Some f \<Rightarrow> frame_of f)"

definition session_open :: "session \<Rightarrow> bool" where
  "session_open s \<longleftrightarrow> s_state s \<in> {Reading, Processing, Writing}"

text \<open>\<open>op_ok s input s' rq\<close>: from \<open>s\<close>, an operation that took in \<open>input\<close> and delivered the
  request \<open>rq\<close> reached \<open>s'\<close>; the stream is conserved unless the session was closed.\<close>

definition op_ok :: "session \<Rightarrow> bytes \<Rightarrow> session \<Rightarrow> bytes option \<Rightarrow> bool" where
  "op_ok s input s' rq \<longleftrightarrow>
     session_wf s' \<and> s_token s' = s_token s \<and> s_config s' = s_config s \<and>
     (s_state s' = Closed \<longleftrightarrow> s_state s = Closed) \<and>
     (s_state s' = Writing \<longrightarrow> s_state s = Writing) \<and>
     (session_open s' \<and> rq = None \<longrightarrow> (s_state s' = Processing \<longleftrightarrow> s_state s = Processing)) \<and>
     (session_open s' \<longrightarrow> session_open s \<and>
        session_stream s @ input = request_bytes rq @ session_stream s') \<and>
     (rq \<noteq> None \<longrightarrow> s_state s \<in> {Reading, Writing} \<and> s_state s' = Processing \<and>
        the rq \<noteq> [] \<and> length (the rq) \<le> max_frame_payload_bytes (s_config s))"

lemma idle_buffered: "codec_idle c \<Longrightarrow> bufferedBytes c = 0 \<and> codec_pending c = []"
  by (auto simp: codec_idle_def codec_wf_def bufferedBytes_def codec_pending_def)

lemma session_wf_close:
  assumes "session_wf s" "session_open s" "reason \<noteq> ReasonNone"
  shows "session_wf (s\<lparr>s_state := Closing, s_close_reason := reason\<rparr>)"
  using assms
  by (cases "s_state s")
     (auto simp: session_wf_def session_open_def bufferedInputBytes_def pendingInputBytes_def)

lemma beginClose_wf:
  "session_wf s \<Longrightarrow> session_wf (fst (beginClose reason s))"
  using session_wf_close [of s reason]
  by (cases "s_state s") (auto simp: beginClose_def session_open_def)

lemma appendPendingInput_eq:
  "input \<noteq> [] \<Longrightarrow> appendPendingInput input s =
     s\<lparr>s_pending_input := drop (s_pending_input_offset s) (s_pending_input s) @ input,
       s_pending_input_offset := 0\<rparr>"
  by (cases s) (simp add: appendPendingInput_def)

lemma finish_request:
  assumes loop: "reading_loop s (resultWithStatus Buffered) input True 0 = Some (False, s1, res1, off)"
    and wf1: "session_wf s1" and st1: "s_state s1 = Processing" "s_pending_input s1 = []"
      "s_pending_input_offset s1 = 0"
    and same: "s_token s1 = s_token s" "s_config s1 = s_config s" and st: "s_state s = Reading"
    and f: "sr_request res1 = Some f" "sr_protocol_error res1 = error_none"
      "f \<noteq> []" "length f \<le> max_frame_payload_bytes (s_config s)"
    and stream: "session_stream s @ input = frame_of f @ drop off input"
  shows "\<exists>s' r. consumeReadingBytes s input True = Some (s', r) \<and> op_ok s input s' (sr_request r) \<and>
     sr_protocol_error r \<noteq> multiple_requests"
proof -
  have cidle: "codec_idle (s_codec s1)" using wf1 st1 by (simp add: session_wf_def)
  have idle: "bufferedInputBytes s1 = 0" "session_stream s1 = []"
    using idle_buffered [OF cidle] st1
    by (auto simp: bufferedInputBytes_def pendingInputBytes_def session_stream_def)
  consider (whole) "length input \<le> off"
    | (over) "off < length input" "length input - off > max_input_buffer_bytes (s_config s1)"
    | (store) "off < length input" "length input - off \<le> max_input_buffer_bytes (s_config s1)"
    by linarith
  then show ?thesis
  proof cases
    case whole
    then show ?thesis using loop wf1 st st1 f stream idle same
      by (auto simp: consumeReadingBytes_def op_ok_def session_open_def request_bytes_def)
  next
    case over
    then have "consumeReadingBytes s input True =
        Some (s1\<lparr>s_state := Closing, s_close_reason := ReasonInputLimitExceeded\<rparr>,
              res1\<lparr>sr_status := InputLimitExceeded, sr_request := None, sr_bytes_accepted := off\<rparr>)"
      using loop st1 idle by (simp add: consumeReadingBytes_def)
    then show ?thesis
      using session_wf_close [OF wf1, of ReasonInputLimitExceeded] same st st1 f
      by (auto simp: op_ok_def session_open_def)
  next
    case store
    let ?s' = "s1\<lparr>s_pending_input := drop off input, s_pending_input_offset := 0\<rparr>"
    have eq: "consumeReadingBytes s input True = Some (?s', res1\<lparr>sr_bytes_accepted := length input\<rparr>)"
      using loop store idle st1 by (simp add: consumeReadingBytes_def appendPendingInput_eq)
    have "session_wf ?s'"
      using wf1 st1 store idle_buffered [OF cidle]
      by (auto simp: session_wf_def bufferedInputBytes_def pendingInputBytes_def)
    then show ?thesis using eq st st1 f same stream idle_buffered [OF cidle]
      by (auto simp: op_ok_def session_open_def session_stream_def request_bytes_def)
  qed
qed

lemma consumeReading_store:
  assumes wf: "session_wf s" and st: "s_state s = Reading" and ne: "input \<noteq> []"
  shows "\<exists>s' r. consumeReadingBytes s input True = Some (s', r) \<and> op_ok s input s' (sr_request r) \<and>
     sr_protocol_error r \<noteq> multiple_requests"
proof -
  let ?res = "resultWithStatus Buffered"
  have rdy: "codec_ready s" "s_pending_input s = []" "s_pending_input_offset s = 0"
      "within_buffer True s"
    using wf st by (auto simp: session_wf_def within_buffer_def)
  obtain ret s1 res1 off where
    loop: "reading_loop s ?res input True 0 = Some (ret, s1, res1, off)"
    and ok: "loop_ok s ?res input True 0 (ret, s1, res1, off)"
    using reading_loop_spec [of s 0 input ?res True] rdy st by (auto simp: resultWithStatus_def)
  have only: "only_reading_fields s s1" and off: "off \<le> length input"
    and buf: "bufferedInputBytes s1 \<le> max_input_buffer_bytes (s_config s)"
    using ok by (auto simp: loop_ok_def within_buffer_def only_reading_fields_def)
  note only' = only [unfolded only_reading_fields_def]
  consider (closed) "ret" "read_closed s 0 s1 res1 off"
    | (more) "\<not> ret" "off = length input" "read_more s ?res input s1 res1"
    | (req) f where "\<not> ret" "s_state s1 = Processing" "codec_idle (s_codec s1)"
        "res1 = ?res\<lparr>sr_request := Some f, sr_status := RequestReady\<rparr>"
        "codec_pending (s_codec s) @ take off input = frame_of f" "f \<noteq> []"
        "length f \<le> max_frame_payload_bytes (s_config s)"
    using ok by (auto simp: loop_ok_def read_request_def split: if_splits)
  then show ?thesis
  proof cases
    case closed
    then have "session_wf s1"
      using wf st only' buf by (auto simp: session_wf_def read_closed_def)
    then show ?thesis using closed loop only' st
      by (auto simp: consumeReadingBytes_def op_ok_def read_closed_def session_open_def)
  next
    case more
    then have "session_wf s1"
      using wf st only' buf rdy by (auto simp: session_wf_def read_more_def codec_ready_def)
    then show ?thesis using more loop only' st rdy
      by (auto simp: consumeReadingBytes_def op_ok_def read_more_def session_open_def
          session_stream_def request_bytes_def resultWithStatus_def)
  next
    case req
    have "session_wf s1"
      using req wf st only' buf rdy by (auto simp: session_wf_def codec_idle_def)
    moreover have "session_stream s @ input = frame_of f @ drop off input"
      using req(5) rdy by (simp add: session_stream_def) (metis append_assoc append_take_drop_id)
    ultimately show ?thesis
      using finish_request [of s input s1 res1 off f] loop req only' st rdy
      by (auto simp: resultWithStatus_def)
  qed
qed

lemma onInput_ok:
  assumes wf: "session_wf s"
  shows "\<exists>s' r. onInput s input = Some (s', r) \<and> op_ok s input s' (sr_request r) \<and>
     sr_protocol_error r \<noteq> multiple_requests \<and>
     (s_state s = Writing \<and> session_open s' \<longrightarrow> pendingOutput s' = pendingOutput s)"
proof -
  consider (shut) "\<not> session_open s" | (empty) "session_open s" "input = []"
    | (read) "s_state s = Reading" "input \<noteq> []"
    | (busy) "s_state s \<in> {Processing, Writing}" "input \<noteq> []"
    by (cases "s_state s") (auto simp: session_open_def)
  then show ?thesis
  proof cases
    case shut
    then show ?thesis using wf
      by (cases "s_state s") (auto simp: onInput_def op_ok_def session_open_def resultWithStatus_def)
  next
    case empty
    then show ?thesis using wf
      by (cases "s_state s")
         (auto simp: onInput_def op_ok_def session_open_def resultWithStatus_def request_bytes_def)
  next
    case read
    then show ?thesis using consumeReading_store [OF wf] by (auto simp: onInput_def)
  next
    case busy
    have b: "bufferedInputBytes s \<le> max_input_buffer_bytes (s_config s)"
      and idle: "codec_idle (s_codec s)"
      using wf busy by (auto simp: session_wf_def)
    show ?thesis
    proof (cases "length input > max_input_buffer_bytes (s_config s) - bufferedInputBytes s")
      case True
      then show ?thesis
        using busy b session_wf_close [OF wf, of ReasonInputLimitExceeded]
        by (auto simp: onInput_def op_ok_def session_open_def resultWithStatus_def)
    next
      case False
      then have "session_wf (appendPendingInput input s)"
        using wf busy b by (auto simp: appendPendingInput_eq session_wf_def bufferedInputBytes_def
            pendingInputBytes_def)
      then show ?thesis using False busy b
        by (auto simp: onInput_def op_ok_def session_open_def resultWithStatus_def
            appendPendingInput_eq request_bytes_def session_stream_def pendingOutput_def)
    qed
  qed
qed

text \<open>Buffered input is replayed after a response: the session is back in Reading, the codec is
  at a frame boundary, and the pending buffer is still there.\<close>

definition resuming :: "session \<Rightarrow> bool" where
  "resuming s \<longleftrightarrow>
     token_valid (s_token s) \<and> session_validConfig (s_config s) \<and> codec_idle (s_codec s) \<and>
     (s_pending_input_offset s < length (s_pending_input s) \<or>
      s_pending_input s = [] \<and> s_pending_input_offset s = 0) \<and>
     s_output s = [] \<and> s_output_offset s = 0 \<and> s_state s = Reading \<and>
     bufferedInputBytes s \<le> max_input_buffer_bytes (s_config s) \<and>
     \<not> s_connection_closed s \<and> s_close_calls s = 0 \<and>
     \<not> s_close_after_write s \<and> \<not> s_peer_read_closed s"

lemma clearConsumed_wf:
  assumes "resuming s" "only_reading_fields s s1"
    "off \<le> length (drop (s_pending_input_offset s) (s_pending_input s))"
    "bufferedBytes (s_codec s1) \<le> off" "codec_wf (s_codec s1)"
    and t: "t = clearConsumedPendingInput (s1\<lparr>s_pending_input_offset := s_pending_input_offset s1 + off\<rparr>)"
    and "s_state s1 = Reading \<Longrightarrow> codec_ready s1 \<and>
           off = length (drop (s_pending_input_offset s) (s_pending_input s))"
    "s_state s1 = Processing \<Longrightarrow> codec_idle (s_codec s1)"
    "s_state s1 = Closing \<Longrightarrow> s_close_reason s1 \<noteq> ReasonNone"
    "s_state s1 \<in> {Reading, Processing, Closing}"
  shows "session_wf t \<and> s_state t = s_state s1 \<and> s_codec t = s_codec s1 \<and>
    s_token t = s_token s \<and> s_config t = s_config s \<and>
    drop (s_pending_input_offset t) (s_pending_input t) =
      drop off (drop (s_pending_input_offset s) (s_pending_input s))"
  using assms
  by (cases "s_state s1")
     (auto simp: clearConsumedPendingInput_def session_wf_def resuming_def only_reading_fields_def
        bufferedInputBytes_def pendingInputBytes_def codec_ready_def idle_buffered add.commute)

lemma consumePending_ok:
  assumes res: "resuming s"
  shows "\<exists>s' r. consumePendingInput s = Some (s', r) \<and> op_ok s [] s' (sr_request r) \<and>
     sr_protocol_error r \<noteq> multiple_requests"
proof (cases "pendingInputBytes s = 0")
  case True
  then have "s_pending_input s = []" using res by (auto simp: resuming_def pendingInputBytes_def)
  then have "session_wf s" using res
    by (auto simp: resuming_def session_wf_def codec_ready_def codec_idle_def)
  then show ?thesis using True res
    by (auto simp: consumePendingInput_def op_ok_def resuming_def request_bytes_def session_open_def
        resultWithStatus_def)
next
  case False
  let ?res = "resultWithStatus Buffered"
  define input where "input = drop (s_pending_input_offset s) (s_pending_input s)"
  have idle: "codec_idle (s_codec s)" and st: "s_state s = Reading"
    using res by (auto simp: resuming_def)
  then have rdy: "codec_ready s" by (auto simp: codec_ready_def codec_idle_def)
  obtain ret s1 res1 off where
    loop: "reading_loop s ?res input False 0 = Some (ret, s1, res1, off)"
    and ok: "loop_ok s ?res input False 0 (ret, s1, res1, off)"
    using reading_loop_spec [of s 0 input ?res False] rdy st
    by (auto simp: resultWithStatus_def within_buffer_def)
  define t where
    "t = clearConsumedPendingInput (s1\<lparr>s_pending_input_offset := s_pending_input_offset s1 + off\<rparr>)"
  have only: "only_reading_fields s s1" and off: "off \<le> length input"
    using ok by (auto simp: loop_ok_def)
  have shape: "codec_wf (s_codec s1) \<and> bufferedBytes (s_codec s1) \<le> off \<and>
      s_state s1 \<in> {Reading, Processing, Closing} \<and>
      (s_state s1 = Reading \<longrightarrow> codec_ready s1 \<and> off = length input) \<and>
      (s_state s1 = Processing \<longrightarrow> codec_idle (s_codec s1)) \<and>
      (s_state s1 = Closing \<longrightarrow> s_close_reason s1 \<noteq> ReasonNone)"
    using ok idle_buffered [OF idle] idle_buffered [of "s_codec s1"]
    by (auto simp: loop_ok_def read_closed_def read_more_def read_request_def codec_ready_def
        codec_idle_def split: if_splits)
  have t: "session_wf t \<and> s_state t = s_state s1 \<and> s_codec t = s_codec s1 \<and>
    s_token t = s_token s \<and> s_config t = s_config s \<and>
    drop (s_pending_input_offset t) (s_pending_input t) = drop off input"
    unfolding input_def using clearConsumed_wf [OF res only _ _ _ t_def] shape off
    by (auto simp: input_def)
  define r where "r = (if ret then res1 else res1\<lparr>sr_bytes_accepted := off\<rparr>)"
  have "sr_bytes_accepted r = off"
    using ok by (auto simp: r_def loop_ok_def read_closed_def split: if_splits)
  then have eq: "consumePendingInput s = Some (t, r)"
    using False st loop
    by (auto simp: consumePendingInput_def consumeReadingBytes_def t_def input_def [symmetric] r_def)
  have "op_ok s [] t (sr_request r) \<and> sr_protocol_error r \<noteq> multiple_requests"
    using t ok st idle_buffered [OF idle] idle_buffered [of "s_codec s1"]
    by (auto simp: op_ok_def loop_ok_def read_closed_def read_more_def read_request_def
        session_open_def session_stream_def request_bytes_def resultWithStatus_def r_def
        input_def [symmetric] split: if_splits) (metis append_take_drop_id)
  with eq show ?thesis by blast
qed


end
