(* ===== verification/Session_Run.thy ===== *)
theory Session_Run
  imports Session_Invariant "HOL-Library.Sublist"
begin

text \<open>Runs of a session: any sequence of calls the event loop may make, with the observable
  events they cause (requests delivered, responses accepted, bytes handed to the socket, calls
  of close).  Everything the session promises over its life is proved for such sequences.\<close>

section \<open>Operations and events\<close>

datatype session_op =
    OpInput bytes
  | OpQueueResponse ConnectionToken bytes
  | OpBytesWritten nat
  | OpCloseAfterWrite SessionCloseReason
  | OpPeerReadClosed
  | OpBeginClose SessionCloseReason
  | OpFinalizeClose
  | OpReplaceTimer SessionTimerKind TimerId
  | OpReleaseTimers

datatype session_event = Delivered bytes | Queued bytes | Sent bytes | SocketClosed

definition request_event :: "SessionResult \<Rightarrow> session_event list" where
  "request_event r = (case sr_request r of None \<Rightarrow> [] | Some f \<Rightarrow> [Delivered f])"

fun session_exec :: "session_op \<Rightarrow> session \<Rightarrow> (session \<times> session_event list) option" where
  "session_exec (OpInput bs) s = map_option (\<lambda>(s', r). (s', request_event r)) (onInput s bs)"
| "session_exec (OpQueueResponse t bs) s =
     (case queueResponse s t bs of (s', st) \<Rightarrow>
        Some (s', if st = StatusOk then [Queued bs] else []))"
| "session_exec (OpBytesWritten n) s =
     map_option
       (\<lambda>(s', r). (s', (if s_state s = Writing \<and> n \<le> remainingOutputBytes s
                         then [Sent (take n (pendingOutput s))] else []) @ request_event r))
       (onBytesWritten s n)"
| "session_exec (OpCloseAfterWrite reason) s = Some (fst (closeAfterWrite reason s), [])"
| "session_exec OpPeerReadClosed s = Some (fst (onPeerReadClosed s), [])"
| "session_exec (OpBeginClose reason) s = Some (fst (beginClose reason s), [])"
| "session_exec OpFinalizeClose s =
     (case finalizeClose s of (s', st) \<Rightarrow>
        Some (s', replicate (s_close_calls s' - s_close_calls s) SocketClosed))"
| "session_exec (OpReplaceTimer kind tid) s = Some (fst (replaceTimer kind tid s), [])"
| "session_exec OpReleaseTimers s = Some (fst (releaseTimersForClose s), [])"

fun session_run :: "session_op list \<Rightarrow> session \<Rightarrow> (session \<times> session_event list) option" where
  "session_run [] s = Some (s, [])"
| "session_run (op # ops) s =
     Option.bind (session_exec op s)
       (\<lambda>(s', evs). map_option (\<lambda>(s'', evs'). (s'', evs @ evs')) (session_run ops s'))"

fun op_input :: "session_op \<Rightarrow> bytes" where
  "op_input (OpInput bs) = bs"
| "op_input _ = []"

definition received :: "session_op list \<Rightarrow> bytes" where
  "received ops = concat (map op_input ops)"

fun delivered :: "session_event list \<Rightarrow> bytes list" where
  "delivered [] = []"
| "delivered (e # es) = (case e of Delivered f \<Rightarrow> f # delivered es | _ \<Rightarrow> delivered es)"

fun queued :: "session_event list \<Rightarrow> bytes list" where
  "queued [] = []"
| "queued (e # es) = (case e of Queued f \<Rightarrow> f # queued es | _ \<Rightarrow> queued es)"

fun sent :: "session_event list \<Rightarrow> bytes" where
  "sent [] = []"
| "sent (e # es) = (case e of Sent f \<Rightarrow> f @ sent es | _ \<Rightarrow> sent es)"

fun socket_closes :: "session_event list \<Rightarrow> nat" where
  "socket_closes [] = 0"
| "socket_closes (e # es) = (if e = SocketClosed then 1 else 0) + socket_closes es"

lemma events_append [simp]:
  "delivered (a @ b) = delivered a @ delivered b"
  "queued (a @ b) = queued a @ queued b"
  "sent (a @ b) = sent a @ sent b"
  "socket_closes (a @ b) = socket_closes a + socket_closes b"
  by (induction a) (auto split: session_event.split)

lemma request_event_simps [simp]:
  "delivered (request_event r) = (case sr_request r of None \<Rightarrow> [] | Some f \<Rightarrow> [f])"
  "queued (request_event r) = []" "sent (request_event r) = []" "socket_closes (request_event r) = 0"
  by (auto simp: request_event_def split: option.split)

lemma concat_frames_request [simp]:
  "concat (map frame_of (case rq of None \<Rightarrow> [] | Some f \<Rightarrow> [f])) = request_bytes rq"
  by (auto simp: request_bytes_def split: option.split)

section \<open>One operation\<close>

definition in_flight :: "session \<Rightarrow> nat" where
  "in_flight s = (if s_state s = Processing then 1 else 0)"

definition frame_ok :: "session \<Rightarrow> bytes \<Rightarrow> bool" where
  "frame_ok s f \<longleftrightarrow> f \<noteq> [] \<and> length f \<le> max_frame_payload_bytes (s_config s)"

definition exec_ok :: "session \<Rightarrow> bytes \<Rightarrow> session \<Rightarrow> session_event list \<Rightarrow> bool" where
  "exec_ok s input s' evs \<longleftrightarrow>
     session_wf s' \<and> s_token s' = s_token s \<and> s_config s' = s_config s \<and>
     (if session_open s'
      then session_open s \<and>
           session_stream s @ input = concat (map frame_of (delivered evs)) @ session_stream s' \<and>
           pendingOutput s @ concat (queued evs) = sent evs @ pendingOutput s' \<and>
           in_flight s + length (delivered evs) = length (queued evs) + in_flight s'
      else delivered evs = [] \<and> queued evs = [] \<and> prefix (sent evs) (pendingOutput s) \<and>
           (session_open s \<or> sent evs = [])) \<and>
     list_all (frame_ok s) (delivered evs) \<and>
     s_close_calls s' = s_close_calls s + socket_closes evs"

lemma close_calls_eq:
  assumes "session_wf s" "session_wf s'" "s_state s' = Closed \<longleftrightarrow> s_state s = Closed"
  shows "s_close_calls s' = s_close_calls s"
  using assms by (auto simp: session_wf_def)

lemma no_pending_output:
  "session_wf s \<Longrightarrow> session_open s \<Longrightarrow> s_state s \<noteq> Writing \<Longrightarrow> pendingOutput s = []"
  by (cases "s_state s") (auto simp: session_wf_def pendingOutput_def session_open_def)

lemma replay_ok:
  assumes wf: "session_wf s" and st: "s_state s = Writing"
    and fl: "\<not> s_close_after_write s" "\<not> s_peer_read_closed s"
    and s2: "s2 = s\<lparr>s_output := [], s_output_offset := 0, s_state := Reading\<rparr>"
  shows "\<exists>s' r. consumePendingInput s2 = Some (s', r) \<and> op_ok s [] s' (sr_request r) \<and>
     sr_protocol_error r \<noteq> multiple_requests \<and> s_state s' \<noteq> Writing"
proof -
  have "resuming s2"
    using assms by (auto simp: resuming_def session_wf_def bufferedInputBytes_def pendingInputBytes_def)
  then obtain s' r where "consumePendingInput s2 = Some (s', r)" "op_ok s2 [] s' (sr_request r)"
      "sr_protocol_error r \<noteq> multiple_requests" "s_state s' \<noteq> Writing"
    using consumePending_ok [of s2] by (auto simp: op_ok_def s2)
  then show ?thesis using st
    by (auto simp: op_ok_def s2 session_stream_def session_open_def)
qed

lemma onBytesWritten_ok:
  assumes wf: "session_wf s"
  shows "\<exists>s' r. onBytesWritten s n = Some (s', r) \<and> op_ok s [] s' (sr_request r) \<and>
     sr_protocol_error r \<noteq> multiple_requests \<and>
     (session_open s' \<longrightarrow> (if s_state s = Writing \<and> n \<le> remainingOutputBytes s
        then pendingOutput s = take n (pendingOutput s) @ pendingOutput s' else s' = s))"
proof -
  have off: "s_output_offset s \<le> length (s_output s)" using wf by (simp add: session_wf_def)
  note defs = onBytesWritten_def op_ok_def session_open_def resultWithStatus_def request_bytes_def
  let ?s1 = "s\<lparr>s_output_offset := s_output_offset s + n\<rparr>"
  consider (other) "s_state s \<noteq> Writing"
    | (exceed) "s_state s = Writing" "n > remainingOutputBytes s"
    | (partial) "s_state s = Writing" "n < remainingOutputBytes s"
    | (close) "s_state s = Writing" "n = remainingOutputBytes s"
        "s_close_after_write s \<or> s_peer_read_closed s"
    | (replay) "s_state s = Writing" "n = remainingOutputBytes s"
        "\<not> s_close_after_write s" "\<not> s_peer_read_closed s"
    by fastforce
  then show ?thesis
  proof cases
    case other
    then show ?thesis using wf by (cases "s_state s") (auto simp: defs)
  next
    case exceed
    then show ?thesis using session_wf_close [OF wf, of WriteInvariantViolation] by (auto simp: defs)
  next
    case partial
    have "session_wf ?s1"
      using wf partial by (auto simp: session_wf_def remainingOutputBytes_def bufferedInputBytes_def
          pendingInputBytes_def)
    moreover have "onBytesWritten s n = Some (?s1, resultWithStatus StatusOk)"
      using partial off by (auto simp: onBytesWritten_def remainingOutputBytes_def Let_def)
    moreover have "pendingOutput s = take n (pendingOutput s) @ pendingOutput ?s1"
      by (simp add: pendingOutput_def) (metis append_take_drop_id drop_drop add.commute)
    ultimately show ?thesis using partial
      by (auto simp: op_ok_def session_open_def resultWithStatus_def request_bytes_def session_stream_def)
  next
    case close
    define reason where "reason = (if s_close_after_write s then s_close_reason s else PeerClosed)"
    let ?s2 = "s\<lparr>s_output_offset := 0, s_output := [], s_state := Closing, s_close_reason := reason\<rparr>"
    have r: "reason \<noteq> ReasonNone" using close wf by (auto simp: reason_def session_wf_def)
    then have "session_wf ?s2"
      using wf close by (auto simp: session_wf_def bufferedInputBytes_def pendingInputBytes_def)
    moreover have "onBytesWritten s n = Some (?s2, resultWithStatus StatusClosing)"
      using close off r reason_def by (auto simp: onBytesWritten_def remainingOutputBytes_def)
    ultimately show ?thesis using close
      by (auto simp: op_ok_def session_open_def resultWithStatus_def)
  next
    case replay
    define s2 where "s2 = s\<lparr>s_output := [], s_output_offset := 0, s_state := Reading\<rparr>"
    obtain s' r where c: "consumePendingInput s2 = Some (s', r)" "op_ok s [] s' (sr_request r)"
        "sr_protocol_error r \<noteq> multiple_requests" "s_state s' \<noteq> Writing"
      using replay_ok [OF wf replay(1,3,4) s2_def] by blast
    have "onBytesWritten s n =
        Some (s', if sr_status r = Buffered then r\<lparr>sr_status := StatusOk\<rparr> else r)"
      using replay off c(1) by (simp add: onBytesWritten_def remainingOutputBytes_def s2_def)
    moreover have "session_open s' \<Longrightarrow> pendingOutput s' = []"
      using c by (auto simp: op_ok_def intro: no_pending_output)
    moreover have "take n (pendingOutput s) = pendingOutput s"
      using replay(2) off by (simp add: remainingOutputBytes_def pendingOutput_def)
    ultimately show ?thesis using c replay by auto
  qed
qed

lemma exec_read_ok:
  assumes wf: "session_wf s" and ok: "op_ok s input s' (sr_request r)"
    and out: "session_open s' \<Longrightarrow> pendingOutput s = out @ pendingOutput s'"
    and pre: "prefix out (pendingOutput s)" "session_open s \<or> out = []"
    and evs: "delivered evs = (case sr_request r of None \<Rightarrow> [] | Some f \<Rightarrow> [f])" "queued evs = []"
      "sent evs = out" "socket_closes evs = 0"
  shows "exec_ok s input s' evs"
proof -
  have cl: "s_close_calls s' = s_close_calls s"
    using ok wf close_calls_eq [OF wf, of s'] by (simp add: op_ok_def)
  show ?thesis
  proof (cases "sr_request r")
    case None
    then show ?thesis using ok out pre evs cl
      by (simp add: exec_ok_def op_ok_def in_flight_def request_bytes_def)
  next
    case (Some f)
    then have "session_open s'" "s_state s' = Processing" "s_state s \<noteq> Processing" "frame_ok s f"
      using ok by (auto simp: op_ok_def session_open_def frame_ok_def)
    then show ?thesis using ok out pre evs cl Some
      by (simp add: exec_ok_def op_ok_def in_flight_def request_bytes_def)
  qed
qed

lemma onInput_exec_ok:
  assumes wf: "session_wf s"
  shows "\<exists>s' evs. session_exec (OpInput bs) s = Some (s', evs) \<and> exec_ok s bs s' evs"
proof -
  obtain s' r where c: "onInput s bs = Some (s', r)" "op_ok s bs s' (sr_request r)"
      "s_state s = Writing \<and> session_open s' \<longrightarrow> pendingOutput s' = pendingOutput s"
    using onInput_ok [OF wf] by blast
  have "pendingOutput s = [] @ pendingOutput s'" if "session_open s'"
    using c that no_pending_output [OF wf] no_pending_output [of s']
    by (cases "s_state s = Writing") (auto simp: op_ok_def)
  then have "exec_ok s bs s' (request_event r)"
    using c wf by (intro exec_read_ok [of s bs s' r "[]"]) auto
  with c show ?thesis by simp
qed

lemma onBytesWritten_exec_ok:
  assumes wf: "session_wf s"
  shows "\<exists>s' evs. session_exec (OpBytesWritten n) s = Some (s', evs) \<and> exec_ok s [] s' evs"
proof -
  define fits where "fits \<longleftrightarrow> s_state s = Writing \<and> n \<le> remainingOutputBytes s"
  define out where "out = (if fits then take n (pendingOutput s) else [])"
  obtain s' r where c: "onBytesWritten s n = Some (s', r)" "op_ok s [] s' (sr_request r)"
      "session_open s' \<longrightarrow> (if fits then pendingOutput s = take n (pendingOutput s) @ pendingOutput s'
         else s' = s)"
    using onBytesWritten_ok [OF wf, of n] unfolding fits_def by blast
  have "exec_ok s [] s' ((if fits then [Sent out] else []) @ request_event r)"
    using c wf by (intro exec_read_ok [of s "[]" s' r out])
      (auto simp: out_def fits_def take_is_prefix session_open_def)
  then show ?thesis using c(1) by (auto simp: fits_def out_def split: if_splits)
qed

lemma exec_close_ok:
  assumes "session_wf s'" "s_token s' = s_token s" "s_config s' = s_config s"
    and "\<not> session_open s'" "s_close_calls s' = s_close_calls s + k"
  shows "exec_ok s [] s' (replicate k SocketClosed)"
proof -
  have "delivered (replicate k SocketClosed) = []" "queued (replicate k SocketClosed) = []"
    "sent (replicate k SocketClosed) = []" "socket_closes (replicate k SocketClosed) = k"
    by (induction k) auto
  then show ?thesis using assms by (simp add: exec_ok_def)
qed

lemma exec_same_ok:
  assumes "session_wf s'" "s_token s' = s_token s" "s_config s' = s_config s"
    "s_state s' = s_state s" "s_codec s' = s_codec s" "s_pending_input s' = s_pending_input s"
    "s_pending_input_offset s' = s_pending_input_offset s" "s_output s' = s_output s"
    "s_output_offset s' = s_output_offset s" "s_close_calls s' = s_close_calls s"
  shows "exec_ok s [] s' []"
  using assms
  by (auto simp: exec_ok_def session_open_def session_stream_def pendingOutput_def in_flight_def)

lemma queueResponse_exec_ok:
  assumes wf: "session_wf s"
  shows "\<exists>s' evs. session_exec (OpQueueResponse t bs) s = Some (s', evs) \<and> exec_ok s [] s' evs"
proof (cases "session_matches s t \<and> s_state s = Processing \<and> bs \<noteq> []")
  case False
  then have "fst (queueResponse s t bs) = s" "snd (queueResponse s t bs) \<noteq> StatusOk"
    by (auto simp: queueResponse_def)
  then show ?thesis using wf exec_same_ok [of s s] by (cases "queueResponse s t bs") auto
next
  case ready: True
  show ?thesis
  proof (cases "length bs > max_output_buffer_bytes (s_config s)")
    case True
    then show ?thesis using ready session_wf_close [OF wf, of ReasonOutputLimitExceeded]
      by (auto simp: exec_ok_def session_open_def queueResponse_def)
  next
    case False
    let ?s' = "s\<lparr>s_output := bs, s_output_offset := 0, s_state := Writing\<rparr>"
    have "queueResponse s t bs = (?s', StatusOk)" using ready False by (simp add: queueResponse_def)
    moreover have "session_wf ?s'" using wf ready False
      by (simp add: session_wf_def bufferedInputBytes_def pendingInputBytes_def)
    moreover have "pendingOutput s = []"
      using ready no_pending_output [OF wf] by (simp add: session_open_def)
    ultimately show ?thesis using ready
      by (simp add: exec_ok_def session_open_def session_stream_def pendingOutput_def in_flight_def)
  qed
qed

lemma beginClose_exec_ok:
  assumes wf: "session_wf s"
  shows "exec_ok s [] (fst (beginClose reason s)) []"
proof (cases "session_open s \<and> reason \<noteq> ReasonNone")
  case True
  then show ?thesis
    using wf exec_close_ok [of "fst (beginClose reason s)" s 0] beginClose_wf [OF wf, of reason]
    by (auto simp: session_open_def)
next
  case False
  then have "fst (beginClose reason s) = s"
    by (cases "s_state s") (auto simp: beginClose_def session_open_def)
  then show ?thesis using wf exec_same_ok [of s s] by simp
qed

lemma onPeerReadClosed_exec_ok:
  assumes wf: "session_wf s"
  shows "exec_ok s [] (fst (onPeerReadClosed s)) []"
proof -
  consider "\<not> session_open s" | "s_state s \<in> {Processing, Writing}" | "s_state s = Reading"
    by (cases "s_state s") (auto simp: session_open_def)
  then show ?thesis
  proof cases
    case 1
    then have "fst (onPeerReadClosed s) = s"
      by (cases "s_state s") (auto simp: onPeerReadClosed_def session_open_def)
    then show ?thesis using wf exec_same_ok [of s s] by simp
  next
    case 2
    let ?s' = "s\<lparr>s_peer_read_closed := True, s_close_reason := PeerClosed\<rparr>"
    have "session_wf ?s'"
      using wf 2 by (auto simp: session_wf_def bufferedInputBytes_def pendingInputBytes_def)
    moreover have "fst (onPeerReadClosed s) = ?s'"
      using 2 by (auto simp: onPeerReadClosed_def)
    ultimately show ?thesis using exec_same_ok [of ?s' s] by simp
  next
    case 3
    define reason where "reason =
      (if bufferedInputBytes (s\<lparr>s_peer_read_closed := True\<rparr>) \<noteq> 0 then PeerTruncatedFrame else PeerClosed)"
    have r: "reason \<noteq> ReasonNone" "fst (onPeerReadClosed s) =
        s\<lparr>s_peer_read_closed := True, s_state := Closing, s_close_reason := reason\<rparr>"
      using 3 by (auto simp: onPeerReadClosed_def Let_def reason_def)
    then have "session_wf (fst (onPeerReadClosed s))"
      using wf 3 by (auto simp: session_wf_def bufferedInputBytes_def pendingInputBytes_def)
    then show ?thesis
      using r exec_close_ok [of "fst (onPeerReadClosed s)" s 0] by (simp add: session_open_def)
  qed
qed

lemma finalizeClose_exec_ok:
  assumes wf: "session_wf s"
  shows "\<exists>s' evs. session_exec OpFinalizeClose s = Some (s', evs) \<and> exec_ok s [] s' evs"
proof (cases "s_state s = Closed")
  case True
  then show ?thesis using wf exec_same_ok [of s s] by (simp add: finalizeClose_def)
next
  case False
  define s1 where "s1 = (if s_state s \<noteq> Closing then fst (beginClose LocalShutdown s) else s)"
  define s' where "s' = s1\<lparr>s_connection_closed := True, s_close_calls := s_close_calls s1 + 1,
    s_state := Closed\<rparr>"
  have wf1: "session_wf s1" using beginClose_wf wf by (simp add: s1_def)
  have st1: "s_state s1 = Closing" using False by (cases "s_state s") (auto simp: s1_def)
  have "fst (finalizeClose s) = s'"
    using False wf1 st1 by (simp add: finalizeClose_def s1_def [symmetric] s'_def session_wf_def)
  moreover have "session_wf s'" using wf1 st1
    by (auto simp: session_wf_def s'_def bufferedInputBytes_def pendingInputBytes_def)
  moreover have "s_token s1 = s_token s" "s_config s1 = s_config s" "s_close_calls s1 = s_close_calls s"
    by (auto simp: s1_def beginClose_def)
  ultimately show ?thesis
    using exec_close_ok [of s' s 1] by (auto simp: s'_def session_open_def split: prod.split)
qed

lemma closeAfterWrite_exec_ok:
  assumes wf: "session_wf s"
  shows "exec_ok s [] (fst (closeAfterWrite reason s)) []"
proof (cases "s_state s = Writing \<and> reason \<noteq> ReasonNone")
  case True
  then have "session_wf (s\<lparr>s_close_reason := reason, s_close_after_write := True\<rparr>)"
    using wf by (auto simp: session_wf_def bufferedInputBytes_def pendingInputBytes_def)
  then show ?thesis using True
      exec_same_ok [of "s\<lparr>s_close_reason := reason, s_close_after_write := True\<rparr>" s]
    by (simp add: closeAfterWrite_def)
next
  case False
  then have "fst (closeAfterWrite reason s) = s" by (auto simp: closeAfterWrite_def)
  then show ?thesis using wf exec_same_ok [of s s] by simp
qed

lemma timers_exec_ok:
  assumes wf: "session_wf s"
  shows "exec_ok s [] (s\<lparr>s_timers := ts\<rparr>) []"
proof -
  have "session_wf (s\<lparr>s_timers := ts\<rparr>)"
    using wf by (cases "s_state s")
      (auto simp: session_wf_def bufferedInputBytes_def pendingInputBytes_def codec_ready_def)
  then show ?thesis by (intro exec_same_ok) auto
qed

lemma session_exec_ok:
  assumes wf: "session_wf s"
  shows "\<exists>s' evs. session_exec op s = Some (s', evs) \<and> exec_ok s (op_input op) s' evs"
proof (cases op)
  case (OpReplaceTimer kind tid)
  obtain ts where "fst (replaceTimer kind tid s) = s\<lparr>s_timers := ts\<rparr>"
    by (cases kind) (auto simp: replaceTimer_def)
  then show ?thesis using OpReplaceTimer timers_exec_ok [OF wf] by simp
qed (use onInput_exec_ok [OF wf] onBytesWritten_exec_ok [OF wf] queueResponse_exec_ok [OF wf]
      finalizeClose_exec_ok [OF wf] closeAfterWrite_exec_ok [OF wf] onPeerReadClosed_exec_ok [OF wf]
      beginClose_exec_ok [OF wf] timers_exec_ok [OF wf]
     in \<open>simp_all add: releaseTimersForClose_def\<close>)

section \<open>Runs\<close>

text \<open>\<open>trace_ok s0 input evs s\<close>: after taking in \<open>input\<close> and showing the events \<open>evs\<close>, the session
  that started as \<open>s0\<close> is in \<open>s\<close>.\<close>

definition trace_ok :: "SessionConfig \<Rightarrow> bytes \<Rightarrow> session_event list \<Rightarrow> session \<Rightarrow> bool" where
  "trace_ok c input evs s \<longleftrightarrow>
     session_wf s \<and> s_config s = c \<and>
     (if session_open s
      then input = concat (map frame_of (delivered evs)) @ session_stream s \<and>
           concat (queued evs) = sent evs @ pendingOutput s \<and>
           length (delivered evs) = length (queued evs) + in_flight s
      else prefix (concat (map frame_of (delivered evs))) input \<and>
           prefix (sent evs) (concat (queued evs)) \<and>
           length (queued evs) \<le> length (delivered evs) \<and>
           length (delivered evs) \<le> Suc (length (queued evs))) \<and>
     list_all (\<lambda>f. f \<noteq> [] \<and> length f \<le> max_frame_payload_bytes c) (delivered evs) \<and>
     s_close_calls s = socket_closes evs"

lemma trace_ok_step:
  assumes tr: "trace_ok c input evs s" and ex: "exec_ok s bs s' evs'"
  shows "trace_ok c (input @ bs) (evs @ evs') s'"
proof (cases "session_open s'")
  case True
  then have "input @ bs = concat (map frame_of (delivered (evs @ evs'))) @ session_stream s'"
    "concat (queued (evs @ evs')) = sent (evs @ evs') @ pendingOutput s'"
    "length (delivered (evs @ evs')) = length (queued (evs @ evs')) + in_flight s'"
    using tr ex by (auto simp: trace_ok_def exec_ok_def)
  then show ?thesis using tr ex True
    by (auto simp: trace_ok_def exec_ok_def frame_ok_def [abs_def])
next
  case False
  then have q: "delivered evs' = []" "queued evs' = []" "prefix (sent evs') (pendingOutput s)"
    "session_open s \<or> sent evs' = []"
    using ex by (auto simp: exec_ok_def)
  have "prefix (sent (evs @ evs')) (concat (queued evs))"
    using tr q by (auto simp: trace_ok_def split: if_splits)
  moreover have "prefix (concat (map frame_of (delivered evs))) (input @ bs)"
    using tr by (auto simp: trace_ok_def intro: prefix_prefix split: if_splits)
  moreover have "length (queued evs) \<le> length (delivered evs)"
    "length (delivered evs) \<le> Suc (length (queued evs))"
    using tr by (auto simp: trace_ok_def in_flight_def split: if_splits)
  ultimately show ?thesis using tr ex False q by (auto simp: trace_ok_def exec_ok_def)
qed

lemma session_run_trace:
  assumes "trace_ok c input evs s"
  shows "\<exists>s' evs'. session_run ops s = Some (s', evs') \<and>
    trace_ok c (input @ received ops) (evs @ evs') s' \<and> s_token s' = s_token s"
  using assms
proof (induction ops arbitrary: s input evs)
  case Nil
  then show ?case by (simp add: received_def)
next
  case (Cons op ops)
  have wf: "session_wf s" using Cons.prems by (simp add: trace_ok_def)
  obtain s1 e1 where x: "session_exec op s = Some (s1, e1)" "exec_ok s (op_input op) s1 e1"
    using session_exec_ok [OF wf] by blast
  have "s_token s1 = s_token s" using x(2) by (simp add: exec_ok_def)
  then show ?case
    using Cons.IH [OF trace_ok_step [OF Cons.prems x(2)]] x(1) by (auto simp: received_def)
qed

lemma session_create_trace:
  assumes "session_create token config (Some fd) = Inr s0"
  shows "trace_ok config [] [] s0 \<and> s_token s0 = token"
  using assms
  by (auto simp: session_create_def trace_ok_def session_wf_def codec_ready_def bufferedInputBytes_def
      pendingInputBytes_def session_open_def session_stream_def pendingOutput_def in_flight_def
      codec_init_def codec_wf_def bufferedBytes_def codec_pending_def kFrameHeaderSize_def
      split: if_splits)

lemma session_life:
  assumes "session_create token config (Some fd) = Inr s0"
  obtains s evs where "session_run ops s0 = Some (s, evs)" "trace_ok config (received ops) evs s"
    "s_token s = token"
  using session_run_trace [of config "[]" "[]" s0 ops] session_create_trace [OF assms] by auto

section \<open>Properties\<close>

lemma parse_frames_append:
  assumes "list_all (\<lambda>f. f \<noteq> [] \<and> length f \<le> 1024 * 1024) fs"
  shows "parse_stream (concat (map frame_of fs) @ r) = (fs @ fst (parse_stream r), snd (parse_stream r))"
  using assms
proof (induction fs)
  case (Cons f fs)
  have len: "unat (of_nat (length f) :: u32) = length f"
    using Cons.prems by (simp add: unat_of_nat)
  have "validatePayloadLength (of_nat (length f)) = error_none"
    using Cons.prems len
    by (auto simp: validatePayloadLength_def kMinPayloadSize_def kMaxPayloadSize_def word_less_nat_alt
        Suc_le_eq)
  then show ?case
    using Cons parse_frame [of "of_nat (length f)" f "concat (map frame_of fs) @ r"] len
    by (simp add: frame_of_def [of f])
qed simp

definition example_token :: ConnectionToken where
  "example_token = \<lparr>token_loop_id = 0, token_fd = 5, token_generation = 1\<rparr>"

definition example_config :: SessionConfig where
  "example_config =
     \<lparr>max_frame_payload_bytes = 16, input_soft_watermark_bytes = 16, max_input_buffer_bytes = 32,
      output_soft_watermark_bytes = 16, max_output_buffer_bytes = 32\<rparr>"

definition example_ops :: "session_op list" where
  "example_ops = [OpInput [0, 0, 0], OpInput [1, 7, 0, 0, 0, 1], OpQueueResponse example_token [1, 2],
     OpBytesWritten 2, OpInput [8]]"

lemma example_session:
  "\<exists>s0. session_create example_token example_config (Some 5) = Inr s0"
  by (simp add: session_create_def example_token_def example_config_def token_valid_def
      session_validConfig_def kMaxPayloadSize_def)

lemma trace_requests:
  assumes "trace_ok c input evs s"
  shows "prefix (delivered evs) (fst (parse_stream input)) \<and>
    (s_state s = Reading \<longrightarrow> fst (parse_stream input) = delivered evs)"
proof -
  have "max_frame_payload_bytes c \<le> 1024 * 1024"
    using assms by (auto simp: trace_ok_def session_wf_def session_validConfig_def kMaxPayloadSize_def)
  then have fs: "list_all (\<lambda>f. f \<noteq> [] \<and> length f \<le> 1024 * 1024) (delivered evs)"
    using assms by (auto simp: trace_ok_def list_all_iff)
  obtain r where r: "input = concat (map frame_of (delivered evs)) @ r"
    and sr: "session_open s \<Longrightarrow> r = session_stream s"
    using assms by (auto simp: trace_ok_def prefix_def split: if_splits)
  have "s_state s = Reading \<Longrightarrow> fst (parse_stream r) = []"
    using sr assms pending_parse [of "s_codec s"]
    by (auto simp: trace_ok_def session_wf_def session_open_def session_stream_def codec_ready_def)
  then show ?thesis by (simp add: r parse_frames_append [OF fs])
qed

text \<open>
  C12.  Requests are the frames of the stream.  Whatever the calls and however the peer's bytes are
  cut, the session never gets stuck, the requests it has delivered are an initial part of the
  frames of the byte stream it received, in order and unchanged, and when it waits for input it
  has delivered all of them; none is longer than the configured limit.
\<close>

theorem session_delivers_stream:
  assumes "session_create token config (Some fd) = Inr s0"
  shows "\<exists>s evs. session_run ops s0 = Some (s, evs) \<and>
    prefix (delivered evs) (fst (parse_stream (received ops))) \<and>
    (s_state s = Reading \<longrightarrow> delivered evs = fst (parse_stream (received ops))) \<and>
    (\<forall>f \<in> set (delivered evs). length f \<le> max_frame_payload_bytes config)"
proof (rule session_life [OF assms])
  fix s evs
  assume "session_run ops s0 = Some (s, evs)" and tr: "trace_ok config (received ops) evs s"
  moreover have "\<forall>f \<in> set (delivered evs). length f \<le> max_frame_payload_bytes config"
    using tr by (simp add: trace_ok_def list_all_iff)
  ultimately show ?thesis using trace_requests [OF tr] by auto
qed

theorem session_delivers_stream_witness:
  "\<exists>s0 s evs. session_create example_token example_config (Some 5) = Inr s0 \<and>
     session_run example_ops s0 = Some (s, evs) \<and>
     prefix (delivered evs) [[7], [8]] \<and> (s_state s = Reading \<longrightarrow> delivered evs = [[7], [8]])"
proof -
  obtain s0 where s0: "session_create example_token example_config (Some 5) = Inr s0"
    using example_session by blast
  have "fst (parse_stream (received example_ops)) = [[7], [8]]"
    using parse_frames_append [of "[[7], [8]]" "[]"]
    by (simp add: received_def example_ops_def frame_of_def encodePayloadLength_def parse_short)
  then show ?thesis using s0 session_delivers_stream [OF s0, of example_ops] by auto
qed

text \<open>
  C14.  One request at a time, one response each, nothing lost on the way out.  Over any sequence of
  calls, requests and responses strictly alternate (a further request is delivered only after the
  previous one was answered), the bytes handed to the socket are an initial part of the accepted
  responses in order, and when the session reads again every response has been sent completely.
\<close>

theorem session_request_response:
  assumes "session_create token config (Some fd) = Inr s0"
  shows "\<exists>s evs. session_run ops s0 = Some (s, evs) \<and>
    length (queued evs) \<le> length (delivered evs) \<and> length (delivered evs) \<le> Suc (length (queued evs)) \<and>
    (session_open s \<longrightarrow>
       (length (delivered evs) = Suc (length (queued evs)) \<longleftrightarrow> s_state s = Processing)) \<and>
    prefix (sent evs) (concat (queued evs)) \<and>
    (s_state s = Reading \<longrightarrow> sent evs = concat (queued evs))"
proof (rule session_life [OF assms])
  fix s evs
  assume run: "session_run ops s0 = Some (s, evs)" and tr: "trace_ok config (received ops) evs s"
  have "s_state s = Reading \<Longrightarrow> pendingOutput s = []"
    using tr no_pending_output [of s] by (simp add: trace_ok_def session_open_def)
  then have "s_state s = Reading \<longrightarrow> sent evs = concat (queued evs)"
    using tr by (auto simp: trace_ok_def session_open_def)
  moreover have "prefix (sent evs) (concat (queued evs))"
    using tr by (auto simp: trace_ok_def split: if_splits)
  ultimately show ?thesis using run tr
    by (intro exI [of _ s] exI [of _ evs]) (auto simp: trace_ok_def in_flight_def split: if_splits)
qed

theorem session_request_response_witness:
  "\<exists>s0 s evs. session_create example_token example_config (Some 5) = Inr s0 \<and>
     session_run example_ops s0 = Some (s, evs) \<and>
     length (queued evs) \<le> length (delivered evs) \<and> prefix (sent evs) (concat (queued evs))"
proof -
  obtain s0 where s0: "session_create example_token example_config (Some 5) = Inr s0"
    using example_session by blast
  then show ?thesis using session_request_response [OF s0, of example_ops] by auto
qed

text \<open>
  C16.  Bounded buffers and progress.  In every state a session can reach, the buffered input and the
  unsent output stay within the configured limits; a session that waits for a request listens
  for input, and one with an unsent response listens for writability.
\<close>

theorem session_bounded:
  assumes "session_create token config (Some fd) = Inr s0"
  shows "\<exists>s evs. session_run ops s0 = Some (s, evs) \<and>
    bufferedInputBytes s \<le> max_input_buffer_bytes config \<and>
    length (pendingOutput s) \<le> max_output_buffer_bytes config \<and>
    (s_state s = Reading \<longrightarrow> hasInterest (session_interest s) InterestRead) \<and>
    (s_state s = Writing \<longrightarrow>
       hasInterest (session_interest s) InterestWrite \<and> pendingOutput s \<noteq> [])"
proof (rule session_life [OF assms])
  fix s evs
  assume run: "session_run ops s0 = Some (s, evs)" and tr: "trace_ok config (received ops) evs s"
  then have wf: "session_wf s" "s_config s = config" by (auto simp: trace_ok_def)
  have "s_state s = Reading \<longrightarrow> hasInterest (session_interest s) InterestRead"
    using wf by (auto simp: session_wf_def session_interest_def hasInterest_def InterestNone_def
        InterestRead_def InterestPeerReadClose_def)
  moreover have "s_state s = Writing \<longrightarrow> hasInterest (session_interest s) InterestWrite"
    by (auto simp: session_interest_def hasInterest_def InterestNone_def Let_def
        InterestRead_def InterestWrite_def InterestPeerReadClose_def)
  ultimately show ?thesis using run wf
    by (intro exI [of _ s] exI [of _ evs]) (auto simp: session_wf_def pendingOutput_def)
qed

theorem session_bounded_witness:
  "\<exists>s0 s evs. session_create example_token example_config (Some 5) = Inr s0 \<and>
     session_run example_ops s0 = Some (s, evs) \<and>
     bufferedInputBytes s \<le> 32 \<and> length (pendingOutput s) \<le> 32"
proof -
  obtain s0 where s0: "session_create example_token example_config (Some 5) = Inr s0"
    using example_session by blast
  then show ?thesis using session_bounded [OF s0, of example_ops] by (auto simp: example_config_def)
qed

text \<open>
  C17.  The connection is closed exactly once.  Whatever sequence of calls a session goes through,
  finalising it any number of times included, after its destruction the connection's close has
  been called exactly once, and it was called before only if the session is in state Closed.
\<close>

theorem session_closes_once:
  assumes "session_create token config (Some fd) = Inr s0"
  shows "\<exists>s evs. session_run ops s0 = Some (s, evs) \<and>
    s_close_calls (session_destroy s) = 1 \<and>
    socket_closes evs = (if s_state s = Closed then 1 else 0)"
proof (rule session_life [OF assms])
  fix s evs
  assume run: "session_run ops s0 = Some (s, evs)" and tr: "trace_ok config (received ops) evs s"
  then show ?thesis
    by (intro exI [of _ s] exI [of _ evs]) (auto simp: trace_ok_def session_wf_def session_destroy_def)
qed

theorem session_closes_once_witness:
  "\<exists>s0 s evs. session_create example_token example_config (Some 5) = Inr s0 \<and>
     session_run (example_ops @ [OpFinalizeClose, OpFinalizeClose]) s0 = Some (s, evs) \<and>
     s_close_calls (session_destroy s) = 1"
proof -
  obtain s0 where s0: "session_create example_token example_config (Some 5) = Inr s0"
    using example_session by blast
  then show ?thesis
    using session_closes_once [OF s0, of "example_ops @ [OpFinalizeClose, OpFinalizeClose]"] by auto
qed

text \<open>Responses for another token.\<close>

fun stale_response :: "ConnectionToken \<Rightarrow> session_op \<Rightarrow> bool" where
  "stale_response token (OpQueueResponse t _) = (t \<noteq> token)"
| "stale_response token _ = False"

lemma stale_exec:
  "stale_response (s_token s) op \<Longrightarrow> session_exec op s = Some (s, [])"
  by (cases op) (auto simp: queueResponse_def session_matches_def)

text \<open>
  Late responses are harmless.  A response addressed to another connection token (an earlier
  user of the descriptor) has no effect: a run with such calls reaches the same state with the
  same events as the run without them.
\<close>

theorem session_ignores_stale:
  assumes "session_create token config (Some fd) = Inr s0"
  shows "session_run (filter (\<lambda>op. \<not> stale_response token op) ops) s0 = session_run ops s0"
proof -
  have "session_wf s \<Longrightarrow> s_token s = token \<Longrightarrow>
      session_run (filter (\<lambda>op. \<not> stale_response token op) ops) s = session_run ops s" for s
  proof (induction ops arbitrary: s)
    case (Cons op ops)
    obtain s1 e where e: "session_exec op s = Some (s1, e)" "exec_ok s (op_input op) s1 e"
      using session_exec_ok [OF Cons.prems(1)] by blast
    then have x: "session_exec op s = Some (s1, e)" "session_wf s1" "s_token s1 = token"
      using Cons.prems(2) by (auto simp: exec_ok_def)
    show ?case using x Cons stale_exec [of s op] Cons.IH [of s1] by (auto simp: option.map_id)
  qed simp
  then show ?thesis using session_create_trace [OF assms] by (auto simp: trace_ok_def)
qed

theorem session_ignores_stale_witness:
  "\<exists>s0. session_create example_token example_config (Some 5) = Inr s0 \<and>
     session_run [OpInput [0, 0, 0, 1, 7]] s0 =
     session_run [OpInput [0, 0, 0, 1, 7], OpQueueResponse (example_token\<lparr>token_generation := 2\<rparr>) [9]] s0"
proof -
  obtain s0 where s0: "session_create example_token example_config (Some 5) = Inr s0"
    using example_session by blast
  then show ?thesis
    using session_ignores_stale [OF s0, of "[OpInput [0, 0, 0, 1, 7],
      OpQueueResponse (example_token\<lparr>token_generation := 2\<rparr>) [9]]"]
    by (simp add: example_token_def)
qed

end
