(* ===== verification/Ring_Buffer.thy ===== *)
theory Ring_Buffer
  imports Prelude
begin

text \<open>
  The fixed ring of slots that the worker pool and the three mailboxes share: a vector of optional
  elements with a head index, a tail index and a size, all indices taken modulo the capacity.  The
  interface \<open>bounded_fifo\<close> is what its clients rely on.
\<close>

section \<open>The ring\<close>

record 'a ring =
  ring_slots :: "'a option list"
  ring_head :: nat
  ring_tail :: nat
  ring_size :: nat

definition ring_create :: "nat \<Rightarrow> 'a ring" where
  "ring_create capacity =
     \<lparr>ring_slots = replicate capacity None, ring_head = 0, ring_tail = 0, ring_size = 0\<rparr>"

definition ring_push :: "'a \<Rightarrow> 'a ring \<Rightarrow> 'a ring" where
  "ring_push x r =
     r\<lparr>ring_slots := (ring_slots r)[ring_tail r := Some x],
       ring_tail := (ring_tail r + 1) mod length (ring_slots r),
       ring_size := ring_size r + 1\<rparr>"

text \<open>Undoing the last push, at the index it used.\<close>

definition ring_rollback :: "nat \<Rightarrow> 'a ring \<Rightarrow> 'a ring" where
  "ring_rollback index r =
     r\<lparr>ring_slots := (ring_slots r)[index := None], ring_tail := index, ring_size := ring_size r - 1\<rparr>"

definition ring_pop :: "'a ring \<Rightarrow> 'a ring \<times> 'a option" where
  "ring_pop r =
     (r\<lparr>ring_slots := (ring_slots r)[ring_head r := None],
        ring_head := (ring_head r + 1) mod length (ring_slots r),
        ring_size := ring_size r - 1\<rparr>,
      ring_slots r ! ring_head r)"

text \<open>The clearing loops: elements are taken from the head, then the tail is set to the head.\<close>

function ring_discard :: "'a ring \<Rightarrow> 'a ring \<times> 'a option list" where
  "ring_discard r =
     (if ring_size r \<noteq> 0
      then let (r', x) = ring_pop r; (r'', xs) = ring_discard r' in (r'', x # xs)
      else (r, []))"
  by pat_completeness auto
termination by (relation "measure ring_size") (auto simp: ring_pop_def)

declare ring_discard.simps [simp del]

definition ring_clear :: "'a ring \<Rightarrow> 'a ring" where
  "ring_clear r = (let (r', _) = ring_discard r in r'\<lparr>ring_tail := ring_head r'\<rparr>)"

section \<open>The queue a ring stands for\<close>

definition ring_cap :: "'a ring \<Rightarrow> nat" where
  "ring_cap r = length (ring_slots r)"

definition ring_at :: "'a ring \<Rightarrow> nat \<Rightarrow> 'a option" where
  "ring_at r i = ring_slots r ! ((ring_head r + i) mod ring_cap r)"

definition ring_list :: "'a ring \<Rightarrow> 'a list" where
  "ring_list r = map (\<lambda>i. the (ring_at r i)) [0..<ring_size r]"

definition ring_wf :: "'a ring \<Rightarrow> bool" where
  "ring_wf r \<longleftrightarrow>
     ring_head r < ring_cap r \<and> ring_size r \<le> ring_cap r \<and>
     ring_tail r = (ring_head r + ring_size r) mod ring_cap r \<and>
     (\<forall>i < ring_cap r. ring_at r i \<noteq> None \<longleftrightarrow> i < ring_size r)"

lemma length_ring_list [simp]: "length (ring_list r) = ring_size r"
  by (simp add: ring_list_def)

lemma ring_at_update:
  assumes "h < n" "i < n" "j < n"
  shows "(h + i) mod n = (h + j) mod n \<longleftrightarrow> i = (j :: nat)"
proof
  assume "(h + i) mod n = (h + j) mod n"
  moreover have "h + j - (h + i) < n" "h + i - (h + j) < n" using assms by linarith+
  ultimately have "h + i = h + j"
    using mod_window_unique [of "h + i" "h + j" n] mod_window_unique [of "h + j" "h + i" n]
    by (metis nat_le_linear)
  then show "i = j" by simp
qed simp

lemma ring_push_at:
  assumes "ring_wf r" "ring_size r < ring_cap r" "i < ring_cap r"
  shows "ring_at (ring_push x r) i = (if i = ring_size r then Some x else ring_at r i)"
proof -
  have "0 < ring_cap r" using assms(2) by simp
  then have n: "ring_tail r < length (ring_slots r)"
    using assms(1) mod_less_divisor by (metis ring_cap_def ring_wf_def)
  have "(ring_head r + i) mod ring_cap r = ring_tail r \<longleftrightarrow> i = ring_size r"
    using assms ring_at_update [of "ring_head r" "ring_cap r" i "ring_size r"] by (simp add: ring_wf_def)
  moreover have "ring_at (ring_push x r) i = (ring_slots r)[ring_tail r := Some x] ! ((ring_head r + i) mod ring_cap r)"
    by (simp add: ring_at_def ring_push_def ring_cap_def)
  ultimately show ?thesis using n by (auto simp: ring_at_def)
qed

lemma ring_push_wf:
  assumes "ring_wf r" "ring_size r < ring_cap r"
  shows "ring_wf (ring_push x r)" "ring_list (ring_push x r) = ring_list r @ [x]"
    "ring_cap (ring_push x r) = ring_cap r"
proof -
  show c: "ring_cap (ring_push x r) = ring_cap r" by (simp add: ring_cap_def ring_push_def)
  have p: "ring_head (ring_push x r) = ring_head r" "ring_size (ring_push x r) = Suc (ring_size r)"
      "ring_tail (ring_push x r) = (ring_head r + Suc (ring_size r)) mod ring_cap r"
    using assms(1) by (simp_all add: ring_push_def ring_wf_def ring_cap_def mod_Suc_eq)
  show "ring_wf (ring_push x r)"
    using assms ring_push_at [OF assms, of _ x] by (auto simp: ring_wf_def c p less_Suc_eq)
  show "ring_list (ring_push x r) = ring_list r @ [x]"
    using assms ring_push_at [OF assms, of _ x] by (simp add: ring_list_def p)
qed

lemma ring_pop_at:
  assumes "ring_wf r" "0 < ring_size r" "i < ring_cap r"
  shows "ring_at (fst (ring_pop r)) i = (if Suc i = ring_cap r then None else ring_at r (Suc i))"
proof -
  let ?n = "ring_cap r" and ?h = "ring_head r"
  have n: "?h < ?n" using assms(1) by (simp add: ring_wf_def)
  have idx: "((?h + 1) mod ?n + i) mod ?n = (?h + Suc i) mod ?n"
    by (simp add: mod_add_left_eq)
  have "(?h + Suc i) mod ?n = ?h \<longleftrightarrow> Suc i = ?n"
  proof (cases "Suc i = ?n")
    case True
    then show ?thesis using n by simp
  next
    case False
    then show ?thesis using ring_at_update [of ?h ?n "Suc i" 0] n assms(3) by auto
  qed
  then show ?thesis
    using n idx unfolding ring_at_def ring_cap_def by (auto simp: ring_pop_def nth_list_update)
qed

lemma ring_pop_wf:
  assumes "ring_wf r" "0 < ring_size r"
  shows "ring_wf (fst (ring_pop r))" "ring_list r = the (snd (ring_pop r)) # ring_list (fst (ring_pop r))"
    "snd (ring_pop r) \<noteq> None" "ring_cap (fst (ring_pop r)) = ring_cap r"
proof -
  show c: "ring_cap (fst (ring_pop r)) = ring_cap r" by (simp add: ring_cap_def ring_pop_def)
  have n: "ring_head r < ring_cap r" using assms by (simp add: ring_wf_def)
  have front: "snd (ring_pop r) = ring_at r 0"
    using n by (simp add: ring_pop_def ring_at_def)
  then show "snd (ring_pop r) \<noteq> None" using assms n unfolding ring_wf_def by force
  have p: "ring_head (fst (ring_pop r)) = (ring_head r + 1) mod ring_cap r"
      "ring_size (fst (ring_pop r)) = ring_size r - 1" "ring_tail (fst (ring_pop r)) = ring_tail r"
    by (simp_all add: ring_pop_def ring_cap_def)
  have at: "ring_at (fst (ring_pop r)) i = (if Suc i = ring_cap r then None else ring_at r (Suc i))"
    if "i < ring_cap r" for i
    by (rule ring_pop_at [OF assms that])
  have "(ring_at (fst (ring_pop r)) i \<noteq> None) = (i < ring_size r - 1)" if "i < ring_cap r" for i
    using assms that unfolding at [OF that] ring_wf_def by (cases "Suc i = ring_cap r") auto
  moreover have "(ring_head r + ring_size r) mod ring_cap r =
      ((ring_head r + 1) mod ring_cap r + (ring_size r - 1)) mod ring_cap r"
  proof -
    obtain k where k: "ring_size r = Suc k" using assms(2) by (cases "ring_size r") auto
    show ?thesis using mod_add_left_eq [of "ring_head r + 1" "ring_cap r" k] by (simp add: k)
  qed
  ultimately show "ring_wf (fst (ring_pop r))"
    using assms n unfolding ring_wf_def c p by auto
  have "ring_list r = map (\<lambda>i. the (ring_at r i)) (0 # map Suc [0..<ring_size r - 1])"
    using assms(2) by (simp add: ring_list_def map_Suc_upt upt_conv_Cons)
  moreover have "ring_at r (Suc i) = ring_at (fst (ring_pop r)) i" if "i < ring_size r - 1" for i
    using at [of i] that assms by (auto simp: ring_wf_def)
  ultimately show "ring_list r = the (snd (ring_pop r)) # ring_list (fst (ring_pop r))"
    by (simp add: ring_list_def p front)
qed

lemma ring_discard_wf:
  "ring_wf r \<Longrightarrow> ring_wf (fst (ring_discard r)) \<and> ring_size (fst (ring_discard r)) = 0 \<and>
     snd (ring_discard r) = map Some (ring_list r) \<and> ring_cap (fst (ring_discard r)) = ring_cap r"
proof (induction r rule: ring_discard.induct)
  case (1 r)
  show ?case
  proof (cases "ring_size r = 0")
    case True
    then show ?thesis using "1.prems" by (simp add: ring_discard.simps [of r] ring_list_def)
  next
    case False
    then have pop: "ring_wf (fst (ring_pop r))" "snd (ring_pop r) \<noteq> None"
        "ring_list r = the (snd (ring_pop r)) # ring_list (fst (ring_pop r))"
        "ring_cap (fst (ring_pop r)) = ring_cap r"
      using ring_pop_wf [OF "1.prems"] by simp_all
    have "ring_discard r = (fst (ring_discard (fst (ring_pop r))),
        snd (ring_pop r) # snd (ring_discard (fst (ring_pop r))))"
      using False by (simp add: ring_discard.simps [of r] case_prod_beta Let_def)
    then show ?thesis using "1.IH" [OF False refl prod.collapse pop(1)] pop by simp
  qed
qed

lemma ring_wf_empty: "ring_wf r \<Longrightarrow> ring_size r = 0 \<Longrightarrow> ring_tail r = ring_head r"
  by (simp add: ring_wf_def)

lemma ring_clear_wf:
  assumes "ring_wf r"
  shows "ring_wf (ring_clear r)" "ring_list (ring_clear r) = []" "ring_cap (ring_clear r) = ring_cap r"
    "ring_size (ring_clear r) = 0"
proof -
  obtain r' xs where d: "ring_discard r = (r', xs)" by (metis surj_pair)
  have r': "ring_wf r'" "ring_size r' = 0" "ring_cap r' = ring_cap r" using ring_discard_wf [OF assms] by (simp_all add: d)
  then have "ring_clear r = r'" using ring_wf_empty [of r'] by (simp add: ring_clear_def d)
  then show "ring_wf (ring_clear r)" "ring_list (ring_clear r) = []" "ring_cap (ring_clear r) = ring_cap r"
      "ring_size (ring_clear r) = 0"
    using r' by (simp_all add: ring_list_def)
qed

text \<open>Undoing a push gives back the ring.\<close>

lemma ring_rollback_push:
  assumes "ring_wf r" "ring_size r < ring_cap r"
  shows "ring_rollback (ring_tail r) (ring_push x r) = r"
proof -
  have "ring_at r (ring_size r) = None" using assms unfolding ring_wf_def by auto
  then have "ring_slots r ! ring_tail r = None" using assms by (simp add: ring_at_def ring_wf_def)
  then have "(ring_slots r)[ring_tail r := None] = ring_slots r"
    by (metis list_update_id)
  then show ?thesis by (simp add: ring_rollback_def ring_push_def)
qed

lemma ring_create_wf: "0 < n \<Longrightarrow> ring_wf (ring_create n)"
  "ring_list (ring_create n) = []" "ring_cap (ring_create n) = n"
  by (auto simp: ring_create_def ring_wf_def ring_list_def ring_cap_def ring_at_def)

section \<open>Interface\<close>

text \<open>What the clients of the ring rely on: a bounded queue with a contents view, in which a push
  below the capacity appends and a pop of a non-empty queue removes the first element.\<close>

locale bounded_fifo =
  fixes invar :: "'q \<Rightarrow> bool" and contents :: "'q \<Rightarrow> 'a list" and capacity :: "'q \<Rightarrow> nat"
    and push :: "'a \<Rightarrow> 'q \<Rightarrow> 'q" and pop :: "'q \<Rightarrow> 'q \<times> 'a option" and clear :: "'q \<Rightarrow> 'q"
  assumes bounded: "invar q \<Longrightarrow> length (contents q) \<le> capacity q"
    and push_ok: "invar q \<Longrightarrow> length (contents q) < capacity q \<Longrightarrow>
      invar (push x q) \<and> contents (push x q) = contents q @ [x] \<and> capacity (push x q) = capacity q"
    and pop_ok: "invar q \<Longrightarrow> contents q \<noteq> [] \<Longrightarrow>
      invar (fst (pop q)) \<and> snd (pop q) = Some (hd (contents q)) \<and>
      contents (fst (pop q)) = tl (contents q) \<and> capacity (fst (pop q)) = capacity q"
    and clear_ok: "invar q \<Longrightarrow> invar (clear q) \<and> contents (clear q) = [] \<and> capacity (clear q) = capacity q"
begin

text \<open>A pop and the contents it leaves make up the contents before; at most one element is held
  per unit of capacity.\<close>

lemma pop_Cons: "invar q \<Longrightarrow> contents q \<noteq> [] \<Longrightarrow>
    \<exists>x q'. pop q = (q', Some x) \<and> contents q = x # contents q' \<and> invar q' \<and> capacity q' = capacity q"
  using pop_ok [of q] by (metis list.collapse prod.collapse)

lemma push_length: "invar q \<Longrightarrow> length (contents q) \<noteq> capacity q \<Longrightarrow>
    contents (push x q) = contents q @ [x] \<and> invar (push x q) \<and> capacity (push x q) = capacity q"
  using push_ok [of q x] bounded [of q] by simp

end

interpretation ring_fifo: bounded_fifo ring_wf ring_list ring_cap ring_push ring_pop ring_clear
proof unfold_locales
  fix q :: "'a ring"
  assume wf: "ring_wf q"
  show "length (ring_list q) \<le> ring_cap q" using wf by (simp add: ring_wf_def)
  show "ring_wf (ring_clear q) \<and> ring_list (ring_clear q) = [] \<and> ring_cap (ring_clear q) = ring_cap q"
    using ring_clear_wf [OF wf] by simp
  fix x
  show "ring_wf (ring_push x q) \<and> ring_list (ring_push x q) = ring_list q @ [x] \<and>
      ring_cap (ring_push x q) = ring_cap q" if "length (ring_list q) < ring_cap q"
    using ring_push_wf [OF wf] that by simp
next
  fix q :: "'a ring"
  assume wf: "ring_wf q" and ne: "ring_list q \<noteq> []"
  then have "0 < ring_size q" by (metis length_greater_0_conv length_ring_list)
  from ring_pop_wf [OF wf this] show "ring_wf (fst (ring_pop q)) \<and> snd (ring_pop q) = Some (hd (ring_list q)) \<and>
      ring_list (fst (ring_pop q)) = tl (ring_list q) \<and> ring_cap (fst (ring_pop q)) = ring_cap q"
    by (metis list.sel(1,3) option.collapse)
qed

end
