(* ===== verification/Worker_Pool.thy ===== *)
theory Worker_Pool
  imports Ring_Buffer
begin

text \<open>
  The bounded worker pool (\<open>src/runtime/bounded_worker_pool.cpp\<close>) and its cancellation
  source.  Every operation is split at its critical sections: one definition is what happens under
  one acquisition of the pool's mutex, and a step relation interleaves them.  A worker thread has a
  program counter; the body of a task is not modelled, only that it starts and ends.  Waiting on a
  condition variable is a step that is enabled when its predicate holds.  The identifier of a
  worker thread is its index; other threads have other numbers.
\<close>

section \<open>State\<close>

datatype WorkerSubmitStatus = SubmitAccepted | SubmitRejected | SubmitClosed

datatype WorkerPoolStatus = PoolOk | PoolInvalidState | PoolDeadlineExceeded | PoolSelfJoin

record BoundedWorkerPoolConfig =
  thread_count :: nat
  queue_capacity :: nat

datatype PoolState = PoolRunning | PoolClosing | PoolStopped

text \<open>\<open>None\<close> is a token without a source.\<close>

type_synonym CancellationToken = "bool option"

definition stopRequested :: "CancellationToken \<Rightarrow> bool" where
  "stopRequested t \<longleftrightarrow> t = Some True"

definition requestStop :: "bool option \<Rightarrow> bool option \<times> bool" where
  "requestStop s = (case s of None \<Rightarrow> (None, False) | Some b \<Rightarrow> (Some True, \<not> b))"

datatype 'a worker = WorkerStarting | WorkerIdle | WorkerBusy 'a | WorkerExited

record 'a worker_pool =
  pool_config :: BoundedWorkerPoolConfig
  pool_queue :: "'a ring"
  workers :: "'a worker list"
  worker_ids :: "nat option list"
  stop_source :: "bool option"
  inflight :: nat
  accepting :: bool
  join_in_progress :: bool
  join_status :: WorkerPoolStatus
  pool_state :: PoolState

section \<open>Operations\<close>

definition pool_validConfig :: "BoundedWorkerPoolConfig \<Rightarrow> bool" where
  "pool_validConfig c \<longleftrightarrow> thread_count c > 0 \<and> queue_capacity c > 0"

text \<open>
  The constructor takes how many threads the system would start.  When they are fewer than
  configured, it closes the pool, joins the workers that run, which leave a closed pool without tasks
  at once, and throws: \<open>None\<close>.
\<close>

definition pool_create :: "nat \<Rightarrow> BoundedWorkerPoolConfig \<Rightarrow> 'a worker_pool option" where
  "pool_create startable c =
     (if \<not> pool_validConfig c then None
      else if startable < thread_count c then None
      else Some \<lparr>pool_config = c, pool_queue = ring_create (queue_capacity c),
                 workers = replicate (thread_count c) WorkerStarting,
                 worker_ids = replicate (thread_count c) None, stop_source = Some False,
                 inflight = 0, accepting = True, join_in_progress = False, join_status = PoolOk,
                 pool_state = PoolRunning\<rparr>)"

definition pool_trySubmit :: "'a option \<Rightarrow> 'a worker_pool \<Rightarrow> 'a worker_pool \<times> WorkerSubmitStatus" where
  "pool_trySubmit task p =
     (if \<not> accepting p then (p, SubmitClosed)
      else case task of
          None \<Rightarrow> (p, SubmitRejected)
        | Some t \<Rightarrow>
            if ring_size (pool_queue p) \<ge> queue_capacity (pool_config p) then (p, SubmitRejected)
            else (p\<lparr>pool_queue := ring_push t (pool_queue p), inflight := add64 (inflight p) 1\<rparr>,
                  SubmitAccepted))"

definition inflightCount :: "'a worker_pool \<Rightarrow> nat" where
  "inflightCount p = inflight p"

definition pool_close :: "'a worker_pool \<Rightarrow> 'a worker_pool" where
  "pool_close p = (if \<not> accepting p then p else p\<lparr>accepting := False, pool_state := PoolClosing\<rparr>)"

text \<open>\<open>drainUntil\<close>: closing and the first test (\<open>None\<close>: it goes on to wait); the end of the wait,
  by its predicate (\<open>Some\<close>) or, at the deadline, by cancelling what is queued; and the stop request,
  which is made outside the lock.\<close>

definition drain_enter :: "'a worker_pool \<Rightarrow> 'a worker_pool \<times> WorkerPoolStatus option" where
  "drain_enter p =
     (let p = pool_close p
      in (p, if pool_state p = PoolStopped \<or> inflight p = 0 then Some PoolOk else None))"

definition drain_deadline ::
  "'a worker_pool \<Rightarrow> 'a worker_pool \<times> 'a option list \<times> WorkerPoolStatus" where
  "drain_deadline p =
     (if inflight p = 0 then (p, [], PoolOk)
      else let (r, cancelled) = ring_discard (pool_queue p)
           in (p\<lparr>pool_queue := r\<lparr>ring_tail := ring_head r\<rparr>,
                 inflight := sub64 (inflight p) (length cancelled)\<rparr>,
               cancelled, PoolDeadlineExceeded))"

definition drain_requestStop :: "'a worker_pool \<Rightarrow> 'a worker_pool" where
  "drain_requestStop p = p\<lparr>stop_source := fst (requestStop (stop_source p))\<rparr>"

definition isWorkerThreadLocked :: "nat \<Rightarrow> 'a worker_pool \<Rightarrow> bool" where
  "isWorkerThreadLocked thread_id p \<longleftrightarrow> Some thread_id \<in> set (worker_ids p)"

text \<open>\<open>join\<close>: the first section returns, waits for another join or takes the threads to join them;
  the last one runs after every thread has been joined.\<close>

datatype join_outcome = JoinReturns WorkerPoolStatus | JoinWaits | JoinThreads

definition join_enter :: "nat \<Rightarrow> 'a worker_pool \<Rightarrow> 'a worker_pool \<times> join_outcome" where
  "join_enter caller p =
     (if isWorkerThreadLocked caller p then (p, JoinReturns PoolSelfJoin)
      else if pool_state p = PoolRunning then (p, JoinReturns PoolInvalidState)
      else if join_in_progress p then (p, JoinWaits)
      else if pool_state p = PoolStopped then (p, JoinReturns (join_status p))
      else (p\<lparr>join_in_progress := True\<rparr>, JoinThreads))"

definition join_finish :: "'a worker_pool \<Rightarrow> 'a worker_pool \<times> WorkerPoolStatus" where
  "join_finish p =
     (p\<lparr>pool_state := PoolStopped, join_status := PoolOk, join_in_progress := False\<rparr>, PoolOk)"

text \<open>\<open>workerLoop\<close>: registering the thread, one round of taking a task or leaving, and the return of
  the task.\<close>

definition worker_register :: "nat \<Rightarrow> 'a worker_pool \<Rightarrow> 'a worker_pool" where
  "worker_register i p =
     p\<lparr>worker_ids := (worker_ids p)[i := Some i], workers := (workers p)[i := WorkerIdle]\<rparr>"

definition worker_awake :: "'a worker_pool \<Rightarrow> bool" where
  "worker_awake p \<longleftrightarrow> \<not> accepting p \<or> ring_size (pool_queue p) > 0"

text \<open>A null pointer in a taken slot would be undefined behaviour; the invariant excludes it.\<close>

definition worker_take :: "nat \<Rightarrow> 'a worker_pool \<Rightarrow> 'a worker_pool" where
  "worker_take i p =
     (if ring_size (pool_queue p) = 0
      then if \<not> accepting p
           then p\<lparr>worker_ids := (worker_ids p)[i := None], workers := (workers p)[i := WorkerExited]\<rparr>
           else p
      else case ring_pop (pool_queue p) of
          (r, Some t) \<Rightarrow> p\<lparr>pool_queue := r, workers := (workers p)[i := WorkerBusy t]\<rparr>
        | (r, None) \<Rightarrow> p)"

definition worker_finish :: "nat \<Rightarrow> 'a worker_pool \<Rightarrow> 'a worker_pool" where
  "worker_finish i p = p\<lparr>inflight := sub64 (inflight p) 1, workers := (workers p)[i := WorkerIdle]\<rparr>"

section \<open>Interleaving\<close>

datatype 'a pool_event = Accepts 'a | Starts 'a | Cancels "'a list" | Quiet

text \<open>The steps of worker threads, and all steps.\<close>

inductive worker_step :: "'a worker_pool \<Rightarrow> 'a pool_event \<Rightarrow> 'a worker_pool \<Rightarrow> bool" where
  register: "i < length (workers p) \<Longrightarrow> workers p ! i = WorkerStarting \<Longrightarrow>
     worker_step p Quiet (worker_register i p)"
| leave: "i < length (workers p) \<Longrightarrow> workers p ! i = WorkerIdle \<Longrightarrow> worker_awake p \<Longrightarrow>
     ring_size (pool_queue p) = 0 \<Longrightarrow> worker_step p Quiet (worker_take i p)"
| take_task: "i < length (workers p) \<Longrightarrow> workers p ! i = WorkerIdle \<Longrightarrow> worker_awake p \<Longrightarrow>
     ring_size (pool_queue p) \<noteq> 0 \<Longrightarrow> workers (worker_take i p) ! i = WorkerBusy t \<Longrightarrow>
     worker_step p (Starts t) (worker_take i p)"
| finish: "i < length (workers p) \<Longrightarrow> workers p ! i = WorkerBusy t \<Longrightarrow>
     worker_step p Quiet (worker_finish i p)"

inductive pool_step :: "'a worker_pool \<Rightarrow> 'a pool_event \<Rightarrow> 'a worker_pool \<Rightarrow> bool" where
  work: "worker_step p e p' \<Longrightarrow> pool_step p e p'"
| submit: "pool_trySubmit task p = (p', status) \<Longrightarrow>
     pool_step p (if status = SubmitAccepted then Accepts (the task) else Quiet) p'"
| close: "pool_step p Quiet (pool_close p)"
| drain: "drain_enter p = (p', status) \<Longrightarrow> pool_step p Quiet p'"
| deadline: "\<not> accepting p \<Longrightarrow> drain_deadline p = (p', cancelled, status) \<Longrightarrow>
     pool_step p (Cancels (map the cancelled)) p'"
| request_stop: "\<not> accepting p \<Longrightarrow> pool_step p Quiet (drain_requestStop p)"
| join: "join_enter caller p = (p', outcome) \<Longrightarrow> pool_step p Quiet p'"
| joined: "join_in_progress p \<Longrightarrow> list_all (\<lambda>w. w = WorkerExited) (workers p) \<Longrightarrow>
     join_finish p = (p', status) \<Longrightarrow> pool_step p Quiet p'"

inductive pool_run :: "'a worker_pool \<Rightarrow> 'a pool_event list \<Rightarrow> 'a worker_pool \<Rightarrow> bool" where
  start: "pool_run p [] p"
| step: "pool_run p es q \<Longrightarrow> pool_step q e r \<Longrightarrow> pool_run p (es @ [e]) r"

fun accepted :: "'a pool_event list \<Rightarrow> 'a list" where
  "accepted [] = []"
| "accepted (Accepts t # es) = t # accepted es"
| "accepted (_ # es) = accepted es"

fun started :: "'a pool_event list \<Rightarrow> 'a list" where
  "started [] = []"
| "started (Starts t # es) = t # started es"
| "started (_ # es) = started es"

fun cancelled :: "'a pool_event list \<Rightarrow> 'a list" where
  "cancelled [] = []"
| "cancelled (Cancels ts # es) = ts @ cancelled es"
| "cancelled (_ # es) = cancelled es"

lemma pool_events_append [simp]:
  "accepted (es @ fs) = accepted es @ accepted fs"
  "started (es @ fs) = started es @ started fs"
  "cancelled (es @ fs) = cancelled es @ cancelled fs"
proof -
  show "accepted (es @ fs) = accepted es @ accepted fs" by (induction es rule: accepted.induct) simp_all
  show "started (es @ fs) = started es @ started fs" by (induction es rule: started.induct) simp_all
  show "cancelled (es @ fs) = cancelled es @ cancelled fs" by (induction es rule: cancelled.induct) simp_all
qed

section \<open>Invariant\<close>

fun busy :: "'a worker \<Rightarrow> bool" where
  "busy (WorkerBusy _) = True"
| "busy _ = False"

definition running :: "'a worker_pool \<Rightarrow> nat" where
  "running p = length (filter busy (workers p))"

definition pool_wf :: "'a worker_pool \<Rightarrow> bool" where
  "pool_wf p \<longleftrightarrow>
     pool_validConfig (pool_config p) \<and>
     thread_count (pool_config p) + queue_capacity (pool_config p) < 2 ^ 64 \<and>
     ring_wf (pool_queue p) \<and> ring_cap (pool_queue p) = queue_capacity (pool_config p) \<and>
     length (workers p) = thread_count (pool_config p) \<and>
     length (worker_ids p) = thread_count (pool_config p) \<and>
     inflight p = ring_size (pool_queue p) + running p \<and>
     (accepting p \<longleftrightarrow> pool_state p = PoolRunning) \<and>
     (join_in_progress p \<longrightarrow> pool_state p = PoolClosing)"

text \<open>A worker leaves only a closed and empty pool, and is registered while it lives; a stopped pool
  has no worker left.\<close>

definition workers_wf :: "'a worker_pool \<Rightarrow> bool" where
  "workers_wf p \<longleftrightarrow>
     (WorkerExited \<in> set (workers p) \<longrightarrow> \<not> accepting p \<and> ring_size (pool_queue p) = 0) \<and>
     (\<forall>i < length (workers p). worker_ids p ! i =
        (if workers p ! i = WorkerStarting \<or> workers p ! i = WorkerExited then None else Some i)) \<and>
     (pool_state p = PoolStopped \<longrightarrow> list_all (\<lambda>w. w = WorkerExited) (workers p))"

lemma running_update:
  "i < length ws \<Longrightarrow>
   length (filter busy (ws[i := w])) + (if busy (ws ! i) then 1 else 0) =
   length (filter busy ws) + (if busy w then 1 else 0)"
proof (induction ws arbitrary: i)
  case (Cons x ws)
  then show ?case by (cases i) auto
qed simp

lemma running_le: "pool_wf p \<Longrightarrow> running p \<le> thread_count (pool_config p)"
  by (metis length_filter_le pool_wf_def running_def)

lemma size_le: "pool_wf p \<Longrightarrow> ring_size (pool_queue p) \<le> queue_capacity (pool_config p)"
  by (metis ring_wf_def pool_wf_def)

lemma create_wf:
  assumes "pool_create startable c = Some p" "thread_count c + queue_capacity c < 2 ^ 64"
  shows "pool_wf p" "workers_wf p" "ring_list (pool_queue p) = []" "accepting p"
proof -
  have c: "pool_validConfig c" "p = \<lparr>pool_config = c, pool_queue = ring_create (queue_capacity c),
      workers = replicate (thread_count c) WorkerStarting, worker_ids = replicate (thread_count c) None,
      stop_source = Some False, inflight = 0, accepting = True, join_in_progress = False,
      join_status = PoolOk, pool_state = PoolRunning\<rparr>"
    using assms(1) by (simp_all add: pool_create_def split: if_splits)
  have r: "ring_size (ring_create n) = 0" for n by (simp add: ring_create_def)
  show "pool_wf p"
    using assms(2) c ring_create_wf(1) [of "queue_capacity c"]
    by (simp add: pool_wf_def running_def r ring_create_wf pool_validConfig_def)
  show "workers_wf p" "ring_list (pool_queue p) = []" "accepting p"
    by (simp_all add: c(2) workers_wf_def ring_create_wf)
qed

lemma submit_wf:
  assumes "pool_wf p" "workers_wf p" "pool_trySubmit task p = (p', status)"
  shows "pool_wf p'" "workers_wf p'"
    "ring_list (pool_queue p') = ring_list (pool_queue p) @ (if status = SubmitAccepted then [the task] else [])"
    "status = SubmitAccepted \<Longrightarrow> accepting p"
proof -
  consider "p' = p" "status \<noteq> SubmitAccepted"
    | t where "task = Some t" "accepting p" "ring_size (pool_queue p) < queue_capacity (pool_config p)"
      "p' = p\<lparr>pool_queue := ring_push t (pool_queue p), inflight := add64 (inflight p) 1\<rparr>"
      "status = SubmitAccepted"
    using assms(3) by (auto simp: pool_trySubmit_def split: if_splits option.splits)
  then have "pool_wf p' \<and> workers_wf p' \<and> ring_list (pool_queue p') =
      ring_list (pool_queue p) @ (if status = SubmitAccepted then [the task] else []) \<and>
      (status = SubmitAccepted \<longrightarrow> accepting p)"
  proof cases
    case 1
    then show ?thesis using assms by simp
  next
    case 2
    then have push: "ring_wf (ring_push t (pool_queue p))" "ring_cap (ring_push t (pool_queue p)) = ring_cap (pool_queue p)"
        "ring_list (ring_push t (pool_queue p)) = ring_list (pool_queue p) @ [t]"
        "ring_size (ring_push t (pool_queue p)) = Suc (ring_size (pool_queue p))"
      using assms(1) ring_push_wf [of "pool_queue p" t] by (simp_all add: pool_wf_def ring_push_def)
    have "add64 (inflight p) 1 = Suc (inflight p)"
      using 2(3) assms(1) running_le [OF assms(1)] by (subst add64_small) (auto simp: pool_wf_def)
    then show ?thesis
      using assms(1,2) 2 push by (auto simp: pool_wf_def workers_wf_def running_def)
  qed
  then show "pool_wf p'" "workers_wf p'"
    "ring_list (pool_queue p') = ring_list (pool_queue p) @ (if status = SubmitAccepted then [the task] else [])"
    "status = SubmitAccepted \<Longrightarrow> accepting p" by blast+
qed

lemma close_wf:
  assumes "pool_wf p" "workers_wf p"
  shows "pool_wf (pool_close p)" "workers_wf (pool_close p)" "pool_queue (pool_close p) = pool_queue p"
    "\<not> accepting (pool_close p)"
  using assms by (auto simp: pool_close_def pool_wf_def workers_wf_def running_def)

lemma deadline_wf:
  assumes "pool_wf p" "workers_wf p" "drain_deadline p = (p', xs, status)"
  shows "pool_wf p'" "workers_wf p'" "ring_list (pool_queue p) = map the xs @ ring_list (pool_queue p')"
    "ring_list (pool_queue p') = []" "accepting p' = accepting p"
proof -
  obtain r ys where d: "ring_discard (pool_queue p) = (r, ys)" by (metis surj_pair)
  have wf: "ring_wf (pool_queue p)" using assms(1) by (simp add: pool_wf_def)
  have r: "ring_wf r" "ring_size r = 0" "ys = map Some (ring_list (pool_queue p))" "ring_cap r = ring_cap (pool_queue p)"
    using ring_discard_wf [OF wf] by (simp_all add: d)
  have same: "r\<lparr>ring_tail := ring_head r\<rparr> = r" using ring_wf_empty [OF r(1,2)] by simp
  have empty: "ring_list r = []" using r(2) by (simp add: ring_list_def)
  have len: "length ys = ring_size (pool_queue p)" by (simp add: r(3))
  have "pool_wf p' \<and> workers_wf p' \<and> ring_list (pool_queue p) = map the xs @ ring_list (pool_queue p') \<and>
      ring_list (pool_queue p') = [] \<and> accepting p' = accepting p"
  proof (cases "inflight p = 0")
    case True
    then have "p' = p" "xs = []" "ring_size (pool_queue p) = 0"
      using assms(1,3) by (simp_all add: drain_deadline_def pool_wf_def)
    then show ?thesis using assms(1,2) by (simp add: ring_list_def)
  next
    case False
    then have p': "p' = p\<lparr>pool_queue := r, inflight := sub64 (inflight p) (length ys)\<rparr>" "xs = ys"
      using assms(3) same by (auto simp: drain_deadline_def d)
    have "pool_wf p'" using assms(1) r(1,2,4) len by (simp add: p' pool_wf_def running_def)
    moreover have "workers_wf p'" using assms(2) r(2) by (simp add: p' workers_wf_def)
    ultimately show ?thesis using r(3) empty by (simp add: p' comp_def)
  qed
  then show "pool_wf p'" "workers_wf p'" "ring_list (pool_queue p) = map the xs @ ring_list (pool_queue p')"
    "ring_list (pool_queue p') = []" "accepting p' = accepting p" by blast+
qed

lemma join_wf:
  assumes "pool_wf p" "workers_wf p" "join_enter caller p = (p', outcome)"
  shows "pool_wf p'" "workers_wf p'" "pool_queue p' = pool_queue p" "accepting p' = accepting p"
proof -
  have "p' = p \<or> p' = p\<lparr>join_in_progress := True\<rparr> \<and> pool_state p = PoolClosing"
    using assms(3) by (cases "pool_state p") (auto simp: join_enter_def split: if_splits)
  then have "pool_wf p' \<and> workers_wf p' \<and> pool_queue p' = pool_queue p \<and> accepting p' = accepting p"
    using assms(1,2) by (elim disjE conjE) (simp_all add: pool_wf_def workers_wf_def running_def)
  then show "pool_wf p'" "workers_wf p'" "pool_queue p' = pool_queue p" "accepting p' = accepting p"
    by simp_all
qed

lemma joined_wf:
  assumes "pool_wf p" "workers_wf p" "join_in_progress p" "list_all (\<lambda>w. w = WorkerExited) (workers p)"
    "join_finish p = (p', status)"
  shows "pool_wf p'" "workers_wf p'" "pool_queue p' = pool_queue p" "accepting p' = accepting p"
proof -
  have p': "p' = p\<lparr>pool_state := PoolStopped, join_status := PoolOk, join_in_progress := False\<rparr>"
    using assms(5) by (simp add: join_finish_def)
  show "pool_wf p'" "workers_wf p'" "pool_queue p' = pool_queue p" "accepting p' = accepting p"
    using assms(1-4) by (simp_all add: p' pool_wf_def workers_wf_def running_def)
qed

text \<open>The steps of a worker.\<close>

lemma register_wf:
  assumes "pool_wf p" "workers_wf p" "i < length (workers p)" "workers p ! i = WorkerStarting"
  shows "pool_wf (worker_register i p)" "workers_wf (worker_register i p)"
proof -
  show "pool_wf (worker_register i p)"
    using assms running_update [OF assms(3), of WorkerIdle]
    by (simp add: worker_register_def pool_wf_def running_def)
  have "WorkerExited \<in> set ((workers p)[i := WorkerIdle]) \<Longrightarrow> WorkerExited \<in> set (workers p)"
    using set_update_subset_insert by fastforce
  moreover have "pool_state p \<noteq> PoolStopped"
    using assms unfolding workers_wf_def list_all_iff by (metis nth_mem worker.distinct(5))
  ultimately show "workers_wf (worker_register i p)"
    using assms by (simp add: worker_register_def workers_wf_def pool_wf_def nth_list_update)
qed

lemma finish_wf:
  assumes "pool_wf p" "workers_wf p" "i < length (workers p)" "workers p ! i = WorkerBusy t"
  shows "pool_wf (worker_finish i p)" "workers_wf (worker_finish i p)"
proof -
  show "pool_wf (worker_finish i p)"
    using assms running_update [OF assms(3), of WorkerIdle]
    by (simp add: worker_finish_def pool_wf_def running_def)
  have "WorkerExited \<in> set ((workers p)[i := WorkerIdle]) \<Longrightarrow> WorkerExited \<in> set (workers p)"
    using set_update_subset_insert by fastforce
  moreover have "pool_state p \<noteq> PoolStopped"
    using assms unfolding workers_wf_def list_all_iff by (metis nth_mem worker.distinct(11))
  ultimately show "workers_wf (worker_finish i p)"
    using assms by (simp add: worker_finish_def workers_wf_def pool_wf_def nth_list_update)
qed

lemma leave_wf:
  assumes "pool_wf p" "workers_wf p" "i < length (workers p)" "workers p ! i = WorkerIdle"
    "ring_size (pool_queue p) = 0" "\<not> accepting p"
  shows "pool_wf (worker_take i p)" "workers_wf (worker_take i p)"
    "worker_take i p = p\<lparr>worker_ids := (worker_ids p)[i := None], workers := (workers p)[i := WorkerExited]\<rparr>"
proof -
  show t: "worker_take i p = p\<lparr>worker_ids := (worker_ids p)[i := None], workers := (workers p)[i := WorkerExited]\<rparr>"
    using assms by (simp add: worker_take_def)
  show "pool_wf (worker_take i p)"
    using assms running_update [OF assms(3), of WorkerExited] by (simp add: t pool_wf_def running_def)
  have "pool_state p \<noteq> PoolStopped"
    using assms unfolding workers_wf_def list_all_iff by (metis nth_mem worker.distinct(9))
  then show "workers_wf (worker_take i p)"
    using assms by (simp add: t workers_wf_def pool_wf_def nth_list_update)
qed

lemma take_wf:
  assumes "pool_wf p" "workers_wf p" "i < length (workers p)" "workers p ! i = WorkerIdle"
    "ring_size (pool_queue p) \<noteq> 0"
  obtains t where "pool_wf (worker_take i p)" "workers_wf (worker_take i p)"
    "ring_list (pool_queue p) = t # ring_list (pool_queue (worker_take i p))"
    "workers (worker_take i p) = (workers p)[i := WorkerBusy t]" "accepting (worker_take i p) = accepting p"
    "ring_size (pool_queue p) = Suc (ring_size (pool_queue (worker_take i p)))"
proof -
  have "ring_list (pool_queue p) \<noteq> []" "ring_wf (pool_queue p)"
    using assms(1,5) by (auto simp: pool_wf_def simp flip: length_0_conv)
  then obtain t r where pop: "ring_pop (pool_queue p) = (r, Some t)" "ring_list (pool_queue p) = t # ring_list r"
      "ring_wf r" "ring_cap r = ring_cap (pool_queue p)"
    using ring_fifo.pop_Cons [of "pool_queue p"] by blast
  have size: "ring_size (pool_queue p) = Suc (ring_size r)"
    using arg_cong [OF pop(2), of length] by simp
  have t: "worker_take i p = p\<lparr>pool_queue := r, workers := (workers p)[i := WorkerBusy t]\<rparr>"
    using assms(5) pop(1) by (simp add: worker_take_def)
  have wf: "pool_wf (worker_take i p)"
    using assms pop size running_update [OF assms(3), of "WorkerBusy t"] by (simp add: t pool_wf_def running_def)
  have none: "WorkerExited \<notin> set (workers p)" using assms(2,5) by (auto simp: workers_wf_def)
  then have "WorkerExited \<notin> set ((workers p)[i := WorkerBusy t])"
    using set_update_subset_insert by fastforce
  moreover have "pool_state p \<noteq> PoolStopped"
    using assms(2-4) unfolding workers_wf_def list_all_iff by (metis nth_mem worker.distinct(9))
  ultimately have "workers_wf (worker_take i p)"
    using assms by (simp add: t workers_wf_def pool_wf_def nth_list_update)
  then show ?thesis using that wf pop(2) size by (simp add: t)
qed

section \<open>Runs\<close>

text \<open>What is accepted is started, cancelled or still queued, in the order of submission.\<close>

definition pool_log :: "'a pool_event list \<Rightarrow> 'a worker_pool \<Rightarrow> bool" where
  "pool_log es p \<longleftrightarrow>
     accepted es = started es @ cancelled es @ ring_list (pool_queue p) \<and>
     (cancelled es \<noteq> [] \<longrightarrow> \<not> accepting p \<and> ring_list (pool_queue p) = [])"

definition pool_ok :: "'a pool_event list \<Rightarrow> 'a worker_pool \<Rightarrow> bool" where
  "pool_ok es p \<longleftrightarrow> pool_wf p \<and> workers_wf p \<and> pool_log es p"

lemma pool_log_quiet:
  "pool_log es p \<Longrightarrow> ring_list (pool_queue q) = ring_list (pool_queue p) \<Longrightarrow>
   (\<not> accepting p \<longrightarrow> \<not> accepting q) \<Longrightarrow> pool_log (es @ [Quiet]) q"
  by (auto simp: pool_log_def)

lemma worker_step_ok:
  assumes "worker_step p e q" "pool_ok es p"
  shows "pool_ok (es @ [e]) q"
  using assms
proof (cases rule: worker_step.cases)
  case (register i)
  then show ?thesis
    using assms(2) register_wf [of p i] pool_log_quiet [of es p "worker_register i p"]
    by (simp add: pool_ok_def worker_register_def)
next
  case (leave i)
  then have na: "\<not> accepting p" by (simp add: worker_awake_def)
  show ?thesis
    using assms(2) leave na leave_wf [of p i] pool_log_quiet [of es p "worker_take i p"]
    by (simp add: pool_ok_def)
next
  case (take_task i t)
  obtain u where u: "pool_wf (worker_take i p)" "workers_wf (worker_take i p)"
    "ring_list (pool_queue p) = u # ring_list (pool_queue (worker_take i p))"
    "workers (worker_take i p) = (workers p)[i := WorkerBusy u]" "accepting (worker_take i p) = accepting p"
    using take_wf [of p i] take_task assms(2) unfolding pool_ok_def by blast
  have "u = t" using u(4) take_task by simp
  then show ?thesis using assms(2) u take_task by (auto simp: pool_ok_def pool_log_def)
next
  case (finish i t)
  then show ?thesis
    using assms(2) finish_wf [of p i] pool_log_quiet [of es p "worker_finish i p"]
    by (simp add: pool_ok_def worker_finish_def)
qed

lemma pool_step_ok:
  assumes "pool_step p e q" "pool_ok es p"
  shows "pool_ok (es @ [e]) q"
proof -
  have p: "pool_wf p" "workers_wf p" "pool_log es p" using assms(2) by (simp_all add: pool_ok_def)
  from assms(1) show ?thesis
  proof (cases rule: pool_step.cases)
    case work
    then show ?thesis by (rule worker_step_ok [OF _ assms(2)])
  next
    case (submit task status)
    note s = submit_wf [OF p(1,2) submit(2)]
    have "accepting q = accepting p"
      using submit(2) by (auto simp: pool_trySubmit_def split: if_splits option.splits)
    then show ?thesis using p(3) s submit(1) by (auto simp: pool_ok_def pool_log_def)
  next
    case close
    then show ?thesis using p close_wf [OF p(1,2)] pool_log_quiet [OF p(3)] by (simp add: pool_ok_def)
  next
    case (drain status)
    then have "q = pool_close p" by (simp add: drain_enter_def Let_def)
    then show ?thesis using drain(1) close_wf [OF p(1,2)] pool_log_quiet [OF p(3)] by (simp add: pool_ok_def)
  next
    case (deadline xs status)
    then show ?thesis
      using p(3) deadline_wf [OF p(1,2) deadline(3)] by (auto simp: pool_ok_def pool_log_def)
  next
    case request_stop
    have "pool_wf (drain_requestStop p)" "workers_wf (drain_requestStop p)"
      using p(1,2) by (simp_all add: drain_requestStop_def pool_wf_def workers_wf_def running_def)
    then show ?thesis
      using request_stop pool_log_quiet [OF p(3), of q] by (simp add: pool_ok_def drain_requestStop_def)
  next
    case (join caller outcome)
    then show ?thesis using join_wf [OF p(1,2) join(2)] pool_log_quiet [OF p(3), of q] by (simp add: pool_ok_def)
  next
    case (joined status)
    then show ?thesis using joined_wf [OF p(1,2) joined(2-4)] pool_log_quiet [OF p(3), of q] by (simp add: pool_ok_def)
  qed
qed

lemma pool_run_ok:
  assumes "pool_run p0 es p" "pool_create startable c = Some p0" "thread_count c + queue_capacity c < 2 ^ 64"
  shows "pool_ok es p"
  using assms
proof (induction rule: pool_run.induct)
  case (start p)
  then show ?case using create_wf [of startable c p] by (simp add: pool_ok_def pool_log_def)
next
  case (step p es q e r)
  then show ?case using pool_step_ok by blast
qed

section \<open>Draining\<close>

text \<open>The work that is left in a closed pool, in steps of its workers.\<close>

fun worker_left :: "'a worker \<Rightarrow> nat" where
  "worker_left WorkerStarting = 2"
| "worker_left WorkerIdle = 1"
| "worker_left (WorkerBusy _) = 2"
| "worker_left WorkerExited = 0"

definition work_left :: "'a worker_pool \<Rightarrow> nat" where
  "work_left p = 2 * ring_size (pool_queue p) + sum_list (map worker_left (workers p))"

lemma worker_left_update:
  "i < length ws \<Longrightarrow>
   sum_list (map worker_left (ws[i := w])) + worker_left (ws ! i) =
   sum_list (map worker_left ws) + worker_left w"
proof (induction ws arbitrary: i)
  case (Cons x ws)
  then show ?case by (cases i) auto
qed simp

inductive worker_run :: "'a worker_pool \<Rightarrow> nat \<Rightarrow> 'a worker_pool \<Rightarrow> bool" where
  stay: "worker_run p 0 p"
| move: "worker_step p e q \<Longrightarrow> worker_run q n r \<Longrightarrow> worker_run p (Suc n) r"

lemma worker_step_less:
  assumes "worker_step p e q" "pool_wf p" "workers_wf p" "\<not> accepting p"
  shows "work_left q < work_left p \<and> \<not> accepting q"
  using assms(1)
proof (cases rule: worker_step.cases)
  case (register i)
  then show ?thesis
    using worker_left_update [OF register(3), of WorkerIdle] assms(4)
    by (simp add: worker_register_def work_left_def)
next
  case (leave i)
  then show ?thesis
    using worker_left_update [OF leave(3), of WorkerExited] assms leave_wf(3) [of p i]
    by (simp add: work_left_def)
next
  case (take_task i t)
  obtain u where "workers (worker_take i p) = (workers p)[i := WorkerBusy u]" "accepting (worker_take i p) = accepting p"
    "ring_size (pool_queue p) = Suc (ring_size (pool_queue (worker_take i p)))"
    using take_wf [of p i] take_task assms by metis
  then show ?thesis
    using worker_left_update [OF take_task(3), of "WorkerBusy u"] take_task assms(4)
    by (simp add: work_left_def)
next
  case (finish i t)
  then show ?thesis
    using worker_left_update [OF finish(3), of WorkerIdle] assms(4)
    by (simp add: worker_finish_def work_left_def)
qed

lemmas worker_step_decreases = worker_step_less [THEN conjunct1] worker_step_less [THEN conjunct2]

lemma worker_progress:
  assumes "pool_wf p" "workers_wf p" "\<not> accepting p" "\<not> list_all (\<lambda>w. w = WorkerExited) (workers p)"
  shows "\<exists>e q. worker_step p e q"
proof -
  obtain i where i: "i < length (workers p)" "workers p ! i \<noteq> WorkerExited"
    using assms(4) by (auto simp: list_all_length)
  have awake: "worker_awake p" using assms(3) by (simp add: worker_awake_def)
  show ?thesis
  proof (cases "workers p ! i")
    case WorkerStarting
    then show ?thesis using worker_step.register [OF i(1)] by blast
  next
    case WorkerIdle
    show ?thesis
    proof (cases "ring_size (pool_queue p) = 0")
      case True
      then show ?thesis using worker_step.leave [OF i(1) WorkerIdle awake] by blast
    next
      case False
      obtain u where "workers (worker_take i p) = (workers p)[i := WorkerBusy u]"
        by (rule take_wf [OF assms(1,2) i(1) WorkerIdle False])
      then have "workers (worker_take i p) ! i = WorkerBusy u" using i(1) by simp
      then show ?thesis using worker_step.take_task [OF i(1) WorkerIdle awake False] by blast
    qed
  next
    case (WorkerBusy t)
    then show ?thesis using worker_step.finish [OF i(1)] by blast
  next
    case WorkerExited
    then show ?thesis using i(2) by simp
  qed
qed

lemma all_exited_idle:
  assumes "pool_wf p" "workers_wf p" "list_all (\<lambda>w. w = WorkerExited) (workers p)"
  shows "inflight p = 0"
proof -
  have "workers p \<noteq> []" using assms(1) by (auto simp: pool_wf_def pool_validConfig_def)
  then have "WorkerExited \<in> set (workers p)" using assms(3) by (cases "workers p") auto
  then have "ring_size (pool_queue p) = 0" using assms(2) by (simp add: workers_wf_def)
  moreover have "filter busy (workers p) = []" using assms(3) by (auto simp: filter_empty_conv list_all_iff)
  ultimately show ?thesis using assms(1) by (simp add: pool_wf_def running_def)
qed

lemma closed_drains:
  assumes "pool_ok es p" "\<not> accepting p"
  shows "\<exists>n q. n \<le> work_left p \<and> worker_run p n q \<and> list_all (\<lambda>w. w = WorkerExited) (workers q) \<and> inflight q = 0"
  using assms
proof (induction "work_left p" arbitrary: p es rule: less_induct)
  case less
  then have p: "pool_wf p" "workers_wf p" by (simp_all add: pool_ok_def)
  show ?case
  proof (cases "list_all (\<lambda>w. w = WorkerExited) (workers p)")
    case True
    then show ?thesis using worker_run.stay all_exited_idle [OF p True] by blast
  next
    case False
    then obtain e q where step: "worker_step p e q" using worker_progress [OF p less.prems(2)] by blast
    from less.hyps [OF worker_step_decreases(1) [OF step p less.prems(2)] worker_step_ok [OF step less.prems(1)]
        worker_step_decreases(2) [OF step p less.prems(2)]]
    obtain n r where r: "n \<le> work_left q" "worker_run q n r" "list_all (\<lambda>w. w = WorkerExited) (workers r)"
      "inflight r = 0" by blast
    then show ?thesis
      using worker_run.move [OF step r(2)] worker_step_decreases(1) [OF step p less.prems(2)]
      by (metis Suc_leI le_less_trans)
  qed
qed

lemma worker_run_bound:
  assumes "worker_run p n q" "pool_ok es p" "\<not> accepting p"
  shows "n + work_left q \<le> work_left p \<and> (\<exists>fs. pool_ok fs q) \<and> \<not> accepting q"
  using assms
proof (induction arbitrary: es rule: worker_run.induct)
  case (move p e q n r)
  then have "work_left q < work_left p" "\<not> accepting q" "pool_ok (es @ [e]) q"
    using worker_step_less [OF move.hyps(1)] worker_step_ok [OF move.hyps(1)] by (auto simp: pool_ok_def)
  then show ?case using move.IH by fastforce
qed auto

lemma pool_step_config:
  "pool_step p e q \<Longrightarrow> pool_config q = pool_config p \<and> (join_status p = PoolOk \<longrightarrow> join_status q = PoolOk)"
  by (auto elim!: pool_step.cases worker_step.cases simp: pool_trySubmit_def pool_close_def drain_enter_def
      drain_deadline_def drain_requestStop_def join_enter_def join_finish_def worker_register_def
      worker_take_def worker_finish_def Let_def split: if_splits option.splits prod.splits)

lemma pool_run_config:
  "pool_run p es q \<Longrightarrow> pool_config q = pool_config p \<and> (join_status p = PoolOk \<longrightarrow> join_status q = PoolOk)"
  by (induction rule: pool_run.induct) (auto dest: pool_step_config)

lemma work_left_le:
  assumes "pool_wf p"
  shows "work_left p \<le> 2 * queue_capacity (pool_config p) + 2 * thread_count (pool_config p)"
proof -
  have "worker_left w \<le> 2" for w :: "'a worker" by (cases w) simp_all
  then have "sum_list (map worker_left ws) \<le> length ws * 2" for ws :: "'a worker list"
    using sum_list_mono [of ws worker_left "\<lambda>_. 2"] by (simp add: sum_list_const_mult map_replicate_const sum_list_replicate)
  from this [of "workers p"] show ?thesis
    using assms size_le [OF assms] by (simp add: work_left_def pool_wf_def)
qed

definition example_pool :: BoundedWorkerPoolConfig where
  "example_pool = \<lparr>thread_count = 1, queue_capacity = 2\<rparr>"

lemma example_pool_run:
  "\<exists>p0 p. pool_create 2 example_pool = Some p0 \<and> pool_run p0 [Accepts (7 :: nat), Quiet] p \<and> \<not> accepting p"
proof -
  obtain p0 :: "nat worker_pool" where p0: "pool_create 2 example_pool = Some p0"
    by (simp add: pool_create_def example_pool_def pool_validConfig_def)
  have sub: "snd (pool_trySubmit (Some 7) p0) = SubmitAccepted"
    using p0 by (auto simp: pool_create_def example_pool_def pool_validConfig_def pool_trySubmit_def ring_create_def)
  have "pool_step p0 (Accepts 7) (fst (pool_trySubmit (Some 7) p0))"
    using pool_step.submit [of "Some 7" p0 "fst (pool_trySubmit (Some 7) p0)" SubmitAccepted] sub
    by (metis option.sel prod.collapse)
  from pool_run.step [OF pool_run.step [OF pool_run.start this, simplified]
      pool_step.close [of "fst (pool_trySubmit (Some 7) p0)"], simplified]
  have "pool_run p0 [Accepts 7, Quiet] (pool_close (fst (pool_trySubmit (Some 7) p0)))" .
  moreover have "\<not> accepting (pool_close p)" for p :: "nat worker_pool" by (simp add: pool_close_def)
  ultimately show ?thesis using p0 by blast
qed

section \<open>Properties\<close>

text \<open>
  C30.  No task is lost, duplicated or reordered.  In every state that any interleaving of
  submitters, workers, draining and joining threads can reach, the accepted tasks, in order, are
  the tasks workers have started, then those cancelled at a drain deadline, then those still
  queued; the queue is within its capacity; and the in-flight count is exactly the number of
  queued and running tasks.
\<close>

theorem pool_accounts_for_tasks:
  assumes "pool_create startable c = Some p0" "thread_count c + queue_capacity c < 2 ^ 64" "pool_run p0 es p"
  shows "accepted es = started es @ cancelled es @ ring_list (pool_queue p) \<and>
    ring_size (pool_queue p) \<le> queue_capacity c \<and>
    inflightCount p = length (ring_list (pool_queue p)) + length (filter busy (workers p))"
proof -
  have ok: "pool_wf p" "pool_log es p" using pool_run_ok [OF assms(3,1,2)] by (simp_all add: pool_ok_def)
  have "pool_config p = c"
    using pool_run_config [OF assms(3)] assms(1) by (auto simp: pool_create_def split: if_splits)
  then show ?thesis
    using ok size_le [OF ok(1)] by (simp add: pool_log_def pool_wf_def inflightCount_def running_def)
qed

theorem pool_accounts_for_tasks_witness:
  "\<exists>p0 p. pool_create 2 example_pool = Some p0 \<and> pool_run p0 [Accepts (7 :: nat), Quiet] p \<and>
     ring_list (pool_queue p) = [7]"
proof -
  obtain p0 p where r: "pool_create 2 example_pool = Some p0" "pool_run p0 [Accepts (7 :: nat), Quiet] p"
    using example_pool_run by blast
  have "thread_count example_pool + queue_capacity example_pool < 2 ^ 64" by (simp add: example_pool_def)
  from pool_accounts_for_tasks [OF r(1) this r(2)] show ?thesis using r by auto
qed

text \<open>
  C31.  A closed pool drains.  From every reachable state that no longer accepts tasks, the worker
  threads alone reach, in at most twice the capacity plus twice the thread count steps, a state in
  which all of them have left, nothing is in flight and a drain returns at once; every run of
  worker steps stays within that bound, and one that can not be continued has ended there.
\<close>

theorem pool_drains:
  assumes "pool_create startable c = Some p0" "thread_count c + queue_capacity c < 2 ^ 64" "pool_run p0 es p"
    and "\<not> accepting p"
  shows "(\<exists>n q. worker_run p n q \<and> list_all (\<lambda>w. w = WorkerExited) (workers q) \<and> inflightCount q = 0 \<and>
      snd (drain_enter q) = Some PoolOk) \<and>
    (\<forall>n q. worker_run p n q \<longrightarrow> n \<le> 2 * queue_capacity c + 2 * thread_count c \<and>
      ((\<nexists>e r. worker_step q e r) \<longrightarrow> list_all (\<lambda>w. w = WorkerExited) (workers q) \<and> inflightCount q = 0))"
proof -
  have ok: "pool_ok es p" by (rule pool_run_ok [OF assms(3,1,2)])
  have conf: "pool_config p = c"
    using pool_run_config [OF assms(3)] assms(1) by (auto simp: pool_create_def split: if_splits)
  have "n \<le> 2 * queue_capacity c + 2 * thread_count c \<and>
      ((\<nexists>e r. worker_step q e r) \<longrightarrow> list_all (\<lambda>w. w = WorkerExited) (workers q) \<and> inflightCount q = 0)"
    if run: "worker_run p n q" for n q
  proof -
    obtain fs where q: "n + work_left q \<le> work_left p" "pool_ok fs q" "\<not> accepting q"
      using worker_run_bound [OF run ok assms(4)] by blast
    have "work_left p \<le> 2 * queue_capacity c + 2 * thread_count c"
      using work_left_le [of p] ok conf by (simp add: pool_ok_def)
    then show ?thesis
      using q worker_progress [of q] all_exited_idle [of q] by (auto simp: pool_ok_def inflightCount_def)
  qed
  moreover obtain n q where "worker_run p n q" "list_all (\<lambda>w. w = WorkerExited) (workers q)" "inflight q = 0"
    using closed_drains [OF ok assms(4)] by blast
  moreover have "snd (drain_enter q) = Some PoolOk" if "inflight q = 0" for q :: "'a worker_pool"
    using that by (simp add: drain_enter_def pool_close_def Let_def)
  ultimately show ?thesis unfolding inflightCount_def by blast
qed

theorem pool_drains_witness:
  "\<exists>p0 p n q. pool_create 2 example_pool = Some p0 \<and> pool_run p0 [Accepts (7 :: nat), Quiet] p \<and>
     worker_run p n q \<and> inflightCount q = 0"
proof -
  obtain p0 p where r: "pool_create 2 example_pool = Some p0" "pool_run p0 [Accepts (7 :: nat), Quiet] p"
    "\<not> accepting p"
    using example_pool_run by blast
  have "thread_count example_pool + queue_capacity example_pool < 2 ^ 64" by (simp add: example_pool_def)
  from pool_drains [OF r(1) this r(2,3)] show ?thesis using r by blast
qed

text \<open>
  Joining is safe.  In every reachable state a join from a live worker of the pool is refused
  as a self-join, any other join of an open pool is refused as an invalid state, and a join that
  returns success does so only when every worker has left and nothing is in flight.
\<close>

theorem pool_join_safe:
  assumes "pool_create startable c = Some p0" "thread_count c + queue_capacity c < 2 ^ 64" "pool_run p0 es p"
  shows "(snd (join_enter caller p) = JoinReturns PoolSelfJoin \<longleftrightarrow>
      caller < thread_count c \<and> workers p ! caller \<notin> {WorkerStarting, WorkerExited}) \<and>
    (accepting p \<and> snd (join_enter caller p) \<noteq> JoinReturns PoolSelfJoin \<longrightarrow>
      join_enter caller p = (p, JoinReturns PoolInvalidState)) \<and>
    (snd (join_enter caller p) = JoinReturns PoolOk \<longrightarrow>
      list_all (\<lambda>w. w = WorkerExited) (workers p) \<and> inflightCount p = 0)"
proof -
  have ok: "pool_wf p" "workers_wf p" using pool_run_ok [OF assms(3,1,2)] by (simp_all add: pool_ok_def)
  have conf: "pool_config p = c"
    using pool_run_config [OF assms(3)] assms(1) by (auto simp: pool_create_def split: if_splits)
  have len: "length (workers p) = thread_count c" "length (worker_ids p) = thread_count c"
    using ok(1) conf by (simp_all add: pool_wf_def)
  have "Some caller \<in> set (worker_ids p) \<longleftrightarrow> caller < thread_count c \<and> worker_ids p ! caller = Some caller"
    using ok(2) len unfolding workers_wf_def in_set_conv_nth by (metis option.distinct(1) option.inject)
  then have self: "isWorkerThreadLocked caller p \<longleftrightarrow>
      caller < thread_count c \<and> workers p ! caller \<notin> {WorkerStarting, WorkerExited}"
    using ok(2) len by (auto simp: isWorkerThreadLocked_def workers_wf_def)
  have stop: "pool_state p = PoolStopped \<Longrightarrow> list_all (\<lambda>w. w = WorkerExited) (workers p) \<and> inflightCount p = 0"
    using ok all_exited_idle [OF ok] by (simp add: workers_wf_def inflightCount_def)
  have "join_status p = PoolOk"
    using pool_run_config [OF assms(3)] assms(1) by (auto simp: pool_create_def split: if_splits)
  then show ?thesis
    using self stop ok(1) by (auto simp: join_enter_def pool_wf_def split: if_splits)
qed

theorem pool_join_safe_witness:
  "\<exists>p0 p. pool_create 2 example_pool = Some p0 \<and> pool_run p0 [Accepts (7 :: nat), Quiet] p \<and>
     snd (join_enter 5 p) \<noteq> JoinReturns PoolSelfJoin"
proof -
  obtain p0 p where r: "pool_create 2 example_pool = Some p0" "pool_run p0 [Accepts (7 :: nat), Quiet] p"
    using example_pool_run by blast
  have "thread_count example_pool + queue_capacity example_pool < 2 ^ 64" by (simp add: example_pool_def)
  from pool_join_safe [OF r(1) this r(2), of 5] show ?thesis using r by (auto simp: example_pool_def)
qed

end
