(* ===== verification/Domain_Types.thy ===== *)
theory Domain_Types
  imports Prelude
begin

text \<open>
  The values of the login domain (\<open>include/aegisflow/domain/login.hpp\<close>) and the IP
  address value object (\<open>src/domain/ip_address.cpp\<close>).  The address parser and
  printer of the C library are parameters; what the code relies on is \<open>inet_laws\<close>.
\<close>

section \<open>Login values\<close>

datatype LoginResult = LoginSuccess | LoginFail

datatype LoginDecisionAction = ActionPass | ActionReview | ActionReject

record PolicyHit =
  reason_code :: string
  hit_action :: LoginDecisionAction
  hit_risk_score :: int

record LoginDecision =
  decision_attempt_id :: u64
  decision_user_id :: string
  decision_action :: LoginDecisionAction
  decision_risk_score :: int
  policy_hits :: "PolicyHit list"
  cost_us :: nat

record LoginAttempt =
  attempt_id :: u64
  timestamp_ms :: nat
  attempt_user_id :: string
  attempt_ip :: string
  attempt_device_id :: string
  attempt_result :: LoginResult

section \<open>IP addresses\<close>

datatype address_family = AF_INET | AF_INET6

text \<open>\<open>inet_pton\<close> gives the address bytes where it returns 1; \<open>inet_ntop\<close> gives the text, \<open>None\<close>
  where it returns a null pointer.\<close>

type_synonym pton = "address_family \<Rightarrow> string \<Rightarrow> bytes option"
type_synonym ntop = "address_family \<Rightarrow> bytes \<Rightarrow> string option"

record IpAddress =
  ip_bytes :: bytes
  ip_byte_count :: nat
  canonicalText :: string

definition containsNull :: "string \<Rightarrow> bool" where
  "containsNull s \<longleftrightarrow> CHR 0x00 \<in> set s"

definition isIpv4MappedIpv6 :: "bytes \<Rightarrow> bool" where
  "isIpv4MappedIpv6 bs \<longleftrightarrow> list_all (\<lambda>b. b = 0) (take 10 bs) \<and> bs ! 10 = 0xff \<and> bs ! 11 = 0xff"

definition ip_fromBytes :: "ntop \<Rightarrow> bytes \<Rightarrow> IpAddress option" where
  "ip_fromBytes inet_ntop bs =
     (if length bs \<noteq> 4 \<and> length bs \<noteq> 16 then None
      else let normalized = bs @ replicate (16 - length bs) 0;
               mapped = (length bs = 16 \<and> isIpv4MappedIpv6 normalized);
               normalized = (if mapped then drop 12 normalized @ replicate 12 0 else normalized);
               byte_count = (if mapped then 4 else length bs);
               family = (if byte_count = 4 then AF_INET else AF_INET6)
           in case inet_ntop family (take byte_count normalized) of
                None \<Rightarrow> None
              | Some tx \<Rightarrow> Some \<lparr>ip_bytes = normalized, ip_byte_count = byte_count,
                                   canonicalText = tx\<rparr>)"

definition ip_parse :: "pton \<Rightarrow> ntop \<Rightarrow> string \<Rightarrow> IpAddress option" where
  "ip_parse inet_pton inet_ntop tx =
     (if tx = [] \<or> containsNull tx then None
      else case inet_pton AF_INET tx of
          Some bs \<Rightarrow> ip_fromBytes inet_ntop bs
        | None \<Rightarrow> (case inet_pton AF_INET6 tx of
                     Some bs \<Rightarrow> ip_fromBytes inet_ntop bs
                   | None \<Rightarrow> None))"

definition isIpv4 :: "IpAddress \<Rightarrow> bool" where
  "isIpv4 a \<longleftrightarrow> ip_byte_count a = 4"

section \<open>What the C library documents\<close>

fun family_length :: "address_family \<Rightarrow> nat" where
  "family_length AF_INET = 4"
| "family_length AF_INET6 = 16"

text \<open>Parsing gives 4 or 16 bytes by family; every address of the right length is printed, as a
  text without NUL that parses back to it, and never as a text of the other family.\<close>

definition inet_laws :: "pton \<Rightarrow> ntop \<Rightarrow> bool" where
  "inet_laws inet_pton inet_ntop \<longleftrightarrow>
     (\<forall>f tx bs. inet_pton f tx = Some bs \<longrightarrow> length bs = family_length f) \<and>
     (\<forall>f bs. length bs = family_length f \<longrightarrow>
        (\<exists>tx. inet_ntop f bs = Some tx \<and> tx \<noteq> [] \<and> \<not> containsNull tx \<and>
           inet_pton f tx = Some bs \<and> (\<forall>g. g \<noteq> f \<longrightarrow> inet_pton g tx = None)))"

lemma fromBytes_cases:
  assumes "inet_laws pt nt" "length bs = 4 \<or> length bs = 16"
  obtains n raw tx f where "ip_fromBytes nt bs = Some \<lparr>ip_bytes = raw @ replicate (16 - n) 0,
      ip_byte_count = n, canonicalText = tx\<rparr>"
    "length raw = n" "n = family_length f" "nt f raw = Some tx"
    "n = 16 \<Longrightarrow> raw = bs \<and> \<not> isIpv4MappedIpv6 bs"
    "n = 4 \<Longrightarrow> raw = (if length bs = 4 then bs else drop 12 bs)"
    "n = 4 \<longleftrightarrow> length bs = 4 \<or> isIpv4MappedIpv6 bs"
proof -
  consider (v4) "length bs = 4" | (mapped) "length bs = 16" "isIpv4MappedIpv6 bs"
    | (v6) "length bs = 16" "\<not> isIpv4MappedIpv6 bs"
    using assms(2) by blast
  then show ?thesis
  proof cases
    case v4
    then obtain tx where "nt AF_INET bs = Some tx" using assms(1) by (force simp: inet_laws_def)
    then show ?thesis using v4 by (intro that [of bs 4 tx AF_INET]) (auto simp: ip_fromBytes_def)
  next
    case mapped
    then have "length (drop 12 bs) = 4" by simp
    then obtain tx where "nt AF_INET (drop 12 bs) = Some tx"
      using assms(1) unfolding inet_laws_def by (metis family_length.simps(1))
    then show ?thesis using mapped
      by (intro that [of "drop 12 bs" 4 tx AF_INET]) (auto simp: ip_fromBytes_def)
  next
    case v6
    then obtain tx where "nt AF_INET6 bs = Some tx" using assms(1) by (force simp: inet_laws_def)
    then show ?thesis using v6 by (intro that [of bs 16 tx AF_INET6]) (auto simp: ip_fromBytes_def)
  qed
qed

lemma parse_fromBytes:
  assumes "inet_laws pt nt" "ip_parse pt nt tx = Some a"
  obtains bs where "length bs = 4 \<or> length bs = 16" "ip_fromBytes nt bs = Some a"
  using assms by (fastforce simp: ip_parse_def inet_laws_def split: if_splits option.splits)

lemma parse_canonical:
  assumes laws: "inet_laws pt nt" and a: "ip_fromBytes nt bs = Some a"
    and len: "length bs = 4 \<or> length bs = 16"
  shows "ip_parse pt nt (canonicalText a) = Some a"
proof (rule fromBytes_cases [OF laws len])
  fix n raw tx f
  assume r: "ip_fromBytes nt bs = Some \<lparr>ip_bytes = raw @ replicate (16 - n) 0, ip_byte_count = n,
      canonicalText = tx\<rparr>" "length raw = n" "n = family_length f" "nt f raw = Some tx"
    "n = 16 \<Longrightarrow> raw = bs \<and> \<not> isIpv4MappedIpv6 bs"
  have t: "tx \<noteq> []" "\<not> containsNull tx" "pt f tx = Some raw" "\<forall>g. g \<noteq> f \<longrightarrow> pt g tx = None"
    using laws r(2-4) unfolding inet_laws_def by (metis option.inject)+
  have parse: "ip_parse pt nt tx = ip_fromBytes nt raw"
    using t by (cases f) (auto simp: ip_parse_def)
  have "ip_fromBytes nt raw = Some a"
    using r(1-5) a by (cases f) (auto simp: ip_fromBytes_def)
  then show ?thesis using parse r(1) a by simp
qed

section \<open>A printer that satisfies the laws\<close>

text \<open>Used in examples: a family tag and, for each byte, as many strokes as its value.\<close>

fun family_tag :: "address_family \<Rightarrow> char" where
  "family_tag AF_INET = CHR ''4''"
| "family_tag AF_INET6 = CHR ''6''"

definition enc_byte :: "u8 \<Rightarrow> string" where
  "enc_byte b = replicate (unat b) (CHR ''|'') @ [CHR ''.'']"

fun dec_bytes :: "nat \<Rightarrow> string \<Rightarrow> bytes" where
  "dec_bytes n [] = []"
| "dec_bytes n (c # r) = (if c = CHR ''|'' then dec_bytes (Suc n) r else of_nat n # dec_bytes 0 r)"

definition example_ntop :: ntop where
  "example_ntop f bs = Some (family_tag f # concat (map enc_byte bs))"

definition example_pton :: pton where
  "example_pton f tx =
     (case tx of [] \<Rightarrow> None
      | c # r \<Rightarrow> if c = family_tag f \<and> length (dec_bytes 0 r) = family_length f
                 then Some (dec_bytes 0 r) else None)"

lemma dec_strokes: "dec_bytes n (replicate k (CHR ''|'') @ r) = dec_bytes (n + k) r"
  by (induction k arbitrary: n) auto

lemma dec_enc: "dec_bytes 0 (concat (map enc_byte bs)) = bs"
  by (induction bs) (simp_all add: enc_byte_def dec_strokes)

lemma enc_no_null: "\<not> containsNull (concat (map enc_byte bs))"
  by (auto simp: containsNull_def enc_byte_def)

lemma example_inet_laws: "inet_laws example_pton example_ntop"
proof -
  have "family_tag g \<noteq> family_tag f" if "g \<noteq> f" for f g
    using that by (cases f; cases g) auto
  moreover have "CHR 0x00 \<noteq> family_tag f" for f by (cases f) auto
  ultimately show ?thesis using dec_enc enc_no_null
    by (auto simp: inet_laws_def example_pton_def example_ntop_def containsNull_def
        split: list.splits if_splits)
qed

section \<open>Properties\<close>

text \<open>
  C29.  One address, one key.  The canonical text of a parsed address parses back to the same
  address, two parsed addresses are equal exactly when their canonical texts are, and the
  IPv4-mapped IPv6 form of an IPv4 address yields the same value as the IPv4 address itself.
\<close>

theorem ip_canonical_key:
  assumes "inet_laws pt nt" "ip_parse pt nt tx1 = Some a" "ip_parse pt nt tx2 = Some b"
    and "length v4 = 4"
  shows "ip_parse pt nt (canonicalText a) = Some a \<and>
    (canonicalText a = canonicalText b \<longleftrightarrow> a = b) \<and>
    ip_fromBytes nt (replicate 10 0 @ [0xff, 0xff] @ v4) = ip_fromBytes nt v4 \<and>
    ip_fromBytes nt v4 \<noteq> None"
proof -
  have canon: "ip_parse pt nt (canonicalText c) = Some c" if "ip_parse pt nt tx = Some c" for tx c
    using parse_fromBytes [OF assms(1) that] parse_canonical [OF assms(1)] by metis
  have d: "drop 12 (replicate 10 0 @ 0xff # 0xff # v4) = v4" by (simp add: drop_Cons')
  have "ip_fromBytes nt (replicate 10 0 @ [0xff, 0xff] @ v4) = ip_fromBytes nt v4"
    using assms(4) by (simp add: ip_fromBytes_def isIpv4MappedIpv6_def nth_append Let_def list_all_iff d
        split: option.split)
  moreover have "ip_fromBytes nt v4 \<noteq> None"
    by (rule fromBytes_cases [OF assms(1), of v4]) (use assms(4) in auto)
  moreover have "canonicalText a = canonicalText b \<longleftrightarrow> a = b"
    using canon [OF assms(2)] canon [OF assms(3)] by (metis option.inject)
  ultimately show ?thesis using canon [OF assms(2)] by blast
qed

theorem ip_canonical_key_witness:
  "\<exists>a b. ip_parse example_pton example_ntop ''4|..|.|.'' = Some a \<and>
     ip_parse example_pton example_ntop ''4||..|.|.'' = Some b \<and>
     ip_parse example_pton example_ntop (canonicalText a) = Some a \<and>
     (canonicalText a = canonicalText b \<longleftrightarrow> a = b)"
proof -
  have a: "\<exists>a. ip_parse example_pton example_ntop ''4|..|.|.'' = Some a"
    and b: "\<exists>b. ip_parse example_pton example_ntop ''4||..|.|.'' = Some b"
    by (simp_all add: ip_parse_def example_pton_def containsNull_def ip_fromBytes_def example_ntop_def
        Let_def)
  obtain a b where "ip_parse example_pton example_ntop ''4|..|.|.'' = Some a"
      "ip_parse example_pton example_ntop ''4||..|.|.'' = Some b"
    using a b by blast
  with ip_canonical_key [OF example_inet_laws this, of "[1, 2, 3, 4]"] show ?thesis by auto
qed

end
