(* ===== verification/Blacklist.thy ===== *)
theory Blacklist
  imports Domain_Types "HOL-Library.AList"
begin

text \<open>
  Blacklist entries, mutations, snapshots and the manager that publishes them
  (\<open>src/risk/blacklist_mutation.cpp\<close>, \<open>blacklist_snapshot.cpp\<close>,
  \<open>blacklist_manager.cpp\<close>).  An unordered map is an association list with distinct
  keys; allocation failure and enumeration values outside the declared ones are not modelled.
\<close>

section \<open>Entries and mutations\<close>

datatype EntityType = EntityUser | EntityIp | EntityDevice

record BlacklistEntry =
  entry_type :: EntityType
  entry_id :: string
  expire_at_ms :: nat

datatype BlacklistMutationOperation = OpUpsert | OpDisable | OpClearAll

record BlacklistMutation =
  mut_operation :: BlacklistMutationOperation
  mut_entity_type :: "EntityType option"
  mut_id :: string
  mut_reason :: string
  mut_expire_at_ms :: nat

definition kMaxEntityIdBytes :: nat where "kMaxEntityIdBytes = 128"
definition kMaxReasonBytes :: nat where "kMaxReasonBytes = 256"
definition kMaxExpireAtMs :: nat where "kMaxExpireAtMs = 253402300799999"

definition validText :: "string \<Rightarrow> nat \<Rightarrow> bool" where
  "validText v max_bytes \<longleftrightarrow> v \<noteq> [] \<and> length v \<le> max_bytes \<and> CHR 0x00 \<notin> set v"

definition normalizeId :: "pton \<Rightarrow> ntop \<Rightarrow> EntityType \<Rightarrow> string \<Rightarrow> string option" where
  "normalizeId pt nt ty i =
     (if ty \<noteq> EntityIp then (if validText i kMaxEntityIdBytes then Some i else None)
      else map_option canonicalText (ip_parse pt nt i))"

definition mutation_upsert ::
  "pton \<Rightarrow> ntop \<Rightarrow> EntityType \<Rightarrow> string \<Rightarrow> string \<Rightarrow> nat \<Rightarrow> BlacklistMutation option" where
  "mutation_upsert pt nt ty i reason expire =
     (case normalizeId pt nt ty i of
        None \<Rightarrow> None
      | Some nid \<Rightarrow>
          if \<not> validText reason kMaxReasonBytes \<or> expire > kMaxExpireAtMs then None
          else Some \<lparr>mut_operation = OpUpsert, mut_entity_type = Some ty, mut_id = nid,
                     mut_reason = reason, mut_expire_at_ms = expire\<rparr>)"

definition mutation_disable :: "pton \<Rightarrow> ntop \<Rightarrow> EntityType \<Rightarrow> string \<Rightarrow> BlacklistMutation option" where
  "mutation_disable pt nt ty i =
     map_option (\<lambda>nid. \<lparr>mut_operation = OpDisable, mut_entity_type = Some ty, mut_id = nid,
                        mut_reason = [], mut_expire_at_ms = 0\<rparr>) (normalizeId pt nt ty i)"

definition mutation_clearAll :: BlacklistMutation where
  "mutation_clearAll = \<lparr>mut_operation = OpClearAll, mut_entity_type = None, mut_id = [],
     mut_reason = [], mut_expire_at_ms = 0\<rparr>"

section \<open>Snapshots\<close>

type_synonym EntryMap = "(string \<times> nat) list"

record BlacklistSnapshot =
  snap_users :: EntryMap
  snap_ips :: EntryMap
  snap_devices :: EntryMap

record LoginBlacklistMatches =
  user_hit :: bool
  ip_hit :: bool
  device_hit :: bool

definition no_matches :: LoginBlacklistMatches where
  "no_matches = \<lparr>user_hit = False, ip_hit = False, device_hit = False\<rparr>"

definition snapshot_contains :: "EntryMap \<Rightarrow> string \<Rightarrow> nat \<Rightarrow> bool" where
  "snapshot_contains entries i now_ms =
     (if i = [] then False
      else case map_of entries i of
             None \<Rightarrow> False
           | Some expire \<Rightarrow> expire = 0 \<or> expire > now_ms)"

definition snapshot_matches ::
  "BlacklistSnapshot \<Rightarrow> string \<Rightarrow> string \<Rightarrow> string \<Rightarrow> nat \<Rightarrow> LoginBlacklistMatches" where
  "snapshot_matches s user ip device now_ms =
     \<lparr>user_hit = snapshot_contains (snap_users s) user now_ms,
      ip_hit = snapshot_contains (snap_ips s) ip now_ms,
      device_hit = snapshot_contains (snap_devices s) device now_ms\<rparr>"

section \<open>Manager\<close>

definition mergeExpiry :: "EntryMap \<Rightarrow> string \<Rightarrow> nat \<Rightarrow> EntryMap" where
  "mergeExpiry entries i expire =
     (case map_of entries i of
        None \<Rightarrow> AList.update i expire entries
      | Some old \<Rightarrow> if old = 0 \<or> expire = 0 then AList.update i 0 entries
                    else AList.update i (max old expire) entries)"

text \<open>\<open>None\<close>: the entry is refused and the candidate is not built.\<close>

definition addEntry :: "nat \<Rightarrow> BlacklistSnapshot \<Rightarrow> BlacklistEntry \<Rightarrow> BlacklistSnapshot option" where
  "addEntry now_ms s e =
     (if entry_id e = [] then None
      else if expire_at_ms e \<noteq> 0 \<and> expire_at_ms e \<le> now_ms then Some s
      else case entry_type e of
          EntityUser \<Rightarrow> Some (s\<lparr>snap_users := mergeExpiry (snap_users s) (entry_id e) (expire_at_ms e)\<rparr>)
        | EntityIp \<Rightarrow> Some (s\<lparr>snap_ips := mergeExpiry (snap_ips s) (entry_id e) (expire_at_ms e)\<rparr>)
        | EntityDevice \<Rightarrow>
            Some (s\<lparr>snap_devices := mergeExpiry (snap_devices s) (entry_id e) (expire_at_ms e)\<rparr>))"

fun addEntries :: "nat \<Rightarrow> BlacklistSnapshot \<Rightarrow> BlacklistEntry list \<Rightarrow> BlacklistSnapshot option" where
  "addEntries now_ms s [] = Some s"
| "addEntries now_ms s (e # es) =
     (case addEntry now_ms s e of None \<Rightarrow> None | Some s' \<Rightarrow> addEntries now_ms s' es)"

definition prepareCandidate :: "BlacklistEntry list \<Rightarrow> nat \<Rightarrow> BlacklistSnapshot option" where
  "prepareCandidate entries now_ms =
     (if list_ex (\<lambda>e. entry_id e = []) entries then None
      else addEntries now_ms \<lparr>snap_users = [], snap_ips = [], snap_devices = []\<rparr> entries)"

text \<open>The manager's state is the published snapshot, \<open>None\<close> before the first publication.\<close>

type_synonym BlacklistManager = "BlacklistSnapshot option"

definition publishCandidate :: "BlacklistSnapshot option \<Rightarrow> BlacklistManager \<Rightarrow> BlacklistManager \<times> bool" where
  "publishCandidate candidate mgr =
     (case candidate of None \<Rightarrow> (mgr, False) | Some s \<Rightarrow> (Some s, True))"

definition publish :: "BlacklistEntry list \<Rightarrow> nat \<Rightarrow> BlacklistManager \<Rightarrow> BlacklistManager \<times> bool" where
  "publish entries now_ms mgr =
     (case prepareCandidate entries now_ms of
        None \<Rightarrow> (mgr, False)
      | Some s \<Rightarrow> publishCandidate (Some s) mgr)"

definition manager_matches ::
  "BlacklistManager \<Rightarrow> string \<Rightarrow> string \<Rightarrow> string \<Rightarrow> nat \<Rightarrow> LoginBlacklistMatches" where
  "manager_matches mgr user ip device now_ms =
     (case mgr of None \<Rightarrow> no_matches | Some s \<Rightarrow> snapshot_matches s user ip device now_ms)"

section \<open>What a candidate contains\<close>

definition live :: "nat \<Rightarrow> nat \<Rightarrow> bool" where
  "live now expire \<longleftrightarrow> expire = 0 \<or> expire > now"

definition live_in :: "nat \<Rightarrow> EntryMap \<Rightarrow> string \<Rightarrow> bool" where
  "live_in t m i \<longleftrightarrow> (\<exists>x. map_of m i = Some x \<and> live t x)"

fun section_of :: "EntityType \<Rightarrow> BlacklistSnapshot \<Rightarrow> EntryMap" where
  "section_of EntityUser s = snap_users s"
| "section_of EntityIp s = snap_ips s"
| "section_of EntityDevice s = snap_devices s"

definition listed :: "nat \<Rightarrow> BlacklistEntry list \<Rightarrow> EntityType \<Rightarrow> string \<Rightarrow> bool" where
  "listed t es ty i \<longleftrightarrow> (\<exists>e \<in> set es. entry_type e = ty \<and> entry_id e = i \<and> live t (expire_at_ms e))"

lemma mergeExpiry_live: "live_in t (mergeExpiry m i expire) j \<longleftrightarrow> live_in t m j \<or> (i = j \<and> live t expire)"
  by (auto simp: live_in_def mergeExpiry_def update_conv' live_def split: option.split)

lemma addEntry_section:
  assumes "addEntry now s e = Some s'" "now \<le> t"
  shows "live_in t (section_of ty s') i \<longleftrightarrow> live_in t (section_of ty s) i \<or> listed t [e] ty i"
proof (cases "expire_at_ms e \<noteq> 0 \<and> expire_at_ms e \<le> now")
  case True
  then show ?thesis using assms by (auto simp: addEntry_def listed_def live_def split: if_splits)
next
  case False
  then show ?thesis using assms
    by (cases ty; cases "entry_type e")
       (auto simp: addEntry_def mergeExpiry_live listed_def split: if_splits)
qed

lemma addEntries_section:
  assumes "addEntries now s es = Some s'" "now \<le> t"
  shows "live_in t (section_of ty s') i \<longleftrightarrow> live_in t (section_of ty s) i \<or> listed t es ty i"
  using assms
proof (induction es arbitrary: s)
  case Nil
  then show ?case by (simp add: listed_def)
next
  case (Cons e es)
  obtain s1 where s1: "addEntry now s e = Some s1" "addEntries now s1 es = Some s'"
    using Cons.prems(1) by (auto split: option.splits)
  show ?case
    using Cons.IH [OF s1(2) assms(2)] addEntry_section [OF s1(1) assms(2)] by (auto simp: listed_def)
qed

lemma addEntries_total:
  "list_all (\<lambda>e. entry_id e \<noteq> []) es \<Longrightarrow> \<exists>s'. addEntries now s es = Some s'"
  by (induction es arbitrary: s) (auto simp: addEntry_def split: EntityType.split)

lemma prepare_section:
  assumes "prepareCandidate es now = Some s" "now \<le> t"
  shows "live_in t (section_of ty s) i \<longleftrightarrow> listed t es ty i"
  using assms addEntries_section [of now _ es s t ty i]
  by (cases ty) (auto simp: prepareCandidate_def live_in_def split: if_splits)

lemma prepare_iff: "(\<exists>s. prepareCandidate es now = Some s) \<longleftrightarrow> (\<forall>e \<in> set es. entry_id e \<noteq> [])"
  using addEntries_total [of es now] by (auto simp: prepareCandidate_def list_ex_iff list_all_iff)

lemma contains_live: "snapshot_contains m i now \<longleftrightarrow> i \<noteq> [] \<and> live_in now m i"
  by (auto simp: snapshot_contains_def live_in_def live_def split: option.split)

lemma published_matches:
  assumes "publish entries now mgr = (mgr', True)" "now \<le> later" "user \<noteq> []" "ip \<noteq> []" "device \<noteq> []"
  shows "manager_matches mgr' user ip device later =
    \<lparr>user_hit = listed later entries EntityUser user, ip_hit = listed later entries EntityIp ip,
     device_hit = listed later entries EntityDevice device\<rparr>"
proof -
  obtain s where s: "prepareCandidate entries now = Some s" "mgr' = Some s"
    using assms(1) by (auto simp: publish_def publishCandidate_def split: option.splits)
  have h: "snapshot_contains (section_of ty s) i later \<longleftrightarrow> listed later entries ty i" if "i \<noteq> []" for ty i
    using prepare_section [OF s(1) assms(2)] that by (simp add: contains_live)
  show ?thesis
    using h [of user EntityUser] h [of ip EntityIp] h [of device EntityDevice] assms(3-) s(2)
    by (simp add: manager_matches_def snapshot_matches_def)
qed

section \<open>Valid mutations\<close>

definition normal_id :: "pton \<Rightarrow> ntop \<Rightarrow> EntityType \<Rightarrow> string \<Rightarrow> bool" where
  "normal_id pt nt ty i \<longleftrightarrow>
     (if ty = EntityIp then \<exists>a. ip_parse pt nt i = Some a \<and> canonicalText a = i
      else validText i kMaxEntityIdBytes)"

definition mutation_valid :: "pton \<Rightarrow> ntop \<Rightarrow> BlacklistMutation \<Rightarrow> bool" where
  "mutation_valid pt nt m \<longleftrightarrow>
     (case mut_operation m of
        OpUpsert \<Rightarrow> (\<exists>ty. mut_entity_type m = Some ty \<and> normal_id pt nt ty (mut_id m)) \<and>
                    validText (mut_reason m) kMaxReasonBytes \<and> mut_expire_at_ms m \<le> kMaxExpireAtMs
      | OpDisable \<Rightarrow> (\<exists>ty. mut_entity_type m = Some ty \<and> normal_id pt nt ty (mut_id m)) \<and>
                     mut_reason m = [] \<and> mut_expire_at_ms m = 0
      | OpClearAll \<Rightarrow> mut_entity_type m = None \<and> mut_id m = [] \<and> mut_reason m = [] \<and>
                      mut_expire_at_ms m = 0)"

lemma normalizeId_normal:
  assumes "inet_laws pt nt" "normalizeId pt nt ty i = Some j"
  shows "normal_id pt nt ty j" "normalizeId pt nt ty j = Some j"
proof -
  have "ip_parse pt nt (canonicalText a) = Some a" if "ip_parse pt nt i = Some a" for a
    using parse_fromBytes [OF assms(1) that] parse_canonical [OF assms(1)] by metis
  then show "normal_id pt nt ty j" "normalizeId pt nt ty j = Some j"
    using assms(2) by (auto simp: normalizeId_def normal_id_def split: if_splits)
qed

section \<open>Properties\<close>

text \<open>
  C20.  Publishing is exact and atomic.  A list of entries is published exactly when every entry
  has an identifier; a refused list leaves the published snapshot as it was.  After a
  publication, at any later time, a user, IP or device is hit exactly when the list has an entry
  of that kind and identifier that is permanent or not yet expired, however often the identifier
  is repeated.
\<close>

theorem publish_exact:
  assumes "publish entries now mgr = (mgr', ok)"
  shows "(ok \<longleftrightarrow> (\<forall>e \<in> set entries. entry_id e \<noteq> [])) \<and> (\<not> ok \<longrightarrow> mgr' = mgr) \<and>
    (ok \<and> now \<le> later \<and> user \<noteq> [] \<and> ip \<noteq> [] \<and> device \<noteq> [] \<longrightarrow>
       manager_matches mgr' user ip device later =
       \<lparr>user_hit = (\<exists>e \<in> set entries. entry_type e = EntityUser \<and> entry_id e = user \<and>
                      (expire_at_ms e = 0 \<or> expire_at_ms e > later)),
        ip_hit = (\<exists>e \<in> set entries. entry_type e = EntityIp \<and> entry_id e = ip \<and>
                      (expire_at_ms e = 0 \<or> expire_at_ms e > later)),
        device_hit = (\<exists>e \<in> set entries. entry_type e = EntityDevice \<and> entry_id e = device \<and>
                      (expire_at_ms e = 0 \<or> expire_at_ms e > later))\<rparr>)"
proof (cases "prepareCandidate entries now")
  case None
  then show ?thesis using assms prepare_iff [of entries now] by (auto simp: publish_def)
next
  case (Some s)
  then have ok: "ok" using assms by (auto simp: publish_def publishCandidate_def)
  then have "publish entries now mgr = (mgr', True)" using assms by simp
  note published_matches [OF this, of later user ip device]
  then show ?thesis
    using ok prepare_iff [of entries now] Some unfolding listed_def live_def by blast
qed

theorem publish_exact_witness:
  "let es = [\<lparr>entry_type = EntityUser, entry_id = ''u'', expire_at_ms = 5\<rparr>,
             \<lparr>entry_type = EntityUser, entry_id = ''u'', expire_at_ms = 0\<rparr>]
   in snd (publish es 10 None) \<and>
      user_hit (manager_matches (fst (publish es 10 None)) ''u'' ''i'' ''d'' 20)"
proof -
  define es where "es = [\<lparr>entry_type = EntityUser, entry_id = ''u'', expire_at_ms = 5\<rparr>,
             \<lparr>entry_type = EntityUser, entry_id = ''u'', expire_at_ms = 0\<rparr>]"
  show ?thesis
    using publish_exact [of es 10 None "fst (publish es 10 None)" "snd (publish es 10 None)" 20
        "''u''" "''i''" "''d''"]
    by (simp add: Let_def es_def)
qed

text \<open>
  C28.  The mutation factories only build valid mutations.  Whatever arguments they are given, an
  upsert carries an entity with a normalised identifier (an IP in its canonical text), a
  non-empty bounded reason and a bounded expiry, a disable carries an entity and nothing else,
  clear-all carries nothing; and building again from the stored identifier gives the same
  mutation.
\<close>

theorem mutation_factories_valid:
  assumes "inet_laws pt nt"
  shows "(\<forall>m. mutation_upsert pt nt ty i reason expire = Some m \<longrightarrow>
            mutation_valid pt nt m \<and> mutation_upsert pt nt ty (mut_id m) reason expire = Some m) \<and>
         (\<forall>m. mutation_disable pt nt ty i = Some m \<longrightarrow>
            mutation_valid pt nt m \<and> mutation_disable pt nt ty (mut_id m) = Some m) \<and>
         mutation_valid pt nt mutation_clearAll"
  using normalizeId_normal [OF assms, of ty i]
  by (auto simp: mutation_upsert_def mutation_disable_def mutation_clearAll_def mutation_valid_def
      split: option.splits if_splits)

theorem mutation_factories_valid_witness:
  "\<exists>m. mutation_upsert example_pton example_ntop EntityIp ''4|..|.|.'' ''abuse'' 7 = Some m \<and>
     mutation_valid example_pton example_ntop m"
proof -
  have "\<exists>m. mutation_upsert example_pton example_ntop EntityIp ''4|..|.|.'' ''abuse'' 7 = Some m"
    by (simp add: mutation_upsert_def normalizeId_def validText_def kMaxReasonBytes_def kMaxExpireAtMs_def
        ip_parse_def example_pton_def containsNull_def ip_fromBytes_def example_ntop_def Let_def)
  then show ?thesis using mutation_factories_valid [OF example_inet_laws] by blast
qed

end
