(* ===== verification/Keyed_Windows.thy ===== *)
theory Keyed_Windows
  imports Prelude "HOL-Library.AList"
begin

text \<open>
  Sharded tables of per-key window states, the shape the feature store has three times (users,
  IPs, devices).  The locale says what such a state promises: it answers for the calls recorded
  in it, and a fresh state answers for any history that lies a time-to-live back.  Its client
  lemmas show that a table keeps answering for every key's whole history, whatever is reclaimed.
\<close>

section \<open>Tables\<close>

type_synonym 's shards = "(string \<times> 's) list list"

definition shardIndex :: "(string \<Rightarrow> nat) \<Rightarrow> string \<Rightarrow> nat \<Rightarrow> nat" where
  "shardIndex hash key shard_num = hash key mod shard_num"

definition isExpired :: "nat \<Rightarrow> nat \<Rightarrow> nat \<Rightarrow> bool" where
  "isExpired last_seen now ttl \<longleftrightarrow> now \<ge> last_seen \<and> sub64 now last_seen \<ge> ttl"

text \<open>The erase loop of one table: every shard, every element.\<close>

definition reclaim_shards :: "('s \<Rightarrow> nat) \<Rightarrow> nat \<Rightarrow> nat \<Rightarrow> 's shards \<Rightarrow> 's shards" where
  "reclaim_shards seen now ttl sh = map (filter (\<lambda>(k, s). \<not> isExpired (seen s) now ttl)) sh"

text \<open>Find or create, record, read: the common shape of the update functions.\<close>

definition touch_state ::
  "'s \<Rightarrow> ('x \<Rightarrow> 's \<Rightarrow> 's) \<Rightarrow> (nat \<Rightarrow> 's \<Rightarrow> 's \<times> 'v) \<Rightarrow> 'v \<Rightarrow>
   (string \<Rightarrow> nat) \<Rightarrow> nat \<Rightarrow> string \<Rightarrow> 'x option \<Rightarrow> nat \<Rightarrow> 's shards \<Rightarrow> 's shards \<times> 'v" where
  "touch_state fresh rec rd dflt hash n key upd now sh =
     (let i = shardIndex hash key n; m = sh ! i
      in case map_of m key of
           None \<Rightarrow> (case upd of
                       None \<Rightarrow> (sh, dflt)
                     | Some x \<Rightarrow> let (s, v) = rd now (rec x fresh)
                                  in (sh[i := AList.update key s m], v))
         | Some s0 \<Rightarrow> let (s, v) = rd now (case upd of None \<Rightarrow> s0 | Some x \<Rightarrow> rec x s0)
                     in (sh[i := AList.update key s m], v))"

definition lookup :: "(string \<Rightarrow> nat) \<Rightarrow> nat \<Rightarrow> 's shards \<Rightarrow> string \<Rightarrow> 's option" where
  "lookup hash n sh key = map_of (sh ! shardIndex hash key n) key"

definition shards_wf :: "nat \<Rightarrow> 's shards \<Rightarrow> bool" where
  "shards_wf n sh \<longleftrightarrow> 0 < n \<and> length sh = n \<and> (\<forall>m \<in> set sh. distinct (map fst m))"

lemma shardIndex_less: "shards_wf n sh \<Longrightarrow> shardIndex hash key n < length sh"
  by (simp add: shards_wf_def shardIndex_def)

lemma put_wf:
  "shards_wf n sh \<Longrightarrow> shards_wf n (sh[shardIndex hash key n := AList.update key s (sh ! shardIndex hash key n)])"
  using shardIndex_less [of n sh hash key]
  by (auto simp: shards_wf_def distinct_update dest!: set_update_subset_insert [THEN subsetD])

lemma lookup_put:
  assumes "shards_wf n sh"
  shows "lookup hash n (sh[shardIndex hash key n := AList.update key s (sh ! shardIndex hash key n)]) k =
    (if k = key then Some s else lookup hash n sh k)"
  using shardIndex_less [OF assms, of hash key]
  by (cases "shardIndex hash k n = shardIndex hash key n") (auto simp: lookup_def update_conv')

lemma map_of_filter_distinct:
  "distinct (map fst m) \<Longrightarrow> map_of (filter P m) k =
     (case map_of m k of None \<Rightarrow> None | Some s \<Rightarrow> if P (k, s) then Some s else None)"
  by (induction m) (auto simp: map_of_eq_None_iff rev_image_eqI split: option.splits)

lemma reclaim_wf: "shards_wf n sh \<Longrightarrow> shards_wf n (reclaim_shards seen now ttl sh)"
  by (auto simp: shards_wf_def reclaim_shards_def distinct_map_filter)

lemma lookup_reclaim:
  assumes "shards_wf n sh"
  shows "lookup hash n (reclaim_shards seen now ttl sh) k =
    (case lookup hash n sh k of None \<Rightarrow> None
     | Some s \<Rightarrow> if isExpired (seen s) now ttl then None else Some s)"
proof -
  have i: "shardIndex hash k n < length sh" by (rule shardIndex_less [OF assms])
  then have "distinct (map fst (sh ! shardIndex hash k n))" using assms by (auto simp: shards_wf_def)
  then show ?thesis
    using i by (auto simp: lookup_def reclaim_shards_def map_of_filter_distinct split: option.split)
qed

section \<open>The contract of a window state\<close>

locale window_state =
  fixes fresh :: 's
    and rec :: "'x \<Rightarrow> 's \<Rightarrow> 's"
    and rd :: "nat \<Rightarrow> 's \<Rightarrow> 's \<times> 'v"
    and dflt :: 'v
    and seen :: "'s \<Rightarrow> nat"
    and at :: "'x \<Rightarrow> nat"
    and okx :: "'x \<Rightarrow> bool"
    and holds :: "'s \<Rightarrow> 'x list \<Rightarrow> nat \<Rightarrow> bool"
    and val :: "nat \<Rightarrow> 'x list \<Rightarrow> 'v \<Rightarrow> bool"
    and window :: nat
  assumes holds_mono: "holds s h t0 \<Longrightarrow> t0 \<le> t \<Longrightarrow> holds s h t"
    and holds_rec: "holds s h t0 \<Longrightarrow> okx x \<Longrightarrow> t0 \<le> at x \<Longrightarrow> at x < 2 ^ 64 \<Longrightarrow> holds (rec x s) (h @ [x]) (at x)"
    and seen_rec: "seen (rec x s) = at x"
    and holds_rd: "holds s h t0 \<Longrightarrow> t0 \<le> t \<Longrightarrow> t < 2 ^ 64 \<Longrightarrow> holds (fst (rd t s)) h t"
    and val_rd: "holds s h t0 \<Longrightarrow> t0 \<le> t \<Longrightarrow> t < 2 ^ 64 \<Longrightarrow> val t h (snd (rd t s))"
    and seen_rd: "seen (fst (rd t s)) = seen s"
    and rd_fresh: "t < 2 ^ 64 \<Longrightarrow> snd (rd t fresh) = dflt"
    and forget: "\<forall>x \<in> set h. okx x \<and> at x + window \<le> t \<Longrightarrow> holds fresh h t"
begin

definition key_ok :: "'s option \<Rightarrow> 'x list \<Rightarrow> nat \<Rightarrow> bool" where
  "key_ok found h t \<longleftrightarrow> (\<forall>x \<in> set h. okx x \<and> at x \<le> t) \<and>
     (case found of
        None \<Rightarrow> holds fresh h t
      | Some s \<Rightarrow> holds s h t \<and> (\<forall>x \<in> set h. at x \<le> seen s))"

definition keyed :: "(string \<Rightarrow> nat) \<Rightarrow> nat \<Rightarrow> 's shards \<Rightarrow> (string \<Rightarrow> 'x list) \<Rightarrow> nat \<Rightarrow> bool" where
  "keyed hash n sh hist t \<longleftrightarrow> shards_wf n sh \<and> (\<forall>k. key_ok (lookup hash n sh k) (hist k) t)"

lemma keyed_empty:
  "0 < n \<Longrightarrow> keyed hash n (replicate n []) (\<lambda>_. []) t"
  by (auto simp: keyed_def key_ok_def shards_wf_def lookup_def shardIndex_def intro: forget)

lemma key_ok_mono: "key_ok found h t0 \<Longrightarrow> t0 \<le> t \<Longrightarrow> key_ok found h t"
  using holds_mono order_trans by (cases found) (auto simp: key_ok_def)

lemma keyed_mono: "keyed hash n sh hist t0 \<Longrightarrow> t0 \<le> t \<Longrightarrow> keyed hash n sh hist t"
  unfolding keyed_def by (blast intro: key_ok_mono)

text \<open>What an update makes of one key's state.\<close>

lemma key_ok_update:
  assumes ok: "key_ok found h0 now" and now: "now < 2 ^ 64"
    and upd: "\<forall>x. upd = Some x \<longrightarrow> okx x \<and> at x = now"
    and h: "h = h0 @ (case upd of None \<Rightarrow> [] | Some x \<Rightarrow> [x])"
    and s1: "s1 = (let s0 = (case found of None \<Rightarrow> fresh | Some s \<Rightarrow> s)
                   in case upd of None \<Rightarrow> s0 | Some x \<Rightarrow> rec x s0)"
  shows "val now h (snd (rd now s1))"
    and "found \<noteq> None \<or> upd \<noteq> None \<Longrightarrow> key_ok (Some (fst (rd now s1))) h now"
proof -
  define s0 where "s0 = (case found of None \<Rightarrow> fresh | Some s \<Rightarrow> s)"
  have s0: "holds s0 h0 now" using ok by (auto simp: key_ok_def s0_def split: option.splits)
  have s1': "s1 = (case upd of None \<Rightarrow> s0 | Some x \<Rightarrow> rec x s0)" by (simp only: s1 s0_def Let_def)
  have holds1: "holds s1 h now"
    using s0 holds_rec upd now by (auto simp: s1' h split: option.split)
  show "val now h (snd (rd now s1))" by (rule val_rd [OF holds1 order_refl now])
  have all: "\<forall>x \<in> set h. okx x \<and> at x \<le> now"
    using ok upd by (auto simp: key_ok_def h split: option.splits)
  moreover have "\<forall>x \<in> set h. at x \<le> seen s1" if "found \<noteq> None \<or> upd \<noteq> None"
  proof (cases upd)
    case None
    then show ?thesis using ok that by (auto simp: key_ok_def s1' h s0_def)
  next
    case (Some x)
    then show ?thesis using all upd by (simp add: s1' seen_rec)
  qed
  ultimately show "found \<noteq> None \<or> upd \<noteq> None \<Longrightarrow> key_ok (Some (fst (rd now s1))) h now"
    using holds_rd [OF holds1 order_refl now] by (simp add: key_ok_def seen_rd)
qed

text \<open>One update: the table answers for the extended history, and so does the value read.\<close>

lemma touch_keyed:
  assumes k: "keyed hash n sh hist t0" and t: "t0 \<le> now" "now < 2 ^ 64"
    and upd: "\<forall>x. upd = Some x \<longrightarrow> okx x \<and> at x = now"
    and h: "h = hist key @ (case upd of None \<Rightarrow> [] | Some x \<Rightarrow> [x])"
    and r: "touch_state fresh rec rd dflt hash n key upd now sh = (sh', v)"
  shows "keyed hash n sh' (hist(key := h)) now \<and> val now h v"
proof -
  define found where "found = lookup hash n sh key"
  define s1 where "s1 = (let s0 = (case found of None \<Rightarrow> fresh | Some s \<Rightarrow> s)
    in case upd of None \<Rightarrow> s0 | Some x \<Rightarrow> rec x s0)"
  have k': "keyed hash n sh hist now" by (rule keyed_mono [OF k t(1)])
  then have wf: "shards_wf n sh" and ok: "key_ok found (hist key) now"
    by (auto simp: keyed_def found_def)
  note upd' = key_ok_update [OF ok t(2) upd h s1_def]
  show ?thesis
  proof (cases "found = None \<and> upd = None")
    case True
    then have "sh' = sh" "v = dflt" "h = hist key" "s1 = fresh"
      using r by (auto simp: touch_state_def found_def lookup_def h s1_def)
    then show ?thesis using k' upd'(1) rd_fresh [OF t(2)] by simp
  next
    case False
    let ?i = "shardIndex hash key n"
    have "sh' = sh[?i := AList.update key (fst (rd now s1)) (sh ! ?i)]" "v = snd (rd now s1)"
      using r False by (auto simp: touch_state_def found_def lookup_def s1_def Let_def
          split: option.splits prod.splits)
    then show ?thesis
      using upd' False k' put_wf [OF wf] lookup_put [OF wf] by (auto simp: keyed_def)
  qed
qed

text \<open>Reclaiming states that were not updated for a time-to-live of at least the window is
  invisible.\<close>

lemma key_ok_reclaim:
  assumes "key_ok found h now" "window \<le> ttl"
  shows "key_ok (case found of None \<Rightarrow> None | Some s \<Rightarrow> if isExpired (seen s) now ttl then None else Some s)
    h now"
proof (cases "\<exists>s. found = Some s \<and> isExpired (seen s) now ttl")
  case True
  then obtain s where s: "found = Some s" "isExpired (seen s) now ttl" by blast
  then have "\<forall>x \<in> set h. okx x \<and> at x + window \<le> now"
    using assms by (fastforce simp: key_ok_def isExpired_def)
  then show ?thesis using s assms(1) forget by (simp add: key_ok_def)
next
  case False
  then show ?thesis using assms(1) by (auto split: option.split)
qed

lemma reclaim_keyed:
  assumes "keyed hash n sh hist t0" "t0 \<le> now" "window \<le> ttl"
  shows "keyed hash n (reclaim_shards seen now ttl sh) hist now"
proof -
  have k: "shards_wf n sh" "key_ok (lookup hash n sh key) (hist key) now" for key
    using keyed_mono [OF assms(1,2)] by (auto simp: keyed_def)
  show ?thesis
    unfolding keyed_def lookup_reclaim [OF k(1)]
    using reclaim_wf [OF k(1)] key_ok_reclaim [OF k(2) assms(3)] by blast
qed

end

end
