(* ===== verification/Priority_Queue.thy ===== *)
theory Priority_Queue
  imports Prelude "HOL-Library.Multiset"
begin

text \<open>
  The contract of \<open>std::priority_queue\<close> as the feature store and the timer use it: a
  bag of elements whose top has the least key.  The locale states the laws a client relies on and
  proves the rule for the loop both clients run (pop the top while a condition holds); the list
  implementation below is interpreted at each client's element type.
\<close>

section \<open>The queue\<close>

text \<open>The queue as a list in key order; the top is the head.  Which of several elements with the
  least key is on top is left open by the C++ library; the clients do not depend on it.\<close>

definition pq_push :: "('e \<Rightarrow> 'k :: linorder) \<Rightarrow> 'e \<Rightarrow> 'e list \<Rightarrow> 'e list" where
  "pq_push key e h = insort_key key e h"

definition pq_top :: "'e list \<Rightarrow> 'e option" where
  "pq_top h = (case h of [] \<Rightarrow> None | e # _ \<Rightarrow> Some e)"

definition pq_pop :: "'e list \<Rightarrow> 'e list" where
  "pq_pop h = tl h"

text \<open>\<open>while (!q.empty() && cond(q.top())) { step(q.top()); q.pop(); }\<close>.  The fuel is the
  number of elements: \<open>while_rule\<close> below shows that the loop has then really ended, its
  condition being false.\<close>

fun pq_while ::
  "('h \<Rightarrow> 'e option) \<Rightarrow> ('h \<Rightarrow> 'h) \<Rightarrow> ('e \<Rightarrow> 's \<Rightarrow> bool) \<Rightarrow> ('e \<Rightarrow> 's \<Rightarrow> 's) \<Rightarrow> nat \<Rightarrow> 'h \<Rightarrow> 's \<Rightarrow> 'h \<times> 's"
where
  "pq_while tp pop cond step 0 h s = (h, s)"
| "pq_while tp pop cond step (Suc fuel) h s =
     (case tp h of
        None \<Rightarrow> (h, s)
      | Some e \<Rightarrow> if cond e s then pq_while tp pop cond step fuel (pop h) (step e s) else (h, s))"

section \<open>The contract\<close>

locale priority_queue =
  fixes valid :: "'h \<Rightarrow> bool"
    and emp :: 'h
    and push :: "'e \<Rightarrow> 'h \<Rightarrow> 'h"
    and tp :: "'h \<Rightarrow> 'e option"
    and pop :: "'h \<Rightarrow> 'h"
    and elems :: "'h \<Rightarrow> 'e multiset"
    and key :: "'e \<Rightarrow> 'k :: linorder"
  assumes valid_emp: "valid emp"
    and elems_emp: "elems emp = {#}"
    and valid_push: "valid h \<Longrightarrow> valid (push e h)"
    and elems_push: "elems (push e h) = add_mset e (elems h)"
    and top_none: "tp h = None \<longleftrightarrow> elems h = {#}"
    and top_elem: "tp h = Some e \<Longrightarrow> e \<in># elems h"
    and top_least: "valid h \<Longrightarrow> tp h = Some e \<Longrightarrow> x \<in># elems h \<Longrightarrow> key e \<le> key x"
    and valid_pop: "valid h \<Longrightarrow> valid (pop h)"
    and elems_pop: "tp h = Some e \<Longrightarrow> elems (pop h) = elems h - {#e#}"
begin

text \<open>The loop returns, and keeps what every iteration keeps.\<close>

lemma while_rule:
  assumes "size (elems h) \<le> fuel" "valid h" "I h s"
    and "\<And>h s e. valid h \<Longrightarrow> I h s \<Longrightarrow> tp h = Some e \<Longrightarrow> cond e s \<Longrightarrow> I (pop h) (step e s)"
  shows "\<exists>h' s'. pq_while tp pop cond step fuel h s = (h', s') \<and> valid h' \<and> I h' s' \<and>
    (\<forall>e. tp h' = Some e \<longrightarrow> \<not> cond e s')"
  using assms(1-3)
proof (induction fuel arbitrary: h s)
  case 0
  then show ?case using top_none [of h] by auto
next
  case (Suc fuel)
  show ?case
  proof (cases "\<exists>e. tp h = Some e \<and> cond e s")
    case True
    then obtain e where e: "tp h = Some e" "cond e s" by blast
    have "size (elems (pop h)) < size (elems h)"
      using top_elem [OF e(1)] elems_pop [OF e(1)] by (simp add: size_Diff1_less)
    then show ?thesis
      using Suc.IH [OF _ valid_pop [OF Suc.prems(2)] assms(4) [OF Suc.prems(2,3) e]] e Suc.prems(1)
      by simp
  next
    case False
    then show ?thesis using Suc.prems by (auto split: option.split)
  qed
qed

text \<open>Popping while the key is below a bound removes exactly the elements below the bound and
  performs the step once for each of them, in key order.\<close>

lemma drain_below:
  assumes "size (elems h) \<le> fuel" "valid h"
  shows "\<exists>h' es. pq_while tp pop (\<lambda>e _. key e < m) step fuel h s = (h', fold step es s) \<and>
    valid h' \<and> mset es = filter_mset (\<lambda>e. key e < m) (elems h) \<and> sorted (map key es) \<and>
    elems h' = filter_mset (\<lambda>e. \<not> key e < m) (elems h)"
proof -
  define I where "I h' s' \<longleftrightarrow> (\<exists>es. s' = fold step es s \<and> mset es + elems h' = elems h \<and>
    sorted (map key es) \<and> (\<forall>x \<in> set es. key x < m \<and> (\<forall>y \<in># elems h'. key x \<le> key y)))" for h' s'
  have step: "I (pop h1) (step e s1)"
    if a: "valid h1" "I h1 s1" "tp h1 = Some e" "key e < m" for h1 s1 e
  proof -
    obtain es where es: "s1 = fold step es s" "mset es + elems h1 = elems h" "sorted (map key es)"
      "\<forall>x \<in> set es. key x < m \<and> (\<forall>y \<in># elems h1. key x \<le> key y)"
      using a(2) by (auto simp: I_def)
    have "mset (es @ [e]) + elems (pop h1) = elems h"
      using top_elem [OF a(3)] by (simp add: es(2) [symmetric] elems_pop [OF a(3)])
    then show ?thesis
      using es a top_elem [OF a(3)] top_least [OF a(1,3)]
      unfolding I_def
      by (intro exI [of _ "es @ [e]"])
         (auto simp: sorted_append elems_pop [OF a(3)] dest: in_diffD)
  qed
  have init: "I h s" by (auto simp: I_def intro!: exI [of _ "[]"])
  obtain h' s' where w: "pq_while tp pop (\<lambda>e _. key e < m) step fuel h s = (h', s')" "valid h'"
      "I h' s'" "\<forall>e. tp h' = Some e \<longrightarrow> \<not> key e < m"
    using while_rule [where I = I and cond = "\<lambda>e _. key e < m" and step = step, OF assms init] step
    by metis
  then obtain es where es: "s' = fold step es s" "elems h = mset es + elems h'"
    "sorted (map key es)" "\<forall>x \<in> set es. key x < m"
    by (auto simp: I_def)
  have "\<not> key x < m" if "x \<in># elems h'" for x
    using that w(2,4) top_none [of h'] top_least [OF w(2)] by (cases "tp h'") force+
  then have "filter_mset (\<lambda>e. key e < m) (elems h') = {#}"
      "filter_mset (\<lambda>e. \<not> key e < m) (elems h') = elems h'"
    by (auto simp: multiset_eq_iff simp flip: not_in_iff)
  moreover have "filter_mset (\<lambda>e. key e < m) (mset es) = mset es"
      "filter_mset (\<lambda>e. \<not> key e < m) (mset es) = {#}"
    using es(4) by (auto simp: multiset_eq_iff simp flip: not_in_iff)
  ultimately show ?thesis using w(1,2) es by (auto simp: es(2))
qed

end

section \<open>The list queue satisfies it\<close>

lemma list_queue_laws:
  "priority_queue (\<lambda>h. sorted (map key h)) [] (pq_push key) pq_top pq_pop mset key"
proof
  fix h :: "'a list" and e x :: 'a
  assume "sorted (map key h)" "pq_top h = Some e" "x \<in># mset h"
  then show "key e \<le> key x" by (cases h) (auto simp: pq_top_def)
qed (auto simp: pq_push_def pq_top_def pq_pop_def sorted_insort_key sorted_tl map_tl
      split: list.splits)

end
