(* ===== verification/Sliding_Counter.thy ===== *)
theory Sliding_Counter
  imports Prelude
begin

text \<open>
  The bucketed sliding-window counter (\<open>include/aegisflow/feature/sliding_counter.hpp\<close>).
  Bucket numbers are natural numbers below 2^64; the counts keep their 32 bits and the running
  total its 64.  The reference is a log of the accepted events: a counter returns the sum of the
  log's live part, for every sequence of calls and every behaviour of the clock.
\<close>

section \<open>Model\<close>

record counter_bucket =
  bucket_id :: nat
  bucket_count :: u32
  bucket_occupied :: bool

definition empty_bucket :: counter_bucket where
  "empty_bucket = \<lparr>bucket_id = 0, bucket_count = 0, bucket_occupied = False\<rparr>"

record sliding_counter =
  ctr_buckets :: "counter_bucket list"
  ctr_bucket_ms :: nat
  ctr_total :: u64

abbreviation BucketNum :: "sliding_counter \<Rightarrow> nat" where
  "BucketNum c \<equiv> length (ctr_buckets c)"

text \<open>The constructor of \<open>SlidingCounter<n>\<close>; \<open>None\<close> is the exception.\<close>

definition counter_create :: "nat \<Rightarrow> nat \<Rightarrow> sliding_counter option" where
  "counter_create n bucket_ms =
     (if bucket_ms = 0 then None
      else Some \<lparr>ctr_buckets = replicate n empty_bucket, ctr_bucket_ms = bucket_ms, ctr_total = 0\<rparr>)"

definition window_minimum :: "nat \<Rightarrow> nat \<Rightarrow> nat" where
  "window_minimum n now_bucket = (if now_bucket < n - 1 then 0 else add64 (sub64 now_bucket n) 1)"

fun expire_buckets ::
  "nat \<Rightarrow> nat \<Rightarrow> counter_bucket list \<Rightarrow> u64 \<Rightarrow> counter_bucket list \<times> u64" where
  "expire_buckets mn now_bucket [] tot = ([], tot)"
| "expire_buckets mn now_bucket (b # bs) tot =
     (if \<not> bucket_occupied b \<or> (bucket_id b \<ge> mn \<and> bucket_id b \<le> now_bucket)
      then let (bs', tot') = expire_buckets mn now_bucket bs tot in (b # bs', tot')
      else let (bs', tot') = expire_buckets mn now_bucket bs (tot - ucast (bucket_count b))
           in (empty_bucket # bs', tot'))"

definition counter_expire :: "nat \<Rightarrow> sliding_counter \<Rightarrow> sliding_counter" where
  "counter_expire now_ms c =
     (let now_bucket = now_ms div ctr_bucket_ms c;
          (bs, tot) = expire_buckets (window_minimum (BucketNum c) now_bucket) now_bucket
                        (ctr_buckets c) (ctr_total c)
      in c\<lparr>ctr_buckets := bs, ctr_total := tot\<rparr>)"

definition counter_add :: "nat \<Rightarrow> nat \<Rightarrow> u32 \<Rightarrow> sliding_counter \<Rightarrow> sliding_counter \<times> bool" where
  "counter_add event_ts_ms now_ms delta c0 =
     (let c = counter_expire now_ms c0;
          event_bucket = event_ts_ms div ctr_bucket_ms c;
          now_bucket = now_ms div ctr_bucket_ms c
      in if event_bucket > now_bucket \<or> sub64 now_bucket event_bucket \<ge> BucketNum c
         then (c, False)
         else let index = event_bucket mod BucketNum c;
                  b = ctr_buckets c ! index;
                  stale = \<not> bucket_occupied b \<or> bucket_id b \<noteq> event_bucket;
                  tot = (if stale then ctr_total c - ucast (bucket_count b) else ctr_total c);
                  b1 = (if stale then \<lparr>bucket_id = event_bucket, bucket_count = 0,
                                       bucket_occupied = True\<rparr> else b);
                  b2 = b1\<lparr>bucket_count := bucket_count b1 + delta\<rparr>
              in (c\<lparr>ctr_buckets := (ctr_buckets c)[index := b2], ctr_total := tot + ucast delta\<rparr>,
                  True))"

definition counter_sum :: "nat \<Rightarrow> sliding_counter \<Rightarrow> sliding_counter \<times> u32" where
  "counter_sum now_ms c0 = (let c = counter_expire now_ms c0 in (c, ucast (ctr_total c)))"

section \<open>Reference: the log of accepted events\<close>

type_synonym event_log = "(nat \<times> u32) list"

definition in_window :: "nat \<Rightarrow> nat \<Rightarrow> nat \<Rightarrow> bool" where
  "in_window n now_bucket b \<longleftrightarrow> b \<le> now_bucket \<and> now_bucket - b < n"

definition log_expire :: "nat \<Rightarrow> nat \<Rightarrow> event_log \<Rightarrow> event_log" where
  "log_expire n now_bucket = filter (\<lambda>e. in_window n now_bucket (fst e))"

definition log_add :: "nat \<Rightarrow> nat \<Rightarrow> nat \<Rightarrow> u32 \<Rightarrow> event_log \<Rightarrow> event_log \<times> bool" where
  "log_add n event_bucket now_bucket delta l =
     (let l' = log_expire n now_bucket l
      in if in_window n now_bucket event_bucket then (l' @ [(event_bucket, delta)], True)
         else (l', False))"

definition log_total :: "event_log \<Rightarrow> u32" where
  "log_total l = sum_list (map snd l)"

section \<open>Refinement\<close>

definition log_group :: "nat \<Rightarrow> nat \<Rightarrow> event_log \<Rightarrow> u32" where
  "log_group n i l = log_total (filter (\<lambda>e. fst e mod n = i) l)"

definition counts :: "counter_bucket list \<Rightarrow> u32" where
  "counts bs = sum_list (map bucket_count bs)"

definition represents :: "sliding_counter \<Rightarrow> event_log \<Rightarrow> bool" where
  "represents c l \<longleftrightarrow>
     0 < BucketNum c \<and> BucketNum c < 2 ^ 64 \<and> 0 < ctr_bucket_ms c \<and>
     ucast (ctr_total c) = counts (ctr_buckets c) \<and>
     (\<forall>i < BucketNum c.
        (bucket_occupied (ctr_buckets c ! i) \<longrightarrow> bucket_id (ctr_buckets c ! i) mod BucketNum c = i) \<and>
        bucket_count (ctr_buckets c ! i) = log_group (BucketNum c) i l) \<and>
     (\<forall>e \<in> set l. bucket_occupied (ctr_buckets c ! (fst e mod BucketNum c)) \<and>
                  bucket_id (ctr_buckets c ! (fst e mod BucketNum c)) = fst e)"

lemma window_minimum_eq:
  assumes "0 < n" "now_bucket < 2 ^ 64"
  shows "window_minimum n now_bucket = Suc now_bucket - n"
  using assms sub64_add64_one [of n now_bucket] by (auto simp: window_minimum_def)

lemma in_window_iff:
  assumes "0 < n" "now_bucket < 2 ^ 64"
  shows "in_window n now_bucket b \<longleftrightarrow> window_minimum n now_bucket \<le> b \<and> b \<le> now_bucket"
  using assms by (auto simp: in_window_def window_minimum_eq)

lemma in_window_mod_unique:
  assumes "in_window n nb a" "in_window n nb b" "a mod n = b mod n"
  shows "a = b"
proof (cases "a \<le> b")
  case True
  then have "b - a < n" using assms(1,2) unfolding in_window_def by linarith
  with True show ?thesis using mod_window_unique assms(3) by blast
next
  case False
  then have "b \<le> a" "a - b < n" using assms(1,2) unfolding in_window_def by linarith+
  then show ?thesis using mod_window_unique [of b a n] assms(3) by simp
qed

lemma log_group_split:
  assumes "0 < n"
  shows "(\<Sum>i < n. log_group n i l) = log_total l"
proof (induction l)
  case (Cons e l)
  have "log_group n i (e # l) = (if i = fst e mod n then snd e else 0) + log_group n i l" for i
    by (auto simp: log_group_def log_total_def)
  then have "(\<Sum>i < n. log_group n i (e # l)) =
      (\<Sum>i < n. if i = fst e mod n then snd e else 0) + (\<Sum>i < n. log_group n i l)"
    by (simp only: sum.distrib)
  also have "(\<Sum>i < n. if i = fst e mod n then snd e else 0) = snd e"
    using assms by (simp only: sum.delta finite_lessThan lessThan_iff mod_less_divisor if_True)
  finally show ?case using Cons by (simp add: log_total_def)
qed (simp add: log_group_def log_total_def)

lemma represents_total:
  assumes "represents c l"
  shows "ucast (ctr_total c) = log_total l"
proof -
  have "counts (ctr_buckets c) = (\<Sum>i < BucketNum c. log_group (BucketNum c) i l)"
    using assms by (simp add: represents_def counts_def sum_list_sum_nth atLeast0LessThan)
  then show ?thesis using assms log_group_split [where n = "BucketNum c" and l = l]
    by (simp add: represents_def)
qed

definition drop_dead :: "nat \<Rightarrow> nat \<Rightarrow> counter_bucket \<Rightarrow> counter_bucket" where
  "drop_dead mn nb b =
     (if bucket_occupied b \<and> \<not> (mn \<le> bucket_id b \<and> bucket_id b \<le> nb) then empty_bucket else b)"

lemma counts_simps [simp]: "counts [] = 0" "counts (b # bs) = bucket_count b + counts bs"
  by (simp_all add: counts_def)

lemma expire_buckets_eq:
  "fst (expire_buckets mn nb bs tot) = map (drop_dead mn nb) bs \<and>
   ucast (snd (expire_buckets mn nb bs tot)) + counts bs =
     ucast tot + counts (map (drop_dead mn nb) bs)"
proof (induction bs arbitrary: tot)
  case (Cons b bs)
  show ?case
  proof (cases "\<not> bucket_occupied b \<or> (mn \<le> bucket_id b \<and> bucket_id b \<le> nb)")
    case True
    then have "drop_dead mn nb b = b" by (auto simp: drop_dead_def)
    then show ?thesis using True Cons [of tot] by (simp add: case_prod_beta algebra_simps)
  next
    case False
    then have "drop_dead mn nb b = empty_bucket" by (auto simp: drop_dead_def)
    then show ?thesis using False Cons [of "tot - ucast (bucket_count b)"]
      by (auto simp: case_prod_beta ucast_sub32 empty_bucket_def algebra_simps)
  qed
qed simp

lemma represents_group:
  assumes "represents c l" "i < BucketNum c"
  shows "filter (\<lambda>e. fst e mod BucketNum c = i) l =
    (if bucket_occupied (ctr_buckets c ! i)
     then filter (\<lambda>e. fst e = bucket_id (ctr_buckets c ! i)) l else [])"
  using assms by (auto simp: represents_def filter_empty_conv intro!: filter_cong)

lemma expire_represents:
  assumes rep: "represents c l" and now: "now < 2 ^ 64"
    and n: "n = BucketNum c" and nb: "nb = now div ctr_bucket_ms c"
  shows "represents (counter_expire now c) (log_expire n nb l)"
    and "ctr_buckets (counter_expire now c) =
      map (drop_dead (window_minimum n nb) nb) (ctr_buckets c)"
    and "ctr_bucket_ms (counter_expire now c) = ctr_bucket_ms c"
proof -
  have pos: "0 < n" "nb < 2 ^ 64"
    using rep le_less_trans [OF div_le_dividend now] by (auto simp: represents_def n nb)
  note win = in_window_iff [OF pos]
  let ?D = "drop_dead (window_minimum n nb) nb"
  define tot where "tot = snd (expire_buckets (window_minimum n nb) nb (ctr_buckets c) (ctr_total c))"
  have c': "counter_expire now c = c\<lparr>ctr_buckets := map ?D (ctr_buckets c), ctr_total := tot\<rparr>"
    using expire_buckets_eq [of "window_minimum n nb" nb "ctr_buckets c" "ctr_total c"]
    by (simp add: counter_expire_def n nb tot_def case_prod_beta Let_def)
  have tot: "ucast tot = counts (map ?D (ctr_buckets c))"
    using expire_buckets_eq [of "window_minimum n nb" nb "ctr_buckets c" "ctr_total c"] rep
    by (simp add: tot_def represents_def)
  have count: "bucket_count (?D (ctr_buckets c ! i)) = log_group n i (log_expire n nb l)" if "i < n" for i
  proof (cases "bucket_occupied (ctr_buckets c ! i) \<and> \<not> in_window n nb (bucket_id (ctr_buckets c ! i))")
    case True
    then have "filter (\<lambda>e. fst e mod n = i) (log_expire n nb l) = []"
      using rep that by (auto simp: log_expire_def filter_empty_conv represents_def n)
    then show ?thesis using True
      by (simp add: drop_dead_def win log_group_def log_total_def empty_bucket_def)
  next
    case False
    then have "filter (\<lambda>e. fst e mod n = i) (log_expire n nb l) = filter (\<lambda>e. fst e mod n = i) l"
      unfolding log_expire_def filter_filter
      using rep by (intro filter_cong refl) (auto simp: represents_def n)
    then show ?thesis using False rep that
      by (auto simp: drop_dead_def win log_group_def represents_def n [symmetric])
  qed
  show "represents (counter_expire now c) (log_expire n nb l)"
    using rep tot count
    by (auto simp: represents_def c' n [symmetric] log_expire_def drop_dead_def win empty_bucket_def)
  show "ctr_buckets (counter_expire now c) = map ?D (ctr_buckets c)"
    "ctr_bucket_ms (counter_expire now c) = ctr_bucket_ms c"
    by (simp_all add: c')
qed

lemma log_group_snoc:
  "log_group n i (l @ [e]) = log_group n i l + (if fst e mod n = i then snd e else 0)"
  by (simp add: log_group_def log_total_def)

lemma counts_update:
  "i < length bs \<Longrightarrow> counts (bs[i := b]) = counts bs - bucket_count (bs ! i) + bucket_count b"
  by (induction bs arbitrary: i) (auto simp: nth_Cons' algebra_simps split: nat.split)

text \<open>Adding to a counter whose occupied buckets are all in the window.\<close>

lemma insert_represents:
  assumes rep: "represents c l" and n: "n = BucketNum c" and i: "i = eb mod n"
    and own: "bucket_occupied (ctr_buckets c ! i) \<Longrightarrow> bucket_id (ctr_buckets c ! i) = eb"
    and b2: "b2 = \<lparr>bucket_id = eb, bucket_count = bucket_count (ctr_buckets c ! i) + delta,
      bucket_occupied = True\<rparr>"
    and tot: "ucast tot = (ucast (ctr_total c) :: u32) + delta"
  shows "represents (c\<lparr>ctr_buckets := (ctr_buckets c)[i := b2], ctr_total := tot\<rparr>) (l @ [(eb, delta)])"
proof -
  have pos: "0 < n" "i < n" using rep by (auto simp: represents_def n i)
  have "counts ((ctr_buckets c)[i := b2]) = ucast tot"
    using rep tot pos(2) n by (simp add: counts_update b2 represents_def)
  then show ?thesis
    using rep own pos by (auto simp: represents_def n [symmetric] nth_list_update b2 log_group_snoc i)
qed

lemma add_represents:
  assumes rep: "represents c l" and now: "now < 2 ^ 64"
    and n: "n = BucketNum c" and nb: "nb = now div ctr_bucket_ms c"
    and eb: "eb = ev div ctr_bucket_ms c"
  shows "represents (fst (counter_add ev now delta c)) (fst (log_add n eb nb delta l)) \<and>
    snd (counter_add ev now delta c) = snd (log_add n eb nb delta l) \<and>
    BucketNum (fst (counter_add ev now delta c)) = n \<and>
    ctr_bucket_ms (fst (counter_add ev now delta c)) = ctr_bucket_ms c"
proof -
  define c1 where "c1 = counter_expire now c"
  note ex = expire_represents [OF rep now n nb, folded c1_def]
  have len: "BucketNum c1 = n" by (simp add: ex(2) n)
  have pos: "0 < n" "nb < 2 ^ 64"
    using rep le_less_trans [OF div_le_dividend now] by (auto simp: represents_def n nb)
  show ?thesis
  proof (cases "in_window n nb eb")
    case False
    then have "counter_add ev now delta c = (c1, False)"
      by (auto simp: counter_add_def c1_def [symmetric] ex(3) eb [symmetric] nb [symmetric] len in_window_def)
    then show ?thesis using False ex len by (simp add: log_add_def)
  next
    case True
    define i where "i = eb mod n"
    define b where "b = ctr_buckets c1 ! i"
    have i: "i < n" using pos by (simp add: i_def)
    have own: "bucket_id b = eb" if occ: "bucket_occupied b"
    proof -
      have "in_window n nb (bucket_id b)"
        using occ i by (auto simp: b_def ex(2) n [symmetric] drop_dead_def in_window_iff [OF pos] empty_bucket_def
            split: if_splits)
      moreover have "bucket_id b mod n = eb mod n"
        using occ i ex(1) by (auto simp: b_def represents_def len i_def)
      ultimately show ?thesis using in_window_mod_unique True by blast
    qed
    have zero: "\<not> bucket_occupied b \<Longrightarrow> bucket_count b = 0"
      using represents_group [OF ex(1), of i] i ex(1)
      by (auto simp: b_def represents_def len log_group_def log_total_def)
    define b2 where "b2 = \<lparr>bucket_id = eb, bucket_count = bucket_count b + delta, bucket_occupied = True\<rparr>"
    have "counter_add ev now delta c =
        (c1\<lparr>ctr_buckets := (ctr_buckets c1)[i := b2], ctr_total := ctr_total c1 + ucast delta\<rparr>, True)"
      using True own zero
      by (cases "bucket_occupied b"; cases b)
         (auto simp: counter_add_def c1_def [symmetric] ex(3) eb [symmetric] nb [symmetric] len
           in_window_def Let_def b_def [symmetric] i_def [symmetric] b2_def)
    then show ?thesis
      using True ex(1,3) len own
        insert_represents [OF ex(1) len [symmetric] i_def, of b2 delta "ctr_total c1 + ucast delta"]
      by (simp add: log_add_def b_def b2_def ucast_add32)
  qed
qed

lemma sum_represents:
  assumes rep: "represents c l" and now: "now < 2 ^ 64"
    and n: "n = BucketNum c" and nb: "nb = now div ctr_bucket_ms c"
  shows "represents (fst (counter_sum now c)) (log_expire n nb l) \<and>
    snd (counter_sum now c) = log_total (log_expire n nb l) \<and>
    BucketNum (fst (counter_sum now c)) = n \<and>
    ctr_bucket_ms (fst (counter_sum now c)) = ctr_bucket_ms c"
  using expire_represents [OF assms] represents_total [OF expire_represents(1) [OF assms]] n
  by (simp add: counter_sum_def Let_def)

lemma create_represents:
  assumes "counter_create n ms = Some c" "0 < n" "n < 2 ^ 64"
  shows "represents c []" "BucketNum c = n" "ctr_bucket_ms c = ms"
  using assms
  by (auto simp: counter_create_def represents_def empty_bucket_def log_group_def log_total_def
      counts_def sum_list_replicate split: if_splits)

section \<open>Sequences of calls\<close>

datatype counter_call = CallAdd nat nat u32 | CallSum nat

datatype counter_result = Added bool | Total u32

fun counter_exec :: "counter_call \<Rightarrow> sliding_counter \<Rightarrow> sliding_counter \<times> counter_result" where
  "counter_exec (CallAdd ev now delta) c = apsnd Added (counter_add ev now delta c)"
| "counter_exec (CallSum now) c = apsnd Total (counter_sum now c)"

fun log_exec :: "nat \<Rightarrow> nat \<Rightarrow> counter_call \<Rightarrow> event_log \<Rightarrow> event_log \<times> counter_result" where
  "log_exec n ms (CallAdd ev now delta) l =
     apsnd Added (log_add n (ev div ms) (now div ms) delta l)"
| "log_exec n ms (CallSum now) l =
     (let l' = log_expire n (now div ms) l in (l', Total (log_total l')))"

fun call_clock :: "counter_call \<Rightarrow> nat" where
  "call_clock (CallAdd ev now delta) = now"
| "call_clock (CallSum now) = now"

lemma exec_represents:
  assumes "represents c l" "call_clock x < 2 ^ 64" "n = BucketNum c" "ms = ctr_bucket_ms c"
  shows "represents (fst (counter_exec x c)) (fst (log_exec n ms x l)) \<and>
    snd (counter_exec x c) = snd (log_exec n ms x l) \<and>
    BucketNum (fst (counter_exec x c)) = n \<and> ctr_bucket_ms (fst (counter_exec x c)) = ms"
  using assms add_represents [of c l] sum_represents [of c l]
  by (cases x) (auto simp: Let_def)

lemma run_represents:
  assumes "represents c l" "\<forall>x \<in> set xs. call_clock x < 2 ^ 64" "n = BucketNum c" "ms = ctr_bucket_ms c"
  shows "represents (fst (run_calls counter_exec xs c)) (fst (run_calls (log_exec n ms) xs l)) \<and>
    snd (run_calls counter_exec xs c) = snd (run_calls (log_exec n ms) xs l) \<and>
    BucketNum (fst (run_calls counter_exec xs c)) = n \<and>
    ctr_bucket_ms (fst (run_calls counter_exec xs c)) = ms"
  using assms
proof (induction xs arbitrary: c l)
  case (Cons x xs)
  note e = exec_represents [OF Cons.prems(1) _ Cons.prems(3,4), of x]
  show ?case using Cons.prems e Cons.IH [of "fst (counter_exec x c)" "fst (log_exec n ms x l)"]
    by (simp add: case_prod_beta)
qed simp

text \<open>With a clock that never goes back, the log has a closed form.\<close>

type_synonym add_call = "nat \<times> nat \<times> u32"

definition add_calls :: "add_call list \<Rightarrow> counter_call list" where
  "add_calls = map (\<lambda>(ev, now, delta). CallAdd ev now delta)"

definition counted :: "nat \<Rightarrow> nat \<Rightarrow> nat \<Rightarrow> add_call list \<Rightarrow> event_log" where
  "counted n ms now_bucket adds =
     map (\<lambda>(ev, t, delta). (ev div ms, delta))
       (filter (\<lambda>(ev, t, delta). ev div ms \<le> t div ms \<and> in_window n now_bucket (ev div ms)) adds)"

text \<open>\<open>counter_holds n ms c adds t\<close>: at time \<open>t\<close> the counter answers, now and at any later time, for
  the add calls \<open>adds\<close>.\<close>

definition counter_holds :: "nat \<Rightarrow> nat \<Rightarrow> sliding_counter \<Rightarrow> add_call list \<Rightarrow> nat \<Rightarrow> bool" where
  "counter_holds n ms c adds t \<longleftrightarrow>
     (\<exists>l. represents c l \<and> BucketNum c = n \<and> ctr_bucket_ms c = ms \<and>
        (\<forall>e \<in> set l. fst e \<le> t div ms) \<and>
        (\<forall>now \<ge> t. log_expire n (now div ms) l = counted n ms (now div ms) adds))"

lemma log_expire_append: "log_expire n nb (x @ y) = log_expire n nb x @ log_expire n nb y"
  by (simp add: log_expire_def)

lemma log_expire_again:
  assumes "\<forall>e \<in> set l. fst e \<le> t" "t \<le> now"
  shows "log_expire n now (log_expire n t l) = log_expire n now l"
  using assms unfolding log_expire_def filter_filter
  by (intro filter_cong refl) (auto simp: in_window_def)

lemma counter_holds_mono:
  "counter_holds n ms c adds t0 \<Longrightarrow> t0 \<le> t \<Longrightarrow> counter_holds n ms c adds t"
  unfolding counter_holds_def by (meson div_le_mono order_trans)

lemma counter_holds_create:
  assumes "counter_create n ms = Some c" "0 < n" "n < 2 ^ 64"
    and "\<forall>a \<in> set adds. fst a + n * ms \<le> t"
  shows "counter_holds n ms c adds t"
proof -
  have ms: "0 < ms" using assms(1) by (auto simp: counter_create_def split: if_splits)
  have "counted n ms (now div ms) adds = []" if "t \<le> now" for now
  proof -
    have "fst a div ms + n \<le> now div ms" if "a \<in> set adds" for a
      using assms(4) that \<open>t \<le> now\<close> ms div_le_mono [of "fst a + n * ms" now ms] by fastforce
    then show ?thesis by (fastforce simp: counted_def filter_empty_conv in_window_def)
  qed
  then show ?thesis
    using create_represents [OF assms(1-3)]
    by (auto simp: counter_holds_def log_expire_def intro!: exI [of _ "[]"])
qed

lemma counter_holds_add:
  assumes "counter_holds n ms c adds t0" "t0 \<le> t" "t < 2 ^ 64"
  shows "counter_holds n ms (fst (counter_add ev t d c)) (adds @ [(ev, t, d)]) t"
proof -
  obtain l where l: "represents c l" "BucketNum c = n" "ctr_bucket_ms c = ms"
    "\<forall>e \<in> set l. fst e \<le> t0 div ms"
    "\<forall>now \<ge> t0. log_expire n (now div ms) l = counted n ms (now div ms) adds"
    using assms(1) by (auto simp: counter_holds_def)
  define new where "new = (if in_window n (t div ms) (ev div ms) then [(ev div ms, d)] else [])"
  define l' where "l' = log_expire n (t div ms) l @ new"
  have "fst (log_add n (ev div ms) (t div ms) d l) = l'"
    by (simp add: log_add_def l'_def new_def Let_def)
  then have rep: "represents (fst (counter_add ev t d c)) l'"
      "BucketNum (fst (counter_add ev t d c)) = n" "ctr_bucket_ms (fst (counter_add ev t d c)) = ms"
    using add_represents [OF l(1) assms(3), of n "t div ms" "ev div ms" ev d] l(2,3) by auto
  have le: "\<forall>e \<in> set l. fst e \<le> t div ms"
    using l(4) assms(2) by (meson div_le_mono order_trans)
  then have le': "\<forall>e \<in> set l'. fst e \<le> t div ms"
    by (auto simp: l'_def new_def log_expire_def in_window_def)
  have "log_expire n (now div ms) l' = counted n ms (now div ms) (adds @ [(ev, t, d)])"
    if "t \<le> now" for now
  proof -
    have tn: "t div ms \<le> now div ms" using that by (rule div_le_mono)
    have "counted n ms (now div ms) (adds @ [(ev, t, d)]) =
        counted n ms (now div ms) adds @ log_expire n (now div ms) new"
      using tn by (auto simp: counted_def new_def log_expire_def in_window_def)
    moreover have "log_expire n (now div ms) l = counted n ms (now div ms) adds"
      using l(5) assms(2) that by simp
    ultimately show ?thesis by (simp add: l'_def log_expire_append log_expire_again [OF le tn])
  qed
  then show ?thesis using rep le' by (auto simp: counter_holds_def)
qed

lemma counter_holds_sum:
  assumes "counter_holds n ms c adds t0" "t0 \<le> t" "t < 2 ^ 64"
  shows "counter_holds n ms (fst (counter_sum t c)) adds t"
    and "snd (counter_sum t c) = log_total (counted n ms (t div ms) adds)"
proof -
  obtain l where l: "represents c l" "BucketNum c = n" "ctr_bucket_ms c = ms"
    "\<forall>e \<in> set l. fst e \<le> t0 div ms"
    "\<forall>now \<ge> t0. log_expire n (now div ms) l = counted n ms (now div ms) adds"
    using assms(1) by (auto simp: counter_holds_def)
  have le: "\<forall>e \<in> set l. fst e \<le> t div ms"
    using l(4) assms(2) by (meson div_le_mono order_trans)
  note sum = sum_represents [OF l(1) assms(3), of n "t div ms"]
  have "log_expire n (now div ms) (log_expire n (t div ms) l) = counted n ms (now div ms) adds"
    if "t \<le> now" for now
    unfolding log_expire_again [OF le div_le_mono [OF that]] using l(5) assms(2) that by simp
  moreover have "\<forall>e \<in> set (log_expire n (t div ms) l). fst e \<le> t div ms"
    by (simp add: log_expire_def in_window_def)
  ultimately show "counter_holds n ms (fst (counter_sum t c)) adds t"
    using sum l(2,3) by (auto simp: counter_holds_def)
  show "snd (counter_sum t c) = log_total (counted n ms (t div ms) adds)"
    using sum l(2,3,5) assms(2) by simp
qed

lemma counter_holds_run:
  assumes "counter_holds n ms c [] t0" "sorted (map (\<lambda>a. fst (snd a)) adds)"
    "\<forall>a \<in> set adds. t0 \<le> fst (snd a) \<and> fst (snd a) \<le> now" "t0 \<le> now" "now < 2 ^ 64"
  shows "counter_holds n ms (fst (run_calls counter_exec (add_calls adds) c)) adds now"
  using assms(2-)
proof (induction adds arbitrary: now rule: rev_induct)
  case Nil
  then show ?case using counter_holds_mono [OF assms(1)] by (simp add: add_calls_def)
next
  case (snoc a adds)
  obtain ev t d where a: "a = (ev, t, d)" by (cases a)
  define c' where "c' = fst (run_calls counter_exec (add_calls adds) c)"
  have "counter_holds n ms c' adds t"
    using snoc.IH [of t] snoc.prems by (auto simp: a sorted_append c'_def)
  then have "counter_holds n ms (fst (counter_add ev t d c')) (adds @ [a]) t"
    using counter_holds_add [of n ms c' adds t t ev d] snoc.prems by (simp add: a)
  moreover have "fst (run_calls counter_exec (add_calls (adds @ [a])) c) = fst (counter_add ev t d c')"
    by (simp add: add_calls_def run_calls_append case_prod_beta a c'_def Let_def)
  ultimately show ?case using snoc.prems counter_holds_mono by (auto simp: a)
qed

section \<open>Properties\<close>

text \<open>
  C25.  The counter is its event log.  For every sequence of add and sum calls and every behaviour
  of the clock (going back included), the ring of buckets returns exactly what a plain log of the
  accepted events returns: the same acceptances and, modulo 2^32, the same sums.
\<close>

theorem counter_matches_log:
  assumes "counter_create n ms = Some c" "0 < n" "n < 2 ^ 64"
    and "\<forall>x \<in> set calls. call_clock x < 2 ^ 64"
  shows "snd (run_calls counter_exec calls c) = snd (run_calls (log_exec n ms) calls [])"
  using run_represents [of c "[]" calls n ms] create_represents [OF assms(1-3)] assms(4) by simp

theorem counter_matches_log_witness:
  "\<exists>c. counter_create 60 5000 = Some c \<and>
     snd (run_calls counter_exec [CallAdd 1000 2000 1, CallAdd 9000 400000 1, CallSum 2000] c) =
     [Added True, Added False, Total 0]"
proof -
  obtain c where c: "counter_create 60 5000 = Some c" by (simp add: counter_create_def)
  then show ?thesis
    using counter_matches_log [OF c, of "[CallAdd 1000 2000 1, CallAdd 9000 400000 1, CallSum 2000]"]
    by (simp add: log_add_def log_expire_def in_window_def log_total_def)
qed

text \<open>
  The counter counts the window.  With a clock that does not go back, the sum is the total of
  exactly the added events that were not in the future when added and whose bucket is among the
  last \<open>n\<close> buckets up to now, whatever was added and expired in between.
\<close>

theorem counter_window_sum:
  assumes "counter_create n ms = Some c" "0 < n" "n < 2 ^ 64"
    and "sorted (map (\<lambda>a. fst (snd a)) adds)" "\<forall>a \<in> set adds. fst (snd a) \<le> now" "now < 2 ^ 64"
  shows "snd (counter_sum now (fst (run_calls counter_exec (add_calls adds) c))) =
           log_total (counted n ms (now div ms) adds)"
  using counter_holds_sum(2) [OF counter_holds_run [OF _ assms(4) _ _ assms(6), of n ms c 0] _ assms(6)]
    counter_holds_create [OF assms(1-3), of "[]" 0] assms(5) by simp

theorem counter_window_sum_witness:
  "\<exists>c. counter_create 60 5000 = Some c \<and>
     snd (counter_sum 304999 (fst (run_calls counter_exec
       (add_calls [(1000, 2000, 1), (299999, 300000, 2)]) c))) = 2"
proof -
  obtain c where c: "counter_create 60 5000 = Some c" by (simp add: counter_create_def)
  then show ?thesis
    using counter_window_sum [OF c, of "[(1000, 2000, 1), (299999, 300000, 2)]" 304999]
    by (simp add: counted_def in_window_def log_total_def)
qed

end
