(* ===== verification/Sliding_Distinct.thy ===== *)
theory Sliding_Distinct
  imports Priority_Queue Sliding_Counter "HOL-Library.AList"
begin

text \<open>
  The sliding-window distinct-member set
  (\<open>include/aegisflow/feature/sliding_distinct.hpp\<close>): a hash map from member to its
  latest bucket, and a heap of (bucket, member) nodes with lazily deleted duplicates.  The
  unordered map is an association list with distinct keys; allocation failure is not modelled.
\<close>

section \<open>Model\<close>

type_synonym distinct_entry = "nat \<times> string"

record sliding_distinct =
  sd_window_bucket_num :: nat
  sd_bucket_ms :: nat
  sd_max_members :: nat
  sd_last_now_bucket :: nat
  sd_clock_initialized :: bool
  sd_last_seen_bucket :: "(string \<times> nat) list"
  sd_expired_queue :: "distinct_entry list"

definition distinct_create :: "nat \<Rightarrow> nat \<Rightarrow> nat \<Rightarrow> sliding_distinct option" where
  "distinct_create window_ms bucket_ms max_members =
     (if window_ms = 0 \<or> bucket_ms = 0 \<or> window_ms < bucket_ms \<or> window_ms mod bucket_ms \<noteq> 0 \<or>
         max_members = 0
      then None
      else Some \<lparr>sd_window_bucket_num = window_ms div bucket_ms, sd_bucket_ms = bucket_ms,
                 sd_max_members = max_members, sd_last_now_bucket = 0,
                 sd_clock_initialized = False, sd_last_seen_bucket = [], sd_expired_queue = []\<rparr>)"

definition minValidBucket :: "sliding_distinct \<Rightarrow> nat \<Rightarrow> nat" where
  "minValidBucket d now_bucket =
     (if now_bucket < sd_window_bucket_num d then 0
      else add64 (sub64 now_bucket (sd_window_bucket_num d)) 1)"

text \<open>The body of the loop of \<open>expire\<close>, without the pop.\<close>

definition erase_if_latest :: "distinct_entry \<Rightarrow> (string \<times> nat) list \<Rightarrow> (string \<times> nat) list" where
  "erase_if_latest entry m =
     (if map_of m (snd entry) = Some (fst entry) then AList.delete (snd entry) m else m)"

definition distinct_expire :: "nat \<Rightarrow> sliding_distinct \<Rightarrow> sliding_distinct" where
  "distinct_expire now_ms d =
     (let now_bucket = now_ms div sd_bucket_ms d;
          d1 = (if sd_clock_initialized d \<and> now_bucket < sd_last_now_bucket d
                then d\<lparr>sd_last_seen_bucket := [], sd_expired_queue := []\<rparr> else d);
          d2 = d1\<lparr>sd_clock_initialized := True, sd_last_now_bucket := now_bucket\<rparr>;
          mn = minValidBucket d2 now_bucket;
          (q, m) = pq_while pq_top pq_pop (\<lambda>entry _. fst entry < mn) erase_if_latest
                     (length (sd_expired_queue d2)) (sd_expired_queue d2) (sd_last_seen_bucket d2)
      in d2\<lparr>sd_expired_queue := q, sd_last_seen_bucket := m\<rparr>)"

definition distinct_add ::
  "string \<Rightarrow> nat \<Rightarrow> nat \<Rightarrow> sliding_distinct \<Rightarrow> sliding_distinct \<times> bool" where
  "distinct_add member event_ts_ms now_ms d0 =
     (let d = distinct_expire now_ms d0;
          event_bucket = event_ts_ms div sd_bucket_ms d;
          now_bucket = now_ms div sd_bucket_ms d
      in if event_bucket > now_bucket \<or> event_bucket < minValidBucket d now_bucket then (d, False)
         else case map_of (sd_last_seen_bucket d) member of
             Some seen \<Rightarrow>
               if event_bucket \<le> seen then (d, True)
               else (d\<lparr>sd_expired_queue := pq_push fst (event_bucket, member) (sd_expired_queue d),
                       sd_last_seen_bucket :=
                         AList.update member event_bucket (sd_last_seen_bucket d)\<rparr>, True)
           | None \<Rightarrow>
               if length (sd_last_seen_bucket d) \<ge> sd_max_members d then (d, False)
               else (d\<lparr>sd_last_seen_bucket :=
                         AList.update member event_bucket (sd_last_seen_bucket d),
                       sd_expired_queue :=
                         pq_push fst (event_bucket, member) (sd_expired_queue d)\<rparr>, True))"

definition distinct_count :: "nat \<Rightarrow> sliding_distinct \<Rightarrow> sliding_distinct \<times> u32" where
  "distinct_count now_ms d0 =
     (let d = distinct_expire now_ms d0 in (d, of_nat (length (sd_last_seen_bucket d))))"

definition activeMemberCount :: "sliding_distinct \<Rightarrow> nat" where
  "activeMemberCount d = length (sd_last_seen_bucket d)"

interpretation bucket_queue: priority_queue
  "\<lambda>h. sorted (map fst h)" "[]" "pq_push fst" pq_top pq_pop mset "fst :: distinct_entry \<Rightarrow> nat"
  by (rule list_queue_laws)

section \<open>Reference: the latest bucket of every member\<close>

record distinct_spec =
  ds_clock :: "nat option"
  ds_seen :: "string \<Rightarrow> nat option"

definition spec_expire :: "nat \<Rightarrow> nat \<Rightarrow> distinct_spec \<Rightarrow> distinct_spec" where
  "spec_expire w now_bucket s =
     (let seen = (case ds_clock s of
                    Some t \<Rightarrow> if now_bucket < t then Map.empty else ds_seen s
                  | None \<Rightarrow> ds_seen s)
      in \<lparr>ds_clock = Some now_bucket,
          ds_seen = (\<lambda>m. case seen m of
                       Some b \<Rightarrow> if Suc now_bucket - w \<le> b then Some b else None
                     | None \<Rightarrow> None)\<rparr>)"

definition spec_add ::
  "nat \<Rightarrow> nat \<Rightarrow> string \<Rightarrow> nat \<Rightarrow> nat \<Rightarrow> distinct_spec \<Rightarrow> distinct_spec \<times> bool" where
  "spec_add w cap member event_bucket now_bucket s0 =
     (let s = spec_expire w now_bucket s0
      in if \<not> in_window w now_bucket event_bucket then (s, False)
         else case ds_seen s member of
             Some b \<Rightarrow> (s\<lparr>ds_seen := (ds_seen s)(member \<mapsto> max b event_bucket)\<rparr>, True)
           | None \<Rightarrow> if cap \<le> card (dom (ds_seen s)) then (s, False)
                     else (s\<lparr>ds_seen := (ds_seen s)(member \<mapsto> event_bucket)\<rparr>, True))"

section \<open>Invariant and refinement\<close>

declare map_of_eq_Some_iff [simp del] Some_eq_map_of_iff [simp del]

definition distinct_wf :: "sliding_distinct \<Rightarrow> bool" where
  "distinct_wf d \<longleftrightarrow>
     0 < sd_window_bucket_num d \<and> 0 < sd_bucket_ms d \<and>
     sorted (map fst (sd_expired_queue d)) \<and> distinct (sd_expired_queue d) \<and>
     distinct (map fst (sd_last_seen_bucket d)) \<and>
     length (sd_last_seen_bucket d) \<le> sd_max_members d \<and>
     (\<forall>m b. map_of (sd_last_seen_bucket d) m = Some b \<longrightarrow> (b, m) \<in> set (sd_expired_queue d)) \<and>
     (\<forall>(b, m) \<in> set (sd_expired_queue d). b \<le> sd_last_now_bucket d \<and>
        (\<exists>b'. map_of (sd_last_seen_bucket d) m = Some b' \<and> b \<le> b')) \<and>
     (\<not> sd_clock_initialized d \<longrightarrow> sd_expired_queue d = [])"

definition tracks :: "sliding_distinct \<Rightarrow> distinct_spec \<Rightarrow> bool" where
  "tracks d s \<longleftrightarrow> distinct_wf d \<and>
     ds_clock s = (if sd_clock_initialized d then Some (sd_last_now_bucket d) else None) \<and>
     ds_seen s = map_of (sd_last_seen_bucket d)"

lemma minValidBucket_eq:
  assumes "0 < sd_window_bucket_num d" "now_bucket < 2 ^ 64"
  shows "minValidBucket d now_bucket = Suc now_bucket - sd_window_bucket_num d"
  using assms sub64_add64_one [of "sd_window_bucket_num d" now_bucket]
  by (auto simp: minValidBucket_def)

text \<open>Popping the nodes below a bound removes exactly the members whose latest bucket is below it.\<close>

lemma fold_erase:
  assumes "distinct (map fst m)" "\<forall>x b. map_of m x = Some b \<and> b < mn \<longrightarrow> (b, x) \<in> set es"
    and "\<forall>(b, x) \<in> set es. b < mn"
  shows "map_of (fold erase_if_latest es m) =
      (\<lambda>x. case map_of m x of Some b \<Rightarrow> if mn \<le> b then Some b else None | None \<Rightarrow> None) \<and>
    distinct (map fst (fold erase_if_latest es m)) \<and>
    length (fold erase_if_latest es m) \<le> length m"
  using assms
proof (induction es arbitrary: m)
  case Nil
  then show ?case by (auto simp: fun_eq_iff not_le split: option.split)
next
  case (Cons e es)
  obtain eb em where e: "e = (eb, em)" by (cases e)
  define m1 where "m1 = erase_if_latest (eb, em) m"
  have del: "map_of m1 = (if map_of m em = Some eb then (map_of m)(em := None) else map_of m)"
    by (auto simp: erase_if_latest_def delete_conv m1_def)
  have m1: "distinct (map fst m1)" "length m1 \<le> length m"
    using Cons.prems(1) length_delete_le [of em m]
    by (auto simp: erase_if_latest_def distinct_delete m1_def)
  moreover have "\<forall>x b. map_of m1 x = Some b \<and> b < mn \<longrightarrow> (b, x) \<in> set es"
    using Cons.prems(2) by (auto simp: del e split: if_splits)
  ultimately have IH: "map_of (fold erase_if_latest es m1) =
      (\<lambda>x. case map_of m1 x of Some b \<Rightarrow> if mn \<le> b then Some b else None | None \<Rightarrow> None) \<and>
    distinct (map fst (fold erase_if_latest es m1)) \<and> length (fold erase_if_latest es m1) \<le> length m1"
    using Cons.prems(3) by (intro Cons.IH) auto
  then show ?case using m1(2) Cons.prems(3)
    by (auto simp: e m1_def [symmetric]) (auto simp: del fun_eq_iff split: option.split)
qed

lemma expire_tracks:
  assumes tr: "tracks d s" and now: "now < 2 ^ 64" and nb: "nb = now div sd_bucket_ms d"
    and w: "w = sd_window_bucket_num d"
  shows "tracks (distinct_expire now d) (spec_expire w nb s)"
    and "sd_window_bucket_num (distinct_expire now d) = w"
    and "sd_bucket_ms (distinct_expire now d) = sd_bucket_ms d"
    and "sd_max_members (distinct_expire now d) = sd_max_members d"
    and "sd_last_now_bucket (distinct_expire now d) = nb"
    and "\<forall>(b, m) \<in> set (sd_expired_queue (distinct_expire now d)). Suc nb - w \<le> b"
proof -
  define d1 where "d1 = (if sd_clock_initialized d \<and> nb < sd_last_now_bucket d
      then d\<lparr>sd_last_seen_bucket := [], sd_expired_queue := []\<rparr> else d)"
  define d2 where "d2 = d1\<lparr>sd_clock_initialized := True, sd_last_now_bucket := nb\<rparr>"
  define mn where "mn = Suc nb - w"
  have wf: "distinct_wf d" using tr by (simp add: tracks_def)
  have pos: "0 < w" "0 < sd_bucket_ms d" "nb < 2 ^ 64"
    using wf le_less_trans [OF div_le_dividend now] by (auto simp: distinct_wf_def w nb)
  have same: "sd_window_bucket_num d2 = w" "sd_bucket_ms d2 = sd_bucket_ms d"
    "sd_max_members d2 = sd_max_members d"
    by (simp_all add: d2_def d1_def w)
  have wf2: "distinct_wf d2"
    using wf by (fastforce simp: distinct_wf_def d2_def d1_def)
  obtain q es where q: "pq_while pq_top pq_pop (\<lambda>e _. fst e < mn) erase_if_latest
      (length (sd_expired_queue d2)) (sd_expired_queue d2) (sd_last_seen_bucket d2) =
      (q, fold erase_if_latest es (sd_last_seen_bucket d2))"
      "sorted (map fst q)" "mset es = filter_mset (\<lambda>e. fst e < mn) (mset (sd_expired_queue d2))"
      "mset q = filter_mset (\<lambda>e. \<not> fst e < mn) (mset (sd_expired_queue d2))"
    using bucket_queue.drain_below [of "sd_expired_queue d2" "length (sd_expired_queue d2)" mn
        erase_if_latest "sd_last_seen_bucket d2"] wf2
    by (auto simp: distinct_wf_def)
  define m where "m = fold erase_if_latest es (sd_last_seen_bucket d2)"
  have "mset q = mset (filter (\<lambda>e. \<not> fst e < mn) (sd_expired_queue d2))"
    by (simp add: q(4) mset_filter)
  then have "distinct q"
    using wf2 mset_eq_imp_distinct_iff distinct_filter unfolding distinct_wf_def by metis
  moreover have "set es = {e \<in> set (sd_expired_queue d2). fst e < mn}"
    "set q = {e \<in> set (sd_expired_queue d2). \<not> fst e < mn}"
    using arg_cong [OF q(3), of set_mset] arg_cong [OF q(4), of set_mset] by auto
  ultimately have sets: "set es = {e \<in> set (sd_expired_queue d2). fst e < mn}"
    "set q = {e \<in> set (sd_expired_queue d2). \<not> fst e < mn}" "distinct q" by blast+
  have m: "map_of m = (\<lambda>x. case map_of (sd_last_seen_bucket d2) x of
        Some b \<Rightarrow> if mn \<le> b then Some b else None | None \<Rightarrow> None)"
      "distinct (map fst m)" "length m \<le> length (sd_last_seen_bucket d2)"
    using fold_erase [of "sd_last_seen_bucket d2" mn es] wf2 sets(1)
    by (auto simp: m_def distinct_wf_def)
  have f: "sd_expired_queue d1 = sd_expired_queue d2" "sd_last_seen_bucket d1 = sd_last_seen_bucket d2"
    by (simp_all add: d2_def)
  have d': "distinct_expire now d = d2\<lparr>sd_expired_queue := q, sd_last_seen_bucket := m\<rparr>"
    using q(1) same(1) pos minValidBucket_eq [of d2 nb]
    by (simp add: distinct_expire_def nb [symmetric] d1_def [symmetric] d2_def [symmetric] mn_def
        m_def Let_def f)
  have in_q: "(b, x) \<in> set q" if "map_of m x = Some b" for b x
    using that wf2 by (auto simp: m(1) sets(2) distinct_wf_def split: option.splits if_splits)
  have of_q: "b \<le> nb \<and> (\<exists>b'. map_of m x = Some b' \<and> b \<le> b')" if bx: "(b, x) \<in> set q" for b x
  proof -
    have "(b, x) \<in> set (sd_expired_queue d2)" "mn \<le> b" using bx by (auto simp: sets(2))
    moreover from this(1) obtain b' where "map_of (sd_last_seen_bucket d2) x = Some b'" "b \<le> b'" "b \<le> nb"
      using wf2 by (fastforce simp: distinct_wf_def d2_def)
    ultimately show ?thesis by (simp add: m(1))
  qed
  have "distinct_wf (distinct_expire now d)"
    using wf2 q(2) sets(3) m(2,3) in_q of_q by (auto simp: distinct_wf_def d' d2_def)
  moreover have "ds_seen (spec_expire w nb s) = map_of m"
    using tr by (auto simp: tracks_def spec_expire_def m(1) mn_def d2_def d1_def fun_eq_iff split: option.split)
  ultimately show "tracks (distinct_expire now d) (spec_expire w nb s)"
    by (simp add: tracks_def d' spec_expire_def d2_def Let_def)
  show "sd_window_bucket_num (distinct_expire now d) = w"
    "sd_bucket_ms (distinct_expire now d) = sd_bucket_ms d"
    "sd_max_members (distinct_expire now d) = sd_max_members d"
    "sd_last_now_bucket (distinct_expire now d) = nb"
    "\<forall>(b, m) \<in> set (sd_expired_queue (distinct_expire now d)). Suc nb - w \<le> b"
    using sets(2) by (auto simp: d' same mn_def) (simp add: d2_def)
qed

lemma tracks_card:
  assumes "tracks d s"
  shows "card (dom (ds_seen s)) = length (sd_last_seen_bucket d)"
  using assms distinct_card [of "map fst (sd_last_seen_bucket d)"]
  by (simp add: tracks_def distinct_wf_def dom_map_of_conv_image_fst)

lemma insert_wf:
  assumes wf: "distinct_wf d" and init: "sd_clock_initialized d"
    and eb: "eb \<le> sd_last_now_bucket d"
    and newer: "\<forall>b. map_of (sd_last_seen_bucket d) member = Some b \<longrightarrow> b < eb"
    and room: "map_of (sd_last_seen_bucket d) member = None \<Longrightarrow>
      length (sd_last_seen_bucket d) < sd_max_members d"
  shows "distinct_wf (d\<lparr>sd_last_seen_bucket := AList.update member eb (sd_last_seen_bucket d),
      sd_expired_queue := pq_push fst (eb, member) (sd_expired_queue d)\<rparr>)"
proof -
  let ?m = "AList.update member eb (sd_last_seen_bucket d)"
  have m: "map_of ?m = (map_of (sd_last_seen_bucket d))(member \<mapsto> eb)" "distinct (map fst ?m)"
    using wf by (auto simp: update_conv' distinct_update distinct_wf_def)
  have "dom (map_of ?m) = fst ` set ?m" by (rule dom_map_of_conv_image_fst)
  then have "length ?m = card (insert member (dom (map_of (sd_last_seen_bucket d))))"
    using distinct_card [OF m(2)] by (simp add: m(1))
  also have "\<dots> \<le> sd_max_members d"
  proof -
    have "card (dom (map_of (sd_last_seen_bucket d))) = length (sd_last_seen_bucket d)"
      using wf distinct_card [of "map fst (sd_last_seen_bucket d)"]
      by (simp add: distinct_wf_def dom_map_of_conv_image_fst)
    then show ?thesis using wf room
      by (cases "member \<in> dom (map_of (sd_last_seen_bucket d))")
         (auto simp: distinct_wf_def card_insert_if finite_dom_map_of domIff)
  qed
  finally have len: "length ?m \<le> sd_max_members d" .
  have fresh: "(eb, member) \<notin> set (sd_expired_queue d)"
    using wf newer by (fastforce simp: distinct_wf_def)
  have "set (pq_push fst (eb, member) (sd_expired_queue d)) = insert (eb, member) (set (sd_expired_queue d))"
    "distinct (pq_push fst (eb, member) (sd_expired_queue d))"
    "sorted (map fst (pq_push fst (eb, member) (sd_expired_queue d)))"
    using wf fresh by (auto simp: pq_push_def set_insort_key distinct_insort sorted_insort_key distinct_wf_def)
  note q = this
  have old: "b \<le> sd_last_now_bucket d \<and> (\<exists>b'. map_of ?m x = Some b' \<and> b \<le> b')"
    if bx: "(b, x) \<in> set (sd_expired_queue d)" for b x
  proof -
    obtain b' where "map_of (sd_last_seen_bucket d) x = Some b'" "b \<le> b'" "b \<le> sd_last_now_bucket d"
      using wf bx by (fastforce simp: distinct_wf_def)
    then show ?thesis using newer by (cases "x = member") (auto simp: m(1) intro: less_imp_le)
  qed
  have "(a, member) \<in> set (sd_expired_queue d) \<Longrightarrow> a \<le> eb" for a
    using old [of a member] by (simp add: m(1))
  then show ?thesis
    using wf m len init eb old q by (auto simp: distinct_wf_def)
qed

lemma in_window_bounds:
  "0 < w \<Longrightarrow> in_window w nb b \<longleftrightarrow> b \<le> nb \<and> Suc nb - w \<le> b"
  by (auto simp: in_window_def)

lemma add_tracks:
  assumes tr: "tracks d s" and now: "now < 2 ^ 64" and nb: "nb = now div sd_bucket_ms d"
    and eb: "eb = ev div sd_bucket_ms d" and w: "w = sd_window_bucket_num d"
    and cap: "cap = sd_max_members d"
  shows "tracks (fst (distinct_add member ev now d)) (fst (spec_add w cap member eb nb s)) \<and>
    snd (distinct_add member ev now d) = snd (spec_add w cap member eb nb s) \<and>
    sd_window_bucket_num (fst (distinct_add member ev now d)) = w \<and>
    sd_bucket_ms (fst (distinct_add member ev now d)) = sd_bucket_ms d \<and>
    sd_max_members (fst (distinct_add member ev now d)) = cap"
proof -
  define d1 where "d1 = distinct_expire now d"
  define s1 where "s1 = spec_expire w nb s"
  note ex = expire_tracks [OF tr now nb w, folded d1_def s1_def]
  have wf1: "distinct_wf d1" and seen: "ds_seen s1 = map_of (sd_last_seen_bucket d1)"
    and init: "sd_clock_initialized d1"
    using ex(1) by (auto simp: tracks_def s1_def spec_expire_def Let_def split: if_splits)
  have pos: "0 < w" "nb < 2 ^ 64"
    using wf1 ex(2) le_less_trans [OF div_le_dividend now] by (auto simp: distinct_wf_def nb)
  have guard: "(eb > nb \<or> eb < minValidBucket d1 nb) \<longleftrightarrow> \<not> in_window w nb eb"
    using minValidBucket_eq [of d1 nb] pos ex(2) in_window_bounds [OF pos(1), of nb eb] by auto
  define d2 where "d2 = d1\<lparr>sd_last_seen_bucket := AList.update member eb (sd_last_seen_bucket d1),
      sd_expired_queue := pq_push fst (eb, member) (sd_expired_queue d1)\<rparr>"
  have d: "distinct_add member ev now d =
      (if \<not> in_window w nb eb then (d1, False)
       else case ds_seen s1 member of
           Some b \<Rightarrow> if eb \<le> b then (d1, True) else (d2, True)
         | None \<Rightarrow> if cap \<le> card (dom (ds_seen s1)) then (d1, False) else (d2, True))"
    using guard ex(3,4) tracks_card [OF ex(1)]
    by (simp add: distinct_add_def d1_def [symmetric] nb [symmetric] eb [symmetric] seen d2_def
        cap Let_def split: option.split)
  have t2: "tracks d2 (s1\<lparr>ds_seen := (ds_seen s1)(member \<mapsto> eb)\<rparr>)"
    if "in_window w nb eb" "\<forall>b. ds_seen s1 member = Some b \<longrightarrow> b < eb"
      "ds_seen s1 member = None \<Longrightarrow> card (dom (ds_seen s1)) < cap"
  proof -
    have "distinct_wf d2" unfolding d2_def
      using that insert_wf [OF wf1 init, of eb member] tracks_card [OF ex(1)] ex(4,5)
      by (simp add: seen cap in_window_def)
    then show ?thesis using ex(1) by (auto simp: tracks_def d2_def update_conv')
  qed
  show ?thesis
  proof (cases "in_window w nb eb")
    case False
    then show ?thesis using ex by (simp add: d spec_add_def s1_def [symmetric] cap)
  next
    case win: True
    show ?thesis
    proof (cases "ds_seen s1 member")
      case None
      then show ?thesis using win t2 ex
        by (simp add: d spec_add_def s1_def [symmetric] cap) (simp add: d2_def)
    next
      case (Some b)
      have "(ds_seen s1)(member \<mapsto> b) = ds_seen s1" using Some by auto
      then show ?thesis using Some win t2 ex
        by (cases "eb \<le> b")
           (simp_all add: d spec_add_def s1_def [symmetric] cap max_def, simp add: d2_def)
    qed
  qed
qed

lemma count_tracks:
  assumes tr: "tracks d s" and now: "now < 2 ^ 64" and nb: "nb = now div sd_bucket_ms d"
    and w: "w = sd_window_bucket_num d"
  shows "tracks (fst (distinct_count now d)) (spec_expire w nb s) \<and>
    snd (distinct_count now d) = of_nat (card (dom (ds_seen (spec_expire w nb s)))) \<and>
    sd_window_bucket_num (fst (distinct_count now d)) = w \<and>
    sd_bucket_ms (fst (distinct_count now d)) = sd_bucket_ms d \<and>
    sd_max_members (fst (distinct_count now d)) = sd_max_members d"
  using expire_tracks [OF assms] tracks_card [OF expire_tracks(1) [OF assms]]
  by (simp add: distinct_count_def Let_def)

definition spec_init :: distinct_spec where
  "spec_init = \<lparr>ds_clock = None, ds_seen = Map.empty\<rparr>"

lemma create_tracks:
  assumes "distinct_create window_ms bucket_ms cap = Some d"
  shows "tracks d spec_init" "sd_window_bucket_num d = window_ms div bucket_ms"
    "sd_bucket_ms d = bucket_ms" "sd_max_members d = cap"
  using assms
  by (auto simp: distinct_create_def tracks_def distinct_wf_def spec_init_def div_greater_zero_iff
      split: if_splits)

section \<open>Sequences of calls\<close>

datatype distinct_call = DistinctAdd string nat nat | DistinctCount nat

datatype distinct_result = MemberAdded bool | Members u32

fun distinct_exec :: "distinct_call \<Rightarrow> sliding_distinct \<Rightarrow> sliding_distinct \<times> distinct_result" where
  "distinct_exec (DistinctAdd member ev now) d = apsnd MemberAdded (distinct_add member ev now d)"
| "distinct_exec (DistinctCount now) d = apsnd Members (distinct_count now d)"

fun spec_exec :: "nat \<Rightarrow> nat \<Rightarrow> nat \<Rightarrow> distinct_call \<Rightarrow> distinct_spec \<Rightarrow> distinct_spec \<times> distinct_result" where
  "spec_exec w ms cap (DistinctAdd member ev now) s =
     apsnd MemberAdded (spec_add w cap member (ev div ms) (now div ms) s)"
| "spec_exec w ms cap (DistinctCount now) s =
     (let s' = spec_expire w (now div ms) s in (s', Members (of_nat (card (dom (ds_seen s'))))))"

fun distinct_clock :: "distinct_call \<Rightarrow> nat" where
  "distinct_clock (DistinctAdd member ev now) = now"
| "distinct_clock (DistinctCount now) = now"

definition tracks_at :: "nat \<Rightarrow> nat \<Rightarrow> nat \<Rightarrow> sliding_distinct \<Rightarrow> distinct_spec \<Rightarrow> bool" where
  "tracks_at w ms cap d s \<longleftrightarrow> tracks d s \<and> sd_window_bucket_num d = w \<and> sd_bucket_ms d = ms \<and>
     sd_max_members d = cap"

lemma exec_tracks:
  assumes "tracks_at w ms cap d s" "distinct_clock x < 2 ^ 64"
  shows "tracks_at w ms cap (fst (distinct_exec x d)) (fst (spec_exec w ms cap x s)) \<and>
    snd (distinct_exec x d) = snd (spec_exec w ms cap x s)"
  using assms add_tracks [of d s] count_tracks [of d s]
  by (cases x) (auto simp: tracks_at_def Let_def)

lemma run_tracks:
  assumes "tracks_at w ms cap d s" "\<forall>x \<in> set xs. distinct_clock x < 2 ^ 64"
  shows "tracks_at w ms cap (fst (run_calls distinct_exec xs d)) (fst (run_calls (spec_exec w ms cap) xs s)) \<and>
    snd (run_calls distinct_exec xs d) = snd (run_calls (spec_exec w ms cap) xs s)"
  using assms
proof (induction xs arbitrary: d s)
  case (Cons x xs)
  show ?case using Cons.prems exec_tracks [OF Cons.prems(1), of x]
      Cons.IH [of "fst (distinct_exec x d)" "fst (spec_exec w ms cap x s)"]
    by (simp add: case_prod_beta)
qed simp

lemma create_tracks_at:
  "distinct_create window_ms bucket_ms cap = Some d \<Longrightarrow>
     tracks_at (window_ms div bucket_ms) bucket_ms cap d spec_init"
  using create_tracks by (simp add: tracks_at_def)

text \<open>With a clock that never goes back and room for every member, the reference has a closed form.\<close>

type_synonym member_call = "string \<times> nat \<times> nat"

definition member_calls :: "member_call list \<Rightarrow> distinct_call list" where
  "member_calls = map (\<lambda>(member, ev, now). DistinctAdd member ev now)"

definition window_members :: "nat \<Rightarrow> nat \<Rightarrow> nat \<Rightarrow> member_call list \<Rightarrow> string set" where
  "window_members w ms now_bucket adds =
     {member. \<exists>ev t. (member, ev, t) \<in> set adds \<and> ev div ms \<le> t div ms \<and>
        in_window w now_bucket (ev div ms)}"

lemma window_members_code:
  "window_members w ms now_bucket adds =
     fst ` set (filter (\<lambda>(member, ev, t). ev div ms \<le> t div ms \<and> in_window w now_bucket (ev div ms)) adds)"
  by (force simp: window_members_def)

lemma spec_expire_forward:
  assumes "\<forall>t. ds_clock s = Some t \<longrightarrow> t \<le> nb"
  shows "ds_seen (spec_expire w nb s) =
    (\<lambda>m. case ds_seen s m of Some b \<Rightarrow> if Suc nb - w \<le> b then Some b else None | None \<Rightarrow> None)"
  using assms by (auto simp: spec_expire_def fun_eq_iff split: option.split)

lemma spec_add_room:
  assumes clock: "\<forall>t. ds_clock s = Some t \<longrightarrow> t \<le> nb"
    and room: "in_window w nb eb \<Longrightarrow> ds_seen (spec_expire w nb s) m0 = None \<Longrightarrow>
      card (dom (ds_seen (spec_expire w nb s))) < cap"
    and s': "s' = fst (spec_add w cap m0 eb nb s)"
    and x: "Suc nb - w \<le> x"
  shows "(\<exists>b. ds_seen s' m = Some b \<and> x \<le> b) \<longleftrightarrow>
      (\<exists>b. ds_seen s m = Some b \<and> x \<le> b) \<or> m = m0 \<and> in_window w nb eb \<and> x \<le> eb"
proof -
  define s1 where "s1 = spec_expire w nb s"
  have seen: "ds_seen s1 = (\<lambda>m. case ds_seen s m of Some b \<Rightarrow> if Suc nb - w \<le> b then Some b else None
      | None \<Rightarrow> None)"
    using spec_expire_forward [OF clock] by (simp add: s1_def)
  have s1': "s' = (if \<not> in_window w nb eb then s1 else s1\<lparr>ds_seen := (ds_seen s1)(m0 \<mapsto>
      (case ds_seen s1 m0 of Some b \<Rightarrow> max b eb | None \<Rightarrow> eb))\<rparr>)"
    using room by (auto simp: s' spec_add_def s1_def [symmetric] Let_def split: option.split)
  have old: "(\<exists>b. ds_seen s1 m = Some b \<and> x \<le> b) \<longleftrightarrow> (\<exists>b. ds_seen s m = Some b \<and> x \<le> b)" for m
    using x by (auto simp: seen split: option.split)
  show ?thesis
    unfolding old [symmetric] s1' by (cases "ds_seen s1 m0") (auto simp: le_max_iff_disj)
qed

text \<open>The window never held more members than the limit.\<close>

definition never_saturated :: "nat \<Rightarrow> nat \<Rightarrow> nat \<Rightarrow> member_call list \<Rightarrow> bool" where
  "never_saturated w ms cap adds \<longleftrightarrow>
     (\<forall>i < length adds. card (window_members w ms (snd (snd (adds ! i)) div ms) (take (Suc i) adds)) \<le> cap)"

lemma never_saturated_snoc:
  "never_saturated w ms cap (adds @ [a]) \<longleftrightarrow> never_saturated w ms cap adds \<and>
     card (window_members w ms (snd (snd a) div ms) (adds @ [a])) \<le> cap"
  by (auto simp: never_saturated_def nth_append less_Suc_eq)

definition seen_since :: "distinct_spec \<Rightarrow> nat \<Rightarrow> string set" where
  "seen_since s x = {m. \<exists>b. ds_seen s m = Some b \<and> x \<le> b}"

text \<open>\<open>distinct_holds w ms cap d adds t\<close>: at time \<open>t\<close> the set answers, now and at any later time, for
  the add calls \<open>adds\<close>, unless the member limit was reached.\<close>

definition distinct_holds ::
  "nat \<Rightarrow> nat \<Rightarrow> nat \<Rightarrow> sliding_distinct \<Rightarrow> member_call list \<Rightarrow> nat \<Rightarrow> bool" where
  "distinct_holds w ms cap d adds t \<longleftrightarrow>
     (\<exists>s. tracks_at w ms cap d s \<and> (\<forall>u. ds_clock s = Some u \<longrightarrow> u \<le> t div ms) \<and>
        (never_saturated w ms cap adds \<longrightarrow>
           (\<forall>now \<ge> t. seen_since s (Suc (now div ms) - w) = window_members w ms (now div ms) adds)))"

lemma distinct_holds_mono:
  "distinct_holds w ms cap d adds t0 \<Longrightarrow> t0 \<le> t \<Longrightarrow> distinct_holds w ms cap d adds t"
  unfolding distinct_holds_def by (meson div_le_mono order_trans)

lemma expired_members:
  assumes "\<forall>a \<in> set adds. fst (snd a) + w * ms \<le> t" "0 < ms"
  shows "window_members w ms (t div ms) adds = {}"
proof -
  have "ev div ms + w \<le> t div ms" if "(m, ev, u) \<in> set adds" for m ev u
    using assms that div_le_mono [of "ev + w * ms" t ms] by fastforce
  then show ?thesis by (fastforce simp: window_members_def in_window_def)
qed

lemma distinct_holds_create:
  assumes "distinct_create window_ms ms cap = Some d" "w = window_ms div ms"
    and "\<forall>a \<in> set adds. fst (snd a) + w * ms \<le> t"
  shows "distinct_holds w ms cap d adds t"
proof -
  have "0 < ms" using assms(1) by (auto simp: distinct_create_def split: if_splits)
  then have "window_members w ms (now div ms) adds = {}" if "t \<le> now" for now
    using assms(3) that by (intro expired_members) fastforce+
  then show ?thesis
    using create_tracks_at [OF assms(1)]
    by (auto simp: distinct_holds_def assms(2) spec_init_def seen_since_def intro!: exI [of _ spec_init])
qed

lemma seen_since_expire:
  assumes "\<forall>u. ds_clock s = Some u \<longrightarrow> u \<le> nb" "Suc nb - w \<le> x"
  shows "seen_since (spec_expire w nb s) x = seen_since s x"
  unfolding seen_since_def spec_expire_forward [OF assms(1)]
  using assms(2) by (auto split: option.splits if_splits)

lemma dom_expire:
  assumes "\<forall>u. ds_clock s = Some u \<longrightarrow> u \<le> nb"
  shows "dom (ds_seen (spec_expire w nb s)) = seen_since s (Suc nb - w)"
  unfolding seen_since_def spec_expire_forward [OF assms]
  by (auto simp: dom_def split: option.splits if_splits)

lemma window_members_snoc:
  "window_members w ms nb (adds @ [(m0, ev, t)]) = window_members w ms nb adds \<union>
     (if ev div ms \<le> t div ms \<and> in_window w nb (ev div ms) then {m0} else {})"
  by (auto simp: window_members_def)

lemma finite_window_members [simp]: "finite (window_members w ms nb adds)"
  by (simp add: window_members_code)

lemma tracks_at_pos: "tracks_at w ms cap d s \<Longrightarrow> 0 < w"
  by (auto simp: tracks_at_def tracks_def distinct_wf_def)

lemma distinct_holds_add:
  assumes h: "distinct_holds w ms cap d adds t0" and t: "t0 \<le> t" "t < 2 ^ 64"
  shows "distinct_holds w ms cap (fst (distinct_add m0 ev t d)) (adds @ [(m0, ev, t)]) t"
proof -
  obtain s where s: "tracks_at w ms cap d s" "\<forall>u. ds_clock s = Some u \<longrightarrow> u \<le> t div ms"
    "never_saturated w ms cap adds \<Longrightarrow>
       \<forall>now \<ge> t. seen_since s (Suc (now div ms) - w) = window_members w ms (now div ms) adds"
    using distinct_holds_mono [OF h t(1)] by (auto simp: distinct_holds_def)
  define eb nt where "eb = ev div ms" and "nt = t div ms"
  define s' where "s' = fst (spec_add w cap m0 eb nt s)"
  have tr: "tracks_at w ms cap (fst (distinct_add m0 ev t d)) s'"
    using exec_tracks [OF s(1), of "DistinctAdd m0 ev t"] t(2) by (simp add: s'_def eb_def nt_def)
  have clk: "ds_clock s' = Some nt"
    by (auto simp: s'_def spec_add_def spec_expire_def Let_def split: option.split)
  have win: "seen_since s' (Suc (now div ms) - w) = window_members w ms (now div ms) (adds @ [(m0, ev, t)])"
    if sat: "never_saturated w ms cap (adds @ [(m0, ev, t)])" and now: "t \<le> now" for now
  proof -
    have s3: "\<forall>now \<ge> t. seen_since s (Suc (now div ms) - w) = window_members w ms (now div ms) adds"
      and card: "card (window_members w ms nt (adds @ [(m0, ev, t)])) \<le> cap"
      using s(3) sat by (auto simp: never_saturated_snoc nt_def)
    have tn: "nt \<le> now div ms" using now by (simp add: nt_def div_le_mono)
    have dm: "dom (ds_seen (spec_expire w nt s)) = window_members w ms nt adds"
      using dom_expire [of s nt w] s(2) s3 by (simp add: nt_def)
    have room: "card (dom (ds_seen (spec_expire w nt s))) < cap"
      if "in_window w nt eb" "ds_seen (spec_expire w nt s) m0 = None"
    proof -
      have "m0 \<notin> window_members w ms nt adds" using that(2) dm by auto
      then show ?thesis using card that(1) unfolding dm
        by (simp add: window_members_snoc eb_def [symmetric] nt_def [symmetric] in_window_def)
    qed
    define x where "x = Suc (now div ms) - w"
    have new: "in_window w nt eb \<and> x \<le> eb \<longleftrightarrow> eb \<le> nt \<and> in_window w (now div ms) eb"
      using tn tracks_at_pos [OF s(1)] by (auto simp: in_window_def x_def)
    have "Suc nt - w \<le> x" using tn by (simp add: x_def)
    then have "seen_since s' x = seen_since s x \<union> (if in_window w nt eb \<and> x \<le> eb then {m0} else {})"
      using spec_add_room [OF s(2) [folded nt_def] room s'_def] by (auto simp: seen_since_def)
    then show ?thesis
      using s3 now new by (simp add: window_members_snoc eb_def nt_def x_def)
  qed
  show ?thesis unfolding distinct_holds_def
    using tr clk win by (intro exI [of _ s']) (auto simp: nt_def)
qed

lemma distinct_holds_count:
  assumes h: "distinct_holds w ms cap d adds t0" and t: "t0 \<le> t" "t < 2 ^ 64"
  shows "distinct_holds w ms cap (fst (distinct_count t d)) adds t"
    and "never_saturated w ms cap adds \<Longrightarrow>
      snd (distinct_count t d) = of_nat (card (window_members w ms (t div ms) adds))"
proof -
  obtain s where s: "tracks_at w ms cap d s" "\<forall>u. ds_clock s = Some u \<longrightarrow> u \<le> t div ms"
    "never_saturated w ms cap adds \<longrightarrow>
       (\<forall>now \<ge> t. seen_since s (Suc (now div ms) - w) = window_members w ms (now div ms) adds)"
    using distinct_holds_mono [OF h t(1)] by (auto simp: distinct_holds_def)
  define s' where "s' = spec_expire w (t div ms) s"
  note cnt = count_tracks [of d s t "t div ms" w]
  have tr: "tracks_at w ms cap (fst (distinct_count t d)) s'"
    using cnt s(1) t(2) by (auto simp: tracks_at_def s'_def)
  have "seen_since s' (Suc (now div ms) - w) = seen_since s (Suc (now div ms) - w)" if "t \<le> now" for now
    unfolding s'_def using s(2) div_le_mono [OF that, of ms] by (intro seen_since_expire) auto
  then show "distinct_holds w ms cap (fst (distinct_count t d)) adds t"
    using tr s(3) unfolding distinct_holds_def
    by (intro exI [of _ s']) (auto simp: s'_def spec_expire_def Let_def)
  show "snd (distinct_count t d) = of_nat (card (window_members w ms (t div ms) adds))"
    if "never_saturated w ms cap adds"
    using cnt s t(2) that dom_expire [OF s(2), of w] by (simp add: tracks_at_def)
qed

lemma distinct_holds_run:
  assumes "distinct_holds w ms cap d [] t0" "sorted (map (\<lambda>a. snd (snd a)) adds)"
    "\<forall>a \<in> set adds. t0 \<le> snd (snd a) \<and> snd (snd a) \<le> now" "t0 \<le> now" "now < 2 ^ 64"
  shows "distinct_holds w ms cap (fst (run_calls distinct_exec (member_calls adds) d)) adds now"
  using assms(2-)
proof (induction adds arbitrary: now rule: rev_induct)
  case Nil
  then show ?case using distinct_holds_mono [OF assms(1)] by (simp add: member_calls_def)
next
  case (snoc a adds)
  obtain m ev t where a: "a = (m, ev, t)" by (cases a)
  define d' where "d' = fst (run_calls distinct_exec (member_calls adds) d)"
  have "distinct_holds w ms cap d' adds t"
    using snoc.IH [of t] snoc.prems by (auto simp: a sorted_append d'_def)
  then have "distinct_holds w ms cap (fst (distinct_add m ev t d')) (adds @ [a]) t"
    using distinct_holds_add [of w ms cap d' adds t t m ev] snoc.prems by (simp add: a)
  moreover have "fst (run_calls distinct_exec (member_calls (adds @ [a])) d) = fst (distinct_add m ev t d')"
    by (simp add: member_calls_def run_calls_append case_prod_beta a d'_def Let_def)
  ultimately show ?case using snoc.prems distinct_holds_mono by (auto simp: a)
qed

section \<open>Bounded memory\<close>

definition queue_in_window :: "sliding_distinct \<Rightarrow> bool" where
  "queue_in_window d \<longleftrightarrow>
     (\<forall>(b, m) \<in> set (sd_expired_queue d). Suc (sd_last_now_bucket d) - sd_window_bucket_num d \<le> b)"

lemma exec_queue_in_window:
  assumes tr: "tracks d s" and now: "distinct_clock x < 2 ^ 64"
  shows "queue_in_window (fst (distinct_exec x d))"
proof -
  define now where "now = distinct_clock x"
  define d1 where "d1 = distinct_expire now d"
  note ex = expire_tracks [OF tr now [folded now_def] refl refl, folded d1_def]
  have e1: "queue_in_window d1" using ex(2,5,6) by (simp add: queue_in_window_def)
  have pos: "0 < sd_window_bucket_num d1" "now div sd_bucket_ms d < 2 ^ 64"
    using ex(1) le_less_trans [OF div_le_dividend now] by (auto simp: tracks_def distinct_wf_def now_def)
  have "queue_in_window (fst (distinct_add member ev now d))" for member ev
    using e1 minValidBucket_eq [OF pos] ex(3,5)
    by (auto simp: distinct_add_def d1_def [symmetric] Let_def queue_in_window_def pq_push_def
        set_insort_key split: option.split)
  moreover have "queue_in_window (fst (distinct_count now d))"
    using e1 by (simp add: distinct_count_def d1_def Let_def)
  ultimately show ?thesis by (cases x) (auto simp: now_def)
qed

lemma run_queue_in_window:
  assumes "tracks_at w ms cap d s" "queue_in_window d" "\<forall>x \<in> set xs. distinct_clock x < 2 ^ 64"
  shows "queue_in_window (fst (run_calls distinct_exec xs d))"
  using assms
proof (induction xs arbitrary: d s)
  case (Cons x xs)
  have "queue_in_window (fst (distinct_exec x d))"
    using exec_queue_in_window [of d s x] Cons.prems by (simp add: tracks_at_def)
  then show ?case
    using Cons.IH [of "fst (distinct_exec x d)"] exec_tracks [OF Cons.prems(1), of x] Cons.prems(3)
    by (auto simp: case_prod_beta)
qed simp

lemma queue_bound:
  assumes wf: "distinct_wf d" and win: "queue_in_window d"
  shows "length (sd_expired_queue d) \<le> sd_window_bucket_num d * sd_max_members d"
proof -
  define w nb where "w = sd_window_bucket_num d" and "nb = sd_last_now_bucket d"
  let ?B = "{Suc nb - w .. nb} \<times> fst ` set (sd_last_seen_bucket d)"
  have "(b, m) \<in> ?B" if bm: "(b, m) \<in> set (sd_expired_queue d)" for b m
  proof -
    obtain b' where "map_of (sd_last_seen_bucket d) m = Some b'" "b \<le> nb"
      using wf bm unfolding distinct_wf_def nb_def by blast
    moreover have "Suc nb - w \<le> b" using win bm by (auto simp: queue_in_window_def w_def nb_def)
    ultimately show ?thesis by (auto dest: map_of_SomeD intro: rev_image_eqI)
  qed
  then have "set (sd_expired_queue d) \<subseteq> ?B" by auto
  then have "length (sd_expired_queue d) \<le> card ?B"
    using wf card_mono [of ?B "set (sd_expired_queue d)"] distinct_card [of "sd_expired_queue d"]
    by (simp add: distinct_wf_def)
  also have "\<dots> \<le> w * length (sd_last_seen_bucket d)"
    unfolding card_cartesian_product
    using card_image_le [of "set (sd_last_seen_bucket d)" fst] card_length [of "sd_last_seen_bucket d"]
    by (intro mult_le_mono) (auto intro: order_trans)
  also have "\<dots> \<le> w * sd_max_members d" using wf by (simp add: distinct_wf_def)
  finally show ?thesis by (simp add: w_def)
qed

section \<open>Properties\<close>

text \<open>
  C24.  The set is its reference.  For every sequence of add and count calls and every behaviour of
  the clock, the map with its lazily cleaned heap answers exactly as the reference that keeps the
  latest bucket of every member: the same acceptances and the same counts.
\<close>

theorem distinct_matches_spec:
  assumes "distinct_create window_ms bucket_ms cap = Some d"
    and "\<forall>x \<in> set calls. distinct_clock x < 2 ^ 64"
  shows "snd (run_calls distinct_exec calls d) =
           snd (run_calls (spec_exec (window_ms div bucket_ms) bucket_ms cap) calls spec_init)"
  using run_tracks [OF create_tracks_at [OF assms(1)] assms(2)] by simp

theorem distinct_matches_spec_witness:
  "\<exists>d. distinct_create 30 10 2 = Some d \<and>
     snd (run_calls distinct_exec
       [DistinctAdd ''a'' 5 5, DistinctAdd ''a'' 25 25, DistinctCount 35, DistinctCount 9] d) =
     snd (run_calls (spec_exec 3 10 2)
       [DistinctAdd ''a'' 5 5, DistinctAdd ''a'' 25 25, DistinctCount 35, DistinctCount 9] spec_init)"
proof -
  obtain d where d: "distinct_create 30 10 2 = Some d" by (simp add: distinct_create_def)
  have "\<forall>x \<in> set [DistinctAdd ''a'' 5 5, DistinctAdd ''a'' 25 25, DistinctCount 35, DistinctCount 9].
      distinct_clock x < 2 ^ 64" by simp
  from distinct_matches_spec [OF d this] d show ?thesis by auto
qed

text \<open>
  The set counts the distinct members of the window.  With a clock that does not go back and
  as long as the window never held more members than the limit, the count is the number of
  different members with an added event, not in the future when added, whose bucket is in the
  window ending now; refreshing a member any number of times never counts it twice.
\<close>

theorem distinct_window_count:
  assumes "distinct_create window_ms bucket_ms cap = Some d"
    and "sorted (map (\<lambda>a. snd (snd a)) adds)" "\<forall>a \<in> set adds. snd (snd a) \<le> now" "now < 2 ^ 64"
    and "never_saturated (window_ms div bucket_ms) bucket_ms cap adds"
  shows "snd (distinct_count now (fst (run_calls distinct_exec (member_calls adds) d))) =
    of_nat (card (window_members (window_ms div bucket_ms) bucket_ms (now div bucket_ms) adds))"
  using distinct_holds_count(2) [OF distinct_holds_run [OF _ assms(2) _ _ assms(4)] _ assms(4,5)]
    distinct_holds_create [OF assms(1) refl, of "[]" 0] assms(3) by simp

theorem distinct_window_count_witness:
  "\<exists>d. distinct_create 30 10 2 = Some d \<and>
     snd (distinct_count 35 (fst (run_calls distinct_exec
       (member_calls [(''a'', 1, 5), (''b'', 12, 15), (''b'', 22, 25)]) d))) = 1"
proof -
  obtain d where d: "distinct_create 30 10 2 = Some d" by (simp add: distinct_create_def)
  have "window_members 3 10 3 [(''a'', 1, 5), (''b'', 12, 15), (''b'', 22, 25)] = {''b''}"
    by (simp add: window_members_code in_window_def)
  moreover have "never_saturated 3 10 2 [(''a'', 1, 5), (''b'', 12, 15), (''b'', 22, 25)]"
    by (simp add: never_saturated_def window_members_code in_window_def less_Suc_eq)
  ultimately show ?thesis
    using d distinct_window_count [OF d, of "[(''a'', 1, 5), (''b'', 12, 15), (''b'', 22, 25)]" 35]
    by auto
qed

text \<open>
  Bounded memory.  Whatever is added and whatever the clock does, the set never holds more
  members than its limit, and its heap, lazily deleted nodes included, never more nodes than
  buckets in the window times that limit.
\<close>

theorem distinct_memory_bounded:
  assumes "distinct_create window_ms bucket_ms cap = Some d"
    and "\<forall>x \<in> set calls. distinct_clock x < 2 ^ 64"
  shows "activeMemberCount (fst (run_calls distinct_exec calls d)) \<le> cap \<and>
    length (sd_expired_queue (fst (run_calls distinct_exec calls d))) \<le> window_ms div bucket_ms * cap"
proof -
  have tr: "tracks_at (window_ms div bucket_ms) bucket_ms cap d spec_init"
    by (rule create_tracks_at [OF assms(1)])
  have "queue_in_window d"
    using assms(1) by (auto simp: distinct_create_def queue_in_window_def split: if_splits)
  then show ?thesis
    using run_queue_in_window [OF tr _ assms(2)] run_tracks [OF tr assms(2)]
      queue_bound [of "fst (run_calls distinct_exec calls d)"]
    by (auto simp: tracks_at_def tracks_def distinct_wf_def activeMemberCount_def)
qed

theorem distinct_memory_bounded_witness:
  "\<exists>d. distinct_create 30 10 2 = Some d \<and>
     activeMemberCount (fst (run_calls distinct_exec
       [DistinctAdd ''a'' 5 5, DistinctAdd ''b'' 6 6, DistinctAdd ''c'' 7 7] d)) \<le> 2"
proof -
  obtain d where d: "distinct_create 30 10 2 = Some d" by (simp add: distinct_create_def)
  then show ?thesis
    using distinct_memory_bounded [OF d, of "[DistinctAdd ''a'' 5 5, DistinctAdd ''b'' 6 6,
      DistinctAdd ''c'' 7 7]"] by auto
qed

end
