(* ===== verification/Feature_Store.thy ===== *)
theory Feature_Store
  imports Keyed_Windows Sliding_Distinct Domain_Types
begin

text \<open>
  The login feature store (\<open>src/feature/feature_store.cpp\<close>): three sharded tables of
  sliding windows, updated one shard lock at a time, and the reclamation of cold states.  The
  string hash is a parameter; a store operation is atomic per table, as the code holds one shard
  lock at a time.
\<close>

section \<open>Model\<close>

record LoginFeatureSnapshot =
  user_login_fail_5m :: u32
  ip_distinct_failed_user_10m :: u32
  device_distinct_account_10m :: u32
  ip_login_failures_10m :: u32

definition empty_snapshot :: LoginFeatureSnapshot where
  "empty_snapshot = \<lparr>user_login_fail_5m = 0, ip_distinct_failed_user_10m = 0,
     device_distinct_account_10m = 0, ip_login_failures_10m = 0\<rparr>"

record LoginUserState =
  login_fail_5m :: sliding_counter
  user_last_seen_ms :: nat

record IpFeatureState =
  ip_distinct :: sliding_distinct
  ip_failures_10m :: sliding_counter
  ip_last_seen_ms :: nat

record DeviceFeatureState =
  device_distinct :: sliding_distinct
  device_last_seen_ms :: nat

definition kUserShardNum :: nat where "kUserShardNum = 64"
definition kDistinctShardNum :: nat where "kDistinctShardNum = 64"
definition kDistinctWindowMs :: nat where "kDistinctWindowMs = 10 * 60 * 1000"
definition kDistinctBucketMs :: nat where "kDistinctBucketMs = 10 * 1000"
definition kDistinctMaxMembers :: nat where "kDistinctMaxMembers = 5000"
definition kIpFailureBucketMs :: nat where "kIpFailureBucketMs = 10 * 1000"

definition new_user_state :: LoginUserState where
  "new_user_state = \<lparr>login_fail_5m = the (counter_create 60 5000), user_last_seen_ms = 0\<rparr>"

definition new_ip_state :: IpFeatureState where
  "new_ip_state =
     \<lparr>ip_distinct = the (distinct_create kDistinctWindowMs kDistinctBucketMs kDistinctMaxMembers),
      ip_failures_10m = the (counter_create 60 kIpFailureBucketMs), ip_last_seen_ms = 0\<rparr>"

definition new_device_state :: DeviceFeatureState where
  "new_device_state =
     \<lparr>device_distinct = the (distinct_create kDistinctWindowMs kDistinctBucketMs kDistinctMaxMembers),
      device_last_seen_ms = 0\<rparr>"

record FeatureStateReclamationConfig =
  user_ttl_ms :: nat
  ip_ttl_ms :: nat
  device_ttl_ms :: nat

record LoginFeatureStore =
  reclamation_config :: FeatureStateReclamationConfig
  user_shards :: "LoginUserState shards"
  ip_shards :: "IpFeatureState shards"
  device_shards :: "DeviceFeatureState shards"

record FeatureStoreStats =
  user_state_count :: nat
  ip_state_count :: nat
  ip_distinct_member_count :: nat
  device_state_count :: nat
  device_distinct_member_count :: nat

definition isValidReclamationConfig :: "FeatureStateReclamationConfig \<Rightarrow> bool" where
  "isValidReclamationConfig c \<longleftrightarrow>
     user_ttl_ms c \<ge> 5 * 60 * 1000 \<and> ip_ttl_ms c \<ge> kDistinctWindowMs \<and>
     device_ttl_ms c \<ge> kDistinctWindowMs"

text \<open>\<open>validateReclamationConfig\<close> raises (False) or returns (True); the constructor raises with it.\<close>

definition validateReclamationConfig :: "FeatureStateReclamationConfig \<Rightarrow> bool" where
  "validateReclamationConfig c \<longleftrightarrow>
     \<not> user_ttl_ms c < 5 * 60 * 1000 \<and>
     \<not> (ip_ttl_ms c < kDistinctWindowMs \<or> device_ttl_ms c < kDistinctWindowMs)"

definition store_create :: "FeatureStateReclamationConfig \<Rightarrow> LoginFeatureStore option" where
  "store_create c =
     (if validateReclamationConfig c
      then Some \<lparr>reclamation_config = c, user_shards = replicate kUserShardNum [],
                 ip_shards = replicate kDistinctShardNum [],
                 device_shards = replicate kDistinctShardNum []\<rparr>
      else None)"

definition isWithinWindow :: "nat \<Rightarrow> nat \<Rightarrow> nat \<Rightarrow> bool" where
  "isWithinWindow event_ts_ms now_ms window_ms \<longleftrightarrow>
     event_ts_ms \<le> now_ms \<and> sub64 now_ms event_ts_ms < window_ms"

definition buildUserSnapshot ::
  "LoginUserState \<Rightarrow> nat \<Rightarrow> LoginFeatureSnapshot \<Rightarrow> LoginUserState \<times> LoginFeatureSnapshot" where
  "buildUserSnapshot state now_ms out =
     (let (c, v) = counter_sum now_ms (login_fail_5m state)
      in (state\<lparr>login_fail_5m := c\<rparr>, out\<lparr>user_login_fail_5m := v\<rparr>))"

definition updateUser ::
  "(string \<Rightarrow> nat) \<Rightarrow> LoginAttempt \<Rightarrow> nat \<Rightarrow> LoginFeatureStore \<times> LoginFeatureSnapshot \<Rightarrow>
   LoginFeatureStore \<times> LoginFeatureSnapshot" where
  "updateUser hash attempt now_ms = (\<lambda>(st, out).
     let can_update_failure =
           (attempt_result attempt = LoginFail \<and>
            isWithinWindow (timestamp_ms attempt) now_ms (5 * 60 * 1000));
         index = shardIndex hash (attempt_user_id attempt) kUserShardNum;
         users = user_shards st ! index;
         key = attempt_user_id attempt;
         users = (if map_of users key = None \<and> can_update_failure
                  then AList.update key new_user_state users else users)
     in case map_of users key of
          None \<Rightarrow> (st, out)
        | Some state \<Rightarrow>
            let state = (if can_update_failure
                         then state\<lparr>login_fail_5m :=
                                fst (counter_add (timestamp_ms attempt) now_ms 1 (login_fail_5m state)),
                                user_last_seen_ms := now_ms\<rparr>
                         else state);
                (state, out) = buildUserSnapshot state now_ms out
            in (st\<lparr>user_shards := (user_shards st)[index := AList.update key state users]\<rparr>, out))"

definition updateIp ::
  "(string \<Rightarrow> nat) \<Rightarrow> LoginAttempt \<Rightarrow> nat \<Rightarrow> LoginFeatureStore \<times> LoginFeatureSnapshot \<Rightarrow>
   LoginFeatureStore \<times> LoginFeatureSnapshot" where
  "updateIp hash attempt now_ms = (\<lambda>(st, out).
     let index = shardIndex hash (attempt_ip attempt) kDistinctShardNum;
         states = ip_shards st ! index;
         key = attempt_ip attempt;
         can_update_failure =
           (attempt_result attempt = LoginFail \<and>
            isWithinWindow (timestamp_ms attempt) now_ms kDistinctWindowMs);
         states = (if map_of states key = None \<and> can_update_failure
                   then AList.update key new_ip_state states else states)
     in case map_of states key of
          None \<Rightarrow> (st, out)
        | Some state \<Rightarrow>
            let state = (if can_update_failure
                         then state\<lparr>
                           ip_distinct := fst (distinct_add (attempt_user_id attempt)
                             (timestamp_ms attempt) now_ms (ip_distinct state)),
                           ip_failures_10m := fst (counter_add (timestamp_ms attempt) now_ms 1
                             (ip_failures_10m state)),
                           ip_last_seen_ms := now_ms\<rparr>
                         else state);
                (distinct, members) = distinct_count now_ms (ip_distinct state);
                (failures, total) = counter_sum now_ms (ip_failures_10m state);
                state = state\<lparr>ip_distinct := distinct, ip_failures_10m := failures\<rparr>
            in (st\<lparr>ip_shards := (ip_shards st)[index := AList.update key state states]\<rparr>,
                out\<lparr>ip_distinct_failed_user_10m := members, ip_login_failures_10m := total\<rparr>))"

definition updateDevice ::
  "(string \<Rightarrow> nat) \<Rightarrow> LoginAttempt \<Rightarrow> nat \<Rightarrow> LoginFeatureStore \<times> LoginFeatureSnapshot \<Rightarrow>
   LoginFeatureStore \<times> LoginFeatureSnapshot" where
  "updateDevice hash attempt now_ms = (\<lambda>(st, out).
     let index = shardIndex hash (attempt_device_id attempt) kDistinctShardNum;
         states = device_shards st ! index;
         key = attempt_device_id attempt;
         in_window = isWithinWindow (timestamp_ms attempt) now_ms kDistinctWindowMs;
         states = (if map_of states key = None \<and> in_window
                   then AList.update key new_device_state states else states)
     in case map_of states key of
          None \<Rightarrow> (st, out)
        | Some state \<Rightarrow>
            let state = (if in_window
                         then state\<lparr>device_distinct := fst (distinct_add (attempt_user_id attempt)
                                (timestamp_ms attempt) now_ms (device_distinct state)),
                              device_last_seen_ms := now_ms\<rparr>
                         else state);
                (distinct, members) = distinct_count now_ms (device_distinct state);
                state = state\<lparr>device_distinct := distinct\<rparr>
            in (st\<lparr>device_shards := (device_shards st)[index := AList.update key state states]\<rparr>,
                out\<lparr>device_distinct_account_10m := members\<rparr>))"

definition updateAndGet ::
  "(string \<Rightarrow> nat) \<Rightarrow> LoginAttempt \<Rightarrow> nat \<Rightarrow> LoginFeatureStore \<Rightarrow>
   LoginFeatureStore \<times> LoginFeatureSnapshot" where
  "updateAndGet hash attempt now_ms st =
     updateDevice hash attempt now_ms
       (updateIp hash attempt now_ms (updateUser hash attempt now_ms (st, empty_snapshot)))"

definition reclaimColdStates :: "nat \<Rightarrow> LoginFeatureStore \<Rightarrow> LoginFeatureStore" where
  "reclaimColdStates now_ms st =
     st\<lparr>user_shards := reclaim_shards user_last_seen_ms now_ms
          (user_ttl_ms (reclamation_config st)) (user_shards st),
        ip_shards := reclaim_shards ip_last_seen_ms now_ms
          (ip_ttl_ms (reclamation_config st)) (ip_shards st),
        device_shards := reclaim_shards device_last_seen_ms now_ms
          (device_ttl_ms (reclamation_config st)) (device_shards st)\<rparr>"

definition currentStats :: "LoginFeatureStore \<Rightarrow> FeatureStoreStats" where
  "currentStats st =
     \<lparr>user_state_count = sum_list (map length (user_shards st)),
      ip_state_count = sum_list (map length (ip_shards st)),
      ip_distinct_member_count = sum_list (map (\<lambda>m. sum_list (map (activeMemberCount \<circ> ip_distinct \<circ> snd) m))
        (ip_shards st)),
      device_state_count = sum_list (map length (device_shards st)),
      device_distinct_member_count =
        sum_list (map (\<lambda>m. sum_list (map (activeMemberCount \<circ> device_distinct \<circ> snd) m))
          (device_shards st))\<rparr>"

section \<open>The three tables as window states\<close>

fun user_rec :: "add_call \<Rightarrow> LoginUserState \<Rightarrow> LoginUserState" where
  "user_rec (ev, t, d) s =
     s\<lparr>login_fail_5m := fst (counter_add ev t d (login_fail_5m s)), user_last_seen_ms := t\<rparr>"

definition user_rd :: "nat \<Rightarrow> LoginUserState \<Rightarrow> LoginUserState \<times> u32" where
  "user_rd t s = (s\<lparr>login_fail_5m := fst (counter_sum t (login_fail_5m s))\<rparr>,
     snd (counter_sum t (login_fail_5m s)))"

fun ip_rec :: "member_call \<Rightarrow> IpFeatureState \<Rightarrow> IpFeatureState" where
  "ip_rec (m, ev, t) s =
     s\<lparr>ip_distinct := fst (distinct_add m ev t (ip_distinct s)),
       ip_failures_10m := fst (counter_add ev t 1 (ip_failures_10m s)), ip_last_seen_ms := t\<rparr>"

definition ip_rd :: "nat \<Rightarrow> IpFeatureState \<Rightarrow> IpFeatureState \<times> u32 \<times> u32" where
  "ip_rd t s = (s\<lparr>ip_distinct := fst (distinct_count t (ip_distinct s)),
      ip_failures_10m := fst (counter_sum t (ip_failures_10m s))\<rparr>,
     snd (distinct_count t (ip_distinct s)), snd (counter_sum t (ip_failures_10m s)))"

fun device_rec :: "member_call \<Rightarrow> DeviceFeatureState \<Rightarrow> DeviceFeatureState" where
  "device_rec (m, ev, t) s =
     s\<lparr>device_distinct := fst (distinct_add m ev t (device_distinct s)), device_last_seen_ms := t\<rparr>"

definition device_rd :: "nat \<Rightarrow> DeviceFeatureState \<Rightarrow> DeviceFeatureState \<times> u32" where
  "device_rd t s = (s\<lparr>device_distinct := fst (distinct_count t (device_distinct s))\<rparr>,
     snd (distinct_count t (device_distinct s)))"

text \<open>A recorded call carries the event's time stamp and the clock; the time stamp is not later.\<close>

definition add_ok :: "add_call \<Rightarrow> bool" where
  "add_ok x \<longleftrightarrow> fst x \<le> fst (snd x)"

definition member_ok :: "member_call \<Rightarrow> bool" where
  "member_ok x \<longleftrightarrow> fst (snd x) \<le> snd (snd x)"

definition failure_calls :: "member_call list \<Rightarrow> add_call list" where
  "failure_calls = map (\<lambda>(m, ev, t). (ev, t, 1))"

definition members_value :: "nat \<Rightarrow> member_call list \<Rightarrow> u32 \<Rightarrow> bool" where
  "members_value t h v \<longleftrightarrow> (never_saturated 60 10000 5000 h \<longrightarrow>
     v = of_nat (card (window_members 60 10000 (t div 10000) h)))"

lemma new_states:
  "counter_create 60 5000 = Some (login_fail_5m new_user_state)"
  "distinct_create 600000 10000 5000 = Some (ip_distinct new_ip_state)"
  "counter_create 60 10000 = Some (ip_failures_10m new_ip_state)"
  "distinct_create 600000 10000 5000 = Some (device_distinct new_device_state)"
  by (simp_all add: new_user_state_def new_ip_state_def new_device_state_def counter_create_def
      distinct_create_def kDistinctWindowMs_def kDistinctBucketMs_def kDistinctMaxMembers_def
      kIpFailureBucketMs_def)

lemmas new_counter_holds =
  counter_holds_create [OF new_states(1), simplified] counter_holds_create [OF new_states(3), simplified]

lemmas new_distinct_holds =
  distinct_holds_create [OF new_states(2) refl, simplified]
  distinct_holds_create [OF new_states(4) refl, simplified]

interpretation user_table: window_state new_user_state user_rec user_rd 0 user_last_seen_ms
  "\<lambda>x. fst (snd x)" add_ok "\<lambda>s. counter_holds 60 5000 (login_fail_5m s)"
  "\<lambda>t h v. v = log_total (counted 60 5000 (t div 5000) h)" 300000
proof
  fix s :: LoginUserState and h :: "add_call list" and t0 and x :: add_call
  assume "counter_holds 60 5000 (login_fail_5m s) h t0" "t0 \<le> fst (snd x)" "fst (snd x) < 2 ^ 64"
  then show "counter_holds 60 5000 (login_fail_5m (user_rec x s)) (h @ [x]) (fst (snd x))"
    using counter_holds_add by (cases x) simp
next
  fix t :: nat
  assume "t < 2 ^ 64"
  then show "snd (user_rd t new_user_state) = 0"
    using counter_holds_sum(2) [OF new_counter_holds(1) [of "[]" t], of t]
    by (simp add: user_rd_def counted_def log_total_def)
next
  fix h and t :: nat
  assume "\<forall>x \<in> set h. add_ok x \<and> fst (snd x) + 300000 \<le> t"
  then show "counter_holds 60 5000 (login_fail_5m new_user_state) h t"
    by (intro new_counter_holds(1)) (fastforce simp: add_ok_def)
qed (auto simp: user_rd_def intro: counter_holds_mono counter_holds_sum)

interpretation ip_table: window_state new_ip_state ip_rec ip_rd "(0, 0)" ip_last_seen_ms
  "\<lambda>x. snd (snd x)" member_ok
  "\<lambda>s h t. distinct_holds 60 10000 5000 (ip_distinct s) h t \<and>
     counter_holds 60 10000 (ip_failures_10m s) (failure_calls h) t"
  "\<lambda>t h v. members_value t h (fst v) \<and>
     snd v = log_total (counted 60 10000 (t div 10000) (failure_calls h))" 600000
proof
  fix s :: IpFeatureState and h :: "member_call list" and t0 and x :: member_call
  assume "distinct_holds 60 10000 5000 (ip_distinct s) h t0 \<and>
      counter_holds 60 10000 (ip_failures_10m s) (failure_calls h) t0"
    "t0 \<le> snd (snd x)" "snd (snd x) < 2 ^ 64"
  then show "distinct_holds 60 10000 5000 (ip_distinct (ip_rec x s)) (h @ [x]) (snd (snd x)) \<and>
      counter_holds 60 10000 (ip_failures_10m (ip_rec x s)) (failure_calls (h @ [x])) (snd (snd x))"
    using counter_holds_add [of 60 10000 "ip_failures_10m s" "failure_calls h" t0]
      distinct_holds_add [of 60 10000 5000 "ip_distinct s" h t0]
    by (cases x) (auto simp: failure_calls_def)
next
  fix t :: nat
  assume "t < 2 ^ 64"
  then show "snd (ip_rd t new_ip_state) = (0, 0)"
    using counter_holds_sum(2) [OF new_counter_holds(2) [of "[]" t], of t]
      distinct_holds_count(2) [OF new_distinct_holds(1) [of "[]" t], of t]
    by (simp add: ip_rd_def counted_def log_total_def never_saturated_def window_members_def)
next
  fix h and t :: nat
  assume h: "\<forall>x \<in> set h. member_ok x \<and> snd (snd x) + 600000 \<le> t"
  then have "\<forall>x \<in> set h. fst (snd x) + 600000 \<le> t" by (fastforce simp: member_ok_def)
  then show "distinct_holds 60 10000 5000 (ip_distinct new_ip_state) h t \<and>
      counter_holds 60 10000 (ip_failures_10m new_ip_state) (failure_calls h) t"
    by (intro conjI new_distinct_holds(1) new_counter_holds(2)) (auto simp: failure_calls_def)
qed (auto simp: ip_rd_def members_value_def intro: counter_holds_mono counter_holds_sum
      distinct_holds_mono distinct_holds_count)

interpretation device_table: window_state new_device_state device_rec device_rd 0 device_last_seen_ms
  "\<lambda>x. snd (snd x)" member_ok "\<lambda>s. distinct_holds 60 10000 5000 (device_distinct s)"
  members_value 600000
proof
  fix s :: DeviceFeatureState and h :: "member_call list" and t0 and x :: member_call
  assume "distinct_holds 60 10000 5000 (device_distinct s) h t0" "t0 \<le> snd (snd x)" "snd (snd x) < 2 ^ 64"
  then show "distinct_holds 60 10000 5000 (device_distinct (device_rec x s)) (h @ [x]) (snd (snd x))"
    using distinct_holds_add by (cases x) simp
next
  fix t :: nat
  assume "t < 2 ^ 64"
  then show "snd (device_rd t new_device_state) = 0"
    using distinct_holds_count(2) [OF new_distinct_holds(2) [of "[]" t], of t]
    by (simp add: device_rd_def never_saturated_def window_members_def)
next
  fix h and t :: nat
  assume h: "\<forall>x \<in> set h. member_ok x \<and> snd (snd x) + 600000 \<le> t"
  then have "\<forall>x \<in> set h. fst (snd x) + 600000 \<le> t" by (fastforce simp: member_ok_def)
  then show "distinct_holds 60 10000 5000 (device_distinct new_device_state) h t"
    by (rule new_distinct_holds(2))
qed (auto simp: device_rd_def members_value_def intro: distinct_holds_mono distinct_holds_count)

section \<open>Updates as table updates\<close>

lemma update_again: "AList.update k v (AList.update k w al) = AList.update k v al"
  by (induction al) auto

definition user_call :: "LoginAttempt \<Rightarrow> nat \<Rightarrow> add_call option" where
  "user_call a now = (if attempt_result a = LoginFail \<and> isWithinWindow (timestamp_ms a) now 300000
     then Some (timestamp_ms a, now, 1) else None)"

definition ip_call :: "LoginAttempt \<Rightarrow> nat \<Rightarrow> member_call option" where
  "ip_call a now = (if attempt_result a = LoginFail \<and> isWithinWindow (timestamp_ms a) now 600000
     then Some (attempt_user_id a, timestamp_ms a, now) else None)"

definition device_call :: "LoginAttempt \<Rightarrow> nat \<Rightarrow> member_call option" where
  "device_call a now = (if isWithinWindow (timestamp_ms a) now 600000
     then Some (attempt_user_id a, timestamp_ms a, now) else None)"

lemma updateUser_touch:
  "updateUser hash a now (st, out) =
     (let (sh, v) = touch_state new_user_state user_rec user_rd (user_login_fail_5m out) hash 64
            (attempt_user_id a) (user_call a now) now (user_shards st)
      in (st\<lparr>user_shards := sh\<rparr>, out\<lparr>user_login_fail_5m := v\<rparr>))"
  by (cases "map_of (user_shards st ! shardIndex hash (attempt_user_id a) 64) (attempt_user_id a)")
     (auto simp: updateUser_def touch_state_def user_call_def user_rd_def buildUserSnapshot_def Let_def
       case_prod_beta update_conv' update_again kUserShardNum_def)

lemma updateIp_touch:
  "updateIp hash a now (st, out) =
     (let (sh, v) = touch_state new_ip_state ip_rec ip_rd
            (ip_distinct_failed_user_10m out, ip_login_failures_10m out) hash 64
            (attempt_ip a) (ip_call a now) now (ip_shards st)
      in (st\<lparr>ip_shards := sh\<rparr>, out\<lparr>ip_distinct_failed_user_10m := fst v, ip_login_failures_10m := snd v\<rparr>))"
  by (cases "map_of (ip_shards st ! shardIndex hash (attempt_ip a) 64) (attempt_ip a)")
     (auto simp: updateIp_def touch_state_def ip_call_def ip_rd_def Let_def case_prod_beta update_conv'
       update_again kDistinctShardNum_def kDistinctWindowMs_def)

lemma updateDevice_touch:
  "updateDevice hash a now (st, out) =
     (let (sh, v) = touch_state new_device_state device_rec device_rd (device_distinct_account_10m out)
            hash 64 (attempt_device_id a) (device_call a now) now (device_shards st)
      in (st\<lparr>device_shards := sh\<rparr>, out\<lparr>device_distinct_account_10m := v\<rparr>))"
  by (cases "map_of (device_shards st ! shardIndex hash (attempt_device_id a) 64) (attempt_device_id a)")
     (auto simp: updateDevice_def touch_state_def device_call_def device_rd_def Let_def case_prod_beta
       update_conv' update_again kDistinctShardNum_def kDistinctWindowMs_def)

section \<open>Histories\<close>

datatype store_op = Login LoginAttempt nat | Reclaim nat

fun store_exec ::
  "(string \<Rightarrow> nat) \<Rightarrow> store_op \<Rightarrow> LoginFeatureStore \<Rightarrow> LoginFeatureStore \<times> LoginFeatureSnapshot option" where
  "store_exec hash (Login a now) st = apsnd Some (updateAndGet hash a now st)"
| "store_exec hash (Reclaim now) st = (reclaimColdStates now st, None)"

fun op_clock :: "store_op \<Rightarrow> nat" where
  "op_clock (Login a now) = now"
| "op_clock (Reclaim now) = now"

fun logins :: "store_op list \<Rightarrow> (LoginAttempt \<times> nat) list" where
  "logins [] = []"
| "logins (Login a now # ops) = (a, now) # logins ops"
| "logins (Reclaim now # ops) = logins ops"

lemma logins_append [simp]: "logins (xs @ ys) = logins xs @ logins ys"
  by (induction xs rule: logins.induct) auto

definition user_history :: "(LoginAttempt \<times> nat) list \<Rightarrow> string \<Rightarrow> add_call list" where
  "user_history l u = List.map_filter (\<lambda>(a, t). if attempt_user_id a = u then user_call a t else None) l"

definition ip_history :: "(LoginAttempt \<times> nat) list \<Rightarrow> string \<Rightarrow> member_call list" where
  "ip_history l i = List.map_filter (\<lambda>(a, t). if attempt_ip a = i then ip_call a t else None) l"

definition device_history :: "(LoginAttempt \<times> nat) list \<Rightarrow> string \<Rightarrow> member_call list" where
  "device_history l d = List.map_filter (\<lambda>(a, t). if attempt_device_id a = d then device_call a t else None) l"

lemma map_filter_snoc:
  "List.map_filter f (xs @ [x]) = List.map_filter f xs @ (case f x of None \<Rightarrow> [] | Some y \<Rightarrow> [y])"
  by (auto simp: List.map_filter_def split: option.split)

lemma history_snoc:
  "user_history (l @ [(a, t)]) = (user_history l)(attempt_user_id a :=
     user_history l (attempt_user_id a) @ (case user_call a t of None \<Rightarrow> [] | Some x \<Rightarrow> [x]))"
  "ip_history (l @ [(a, t)]) = (ip_history l)(attempt_ip a :=
     ip_history l (attempt_ip a) @ (case ip_call a t of None \<Rightarrow> [] | Some x \<Rightarrow> [x]))"
  "device_history (l @ [(a, t)]) = (device_history l)(attempt_device_id a :=
     device_history l (attempt_device_id a) @ (case device_call a t of None \<Rightarrow> [] | Some x \<Rightarrow> [x]))"
  by (auto simp: user_history_def ip_history_def device_history_def map_filter_snoc fun_eq_iff)

definition store_ok ::
  "(string \<Rightarrow> nat) \<Rightarrow> LoginFeatureStore \<Rightarrow> (LoginAttempt \<times> nat) list \<Rightarrow> nat \<Rightarrow> bool" where
  "store_ok hash st l t \<longleftrightarrow>
     user_table.keyed hash 64 (user_shards st) (user_history l) t \<and>
     ip_table.keyed hash 64 (ip_shards st) (ip_history l) t \<and>
     device_table.keyed hash 64 (device_shards st) (device_history l) t \<and>
     validateReclamationConfig (reclamation_config st)"

definition snapshot_ok :: "LoginFeatureSnapshot \<Rightarrow> (LoginAttempt \<times> nat) list \<Rightarrow> LoginAttempt \<Rightarrow> nat \<Rightarrow> bool" where
  "snapshot_ok snap l a now \<longleftrightarrow>
     user_login_fail_5m snap =
       log_total (counted 60 5000 (now div 5000) (user_history l (attempt_user_id a))) \<and>
     members_value now (ip_history l (attempt_ip a)) (ip_distinct_failed_user_10m snap) \<and>
     ip_login_failures_10m snap =
       log_total (counted 60 10000 (now div 10000) (failure_calls (ip_history l (attempt_ip a)))) \<and>
     members_value now (device_history l (attempt_device_id a)) (device_distinct_account_10m snap)"

lemma history_empty: "user_history [] = (\<lambda>_. [])" "ip_history [] = (\<lambda>_. [])" "device_history [] = (\<lambda>_. [])"
  by (simp_all add: fun_eq_iff user_history_def ip_history_def device_history_def List.map_filter_def)

lemma store_create_ok: "store_create c = Some st \<Longrightarrow> store_ok hash st [] t"
  by (auto simp: store_create_def store_ok_def history_empty kUserShardNum_def kDistinctShardNum_def
      split: if_splits intro!: user_table.keyed_empty ip_table.keyed_empty device_table.keyed_empty)

lemma calls_ok:
  "user_call a t = Some x \<Longrightarrow> add_ok x \<and> fst (snd x) = t"
  "ip_call a t = Some y \<Longrightarrow> member_ok y \<and> snd (snd y) = t"
  "device_call a t = Some y \<Longrightarrow> member_ok y \<and> snd (snd y) = t"
  by (auto simp: user_call_def ip_call_def device_call_def add_ok_def member_ok_def isWithinWindow_def
      split: if_splits)

lemma update_ok:
  assumes ok: "store_ok hash st l t0" and t: "t0 \<le> now" "now < 2 ^ 64"
    and r: "updateAndGet hash a now st = (st', snap)"
  shows "store_ok hash st' (l @ [(a, now)]) now \<and> snapshot_ok snap (l @ [(a, now)]) a now"
proof -
  obtain us uv where u: "touch_state new_user_state user_rec user_rd 0 hash 64
      (attempt_user_id a) (user_call a now) now (user_shards st) = (us, uv)" by (metis surj_pair)
  obtain ips iv where i: "touch_state new_ip_state ip_rec ip_rd (0, 0) hash 64
      (attempt_ip a) (ip_call a now) now (ip_shards st) = (ips, iv)" by (metis surj_pair)
  obtain ds dv where d: "touch_state new_device_state device_rec device_rd 0 hash 64
      (attempt_device_id a) (device_call a now) now (device_shards st) = (ds, dv)" by (metis surj_pair)
  have eq: "st' = st\<lparr>user_shards := us, ip_shards := ips, device_shards := ds\<rparr>"
    "snap = \<lparr>user_login_fail_5m = uv, ip_distinct_failed_user_10m = fst iv,
       device_distinct_account_10m = dv, ip_login_failures_10m = snd iv\<rparr>"
    using r u i d
    by (auto simp: updateAndGet_def updateUser_touch updateIp_touch updateDevice_touch empty_snapshot_def)
  have k: "user_table.keyed hash 64 (user_shards st) (user_history l) t0"
    "ip_table.keyed hash 64 (ip_shards st) (ip_history l) t0"
    "device_table.keyed hash 64 (device_shards st) (device_history l) t0"
    using ok by (auto simp: store_ok_def)
  note ut = user_table.touch_keyed [OF k(1) t _ refl u]
    and it = ip_table.touch_keyed [OF k(2) t _ refl i]
    and dt = device_table.touch_keyed [OF k(3) t _ refl d]
  show ?thesis
    using ut it dt calls_ok ok by (auto simp: store_ok_def snapshot_ok_def eq history_snoc)
qed

lemma reclaim_ok:
  assumes "store_ok hash st l t0" "t0 \<le> now"
  shows "store_ok hash (reclaimColdStates now st) l now"
  using assms user_table.reclaim_keyed [of hash 64 "user_shards st" "user_history l" t0 now]
    ip_table.reclaim_keyed [of hash 64 "ip_shards st" "ip_history l" t0 now]
    device_table.reclaim_keyed [of hash 64 "device_shards st" "device_history l" t0 now]
  by (simp add: store_ok_def reclaimColdStates_def validateReclamationConfig_def kDistinctWindowMs_def)

lemma exec_ok:
  assumes "store_ok hash st l t0" "t0 \<le> op_clock op" "op_clock op < 2 ^ 64"
  shows "store_ok hash (fst (store_exec hash op st)) (l @ logins [op]) (op_clock op)"
proof (cases op)
  case (Login a now)
  then show ?thesis
    using assms update_ok [of hash st l t0 now a] by (cases "updateAndGet hash a now st") auto
next
  case (Reclaim now)
  then show ?thesis using assms reclaim_ok [of hash st l t0 now] by simp
qed

lemma run_ok:
  assumes "store_ok hash st l t0" "sorted (map op_clock ops)" "\<forall>op \<in> set ops. t0 \<le> op_clock op \<and> op_clock op < 2 ^ 64"
    and "t0 \<le> t" "\<forall>op \<in> set ops. op_clock op \<le> t"
  shows "store_ok hash (fst (run_calls (store_exec hash) ops st)) (l @ logins ops) t"
  using assms
proof (induction ops arbitrary: st l t0)
  case Nil
  then show ?case
    by (auto simp: store_ok_def intro: user_table.keyed_mono ip_table.keyed_mono device_table.keyed_mono)
next
  case (Cons op ops)
  have "store_ok hash (fst (store_exec hash op st)) (l @ logins [op]) (op_clock op)"
    using exec_ok [OF Cons.prems(1), of op] Cons.prems(3) by simp
  then have "store_ok hash (fst (run_calls (store_exec hash) ops (fst (store_exec hash op st))))
      ((l @ logins [op]) @ logins ops) t"
    using Cons.prems(2-5) by (intro Cons.IH) auto
  moreover have "logins (op # ops) = logins [op] @ logins ops"
    using logins_append [of "[op]" ops] by simp
  ultimately show ?case by (simp add: case_prod_beta)
qed

text \<open>The state and the snapshot of a request that follows any history.\<close>

lemma request_after:
  assumes "store_create c = Some st0" "sorted (map op_clock (ops @ [Login a now]))" "now < 2 ^ 64"
  shows "snapshot_ok (snd (updateAndGet hash a now (fst (run_calls (store_exec hash) ops st0))))
    (logins ops @ [(a, now)]) a now"
proof -
  have "\<forall>op \<in> set ops. op_clock op \<le> now" using assms(2) by (simp add: sorted_append)
  moreover from this have "\<forall>op \<in> set ops. op_clock op < 2 ^ 64" using assms(3) le_less_trans by blast
  ultimately have "store_ok hash (fst (run_calls (store_exec hash) ops st0)) (logins ops) now"
    using run_ok [OF store_create_ok [OF assms(1)], of ops 0 now hash] assms(2)
    by (simp add: sorted_append)
  then show ?thesis
    using update_ok [of hash _ "logins ops" now now a] assms(3)
    by (cases "updateAndGet hash a now (fst (run_calls (store_exec hash) ops st0))") auto
qed

section \<open>Properties\<close>

definition counted_failure :: "nat \<Rightarrow> nat \<Rightarrow> nat \<Rightarrow> LoginAttempt \<times> nat \<Rightarrow> bool" where
  "counted_failure window ms now x \<longleftrightarrow> attempt_result (fst x) = LoginFail \<and>
     isWithinWindow (timestamp_ms (fst x)) (snd x) window \<and>
     in_window 60 (now div ms) (timestamp_ms (fst x) div ms)"

lemma log_total_simps [simp]: "log_total [] = 0" "log_total (e # l) = snd e + log_total l"
  by (simp_all add: log_total_def)

lemma counted_Cons:
  "counted n ms nb (x # xs) =
     (if fst x div ms \<le> fst (snd x) div ms \<and> in_window n nb (fst x div ms)
      then [(fst x div ms, snd (snd x))] else []) @ counted n ms nb xs"
  by (cases x) (simp add: counted_def)

lemma window_div: "isWithinWindow ts t w \<Longrightarrow> ts div ms \<le> t div ms"
  by (simp add: isWithinWindow_def div_le_mono)

lemma user_total:
  "log_total (counted 60 5000 (now div 5000) (user_history l u)) =
     of_nat (length (filter (\<lambda>x. attempt_user_id (fst x) = u \<and> counted_failure 300000 5000 now x) l))"
proof (induction l)
  case (Cons x l)
  have "user_history (x # l) u = (if attempt_user_id (fst x) = u
      then case user_call (fst x) (snd x) of None \<Rightarrow> [] | Some y \<Rightarrow> [y] else []) @ user_history l u"
    by (cases x) (auto simp: user_history_def List.map_filter_simps split: option.split)
  then show ?case using Cons window_div [of "timestamp_ms (fst x)" "snd x" 300000 5000]
    by (auto simp: user_call_def counted_failure_def counted_Cons)
qed (simp add: history_empty counted_def)

lemma ip_total:
  "log_total (counted 60 10000 (now div 10000) (failure_calls (ip_history l i))) =
     of_nat (length (filter (\<lambda>x. attempt_ip (fst x) = i \<and> counted_failure 600000 10000 now x) l))"
proof (induction l)
  case (Cons x l)
  have "ip_history (x # l) i = (if attempt_ip (fst x) = i
      then case ip_call (fst x) (snd x) of None \<Rightarrow> [] | Some y \<Rightarrow> [y] else []) @ ip_history l i"
    by (cases x) (auto simp: ip_history_def List.map_filter_simps split: option.split)
  then show ?case using Cons window_div [of "timestamp_ms (fst x)" "snd x" 600000 10000]
    by (auto simp: ip_call_def counted_failure_def failure_calls_def counted_Cons)
qed (simp add: history_empty counted_def failure_calls_def)

lemma never_saturated_short:
  assumes "length adds \<le> cap"
  shows "never_saturated w ms cap adds"
proof -
  have "card (window_members w ms nb (take k adds)) \<le> cap" for nb k
    unfolding window_members_code
    by (rule order_trans [OF card_image_le order_trans [OF card_length]])
       (use assms in \<open>auto intro: order_trans [OF length_filter_le]\<close>)
  then show ?thesis by (simp add: never_saturated_def)
qed

lemma length_map_filter: "length (List.map_filter f xs) \<le> length xs"
  by (simp add: List.map_filter_def)

lemma set_map_filter: "set (List.map_filter f xs) = {y. \<exists>x \<in> set xs. f x = Some y}"
  by (induction xs) (auto simp: List.map_filter_simps split: option.splits)

lemma ip_history_iff:
  "(m, ev, t) \<in> set (ip_history l i) \<longleftrightarrow> (\<exists>b. (b, t) \<in> set l \<and> attempt_ip b = i \<and> m = attempt_user_id b \<and>
     ev = timestamp_ms b \<and> attempt_result b = LoginFail \<and> isWithinWindow ev t 600000)"
  by (auto simp: ip_history_def set_map_filter ip_call_def split: if_splits intro!: rev_bexI)

lemma device_history_iff:
  "(m, ev, t) \<in> set (device_history l d) \<longleftrightarrow> (\<exists>b. (b, t) \<in> set l \<and> attempt_device_id b = d \<and>
     m = attempt_user_id b \<and> ev = timestamp_ms b \<and> isWithinWindow ev t 600000)"
  by (auto simp: device_history_def set_map_filter device_call_def split: if_splits intro!: rev_bexI)

lemma ip_members:
  "window_members 60 10000 (now div 10000) (ip_history l i) =
     {attempt_user_id (fst x) | x. x \<in> set l \<and> attempt_ip (fst x) = i \<and> counted_failure 600000 10000 now x}"
  unfolding window_members_def ip_history_iff counted_failure_def
  using window_div [of _ _ _ 10000] by fastforce

lemma device_members:
  "window_members 60 10000 (now div 10000) (device_history l d) =
     {attempt_user_id (fst x) | x. x \<in> set l \<and> attempt_device_id (fst x) = d \<and>
        isWithinWindow (timestamp_ms (fst x)) (snd x) 600000 \<and>
        in_window 60 (now div 10000) (timestamp_ms (fst x) div 10000)}"
  unfolding window_members_def device_history_iff
  using window_div [of _ _ _ 10000] by fastforce

definition example_attempt :: "string \<Rightarrow> nat \<Rightarrow> LoginResult \<Rightarrow> LoginAttempt" where
  "example_attempt u ts r = \<lparr>attempt_id = 1, timestamp_ms = ts, attempt_user_id = u,
     attempt_ip = ''10.0.0.1'', attempt_device_id = ''d'', attempt_result = r\<rparr>"

definition example_ttl :: FeatureStateReclamationConfig where
  "example_ttl = \<lparr>user_ttl_ms = 600000, ip_ttl_ms = 1200000, device_ttl_ms = 1200000\<rparr>"

definition example_history :: "store_op list" where
  "example_history = [Login (example_attempt ''u'' 1000 LoginFail) 1000,
     Login (example_attempt ''v'' 650000 LoginFail) 650000, Reclaim 650000,
     Login (example_attempt ''u'' 651000 LoginFail) 652000]"

lemma example_store: "\<exists>st. store_create example_ttl = Some st"
  by (simp add: store_create_def validateReclamationConfig_def example_ttl_def kDistinctWindowMs_def)

text \<open>
  C22.  Failed logins of a user are counted exactly.  After any history of requests and reclamations
  with a clock that does not go back, the user feature of a request is (modulo 2^32) the number of
  that user's failed attempts, this one included, that were at most five minutes old when they
  arrived and whose five-second bucket is among the last sixty; reclamation never changes it.
\<close>

theorem user_failures_counted:
  assumes "store_create c = Some st0" "sorted (map op_clock (ops @ [Login a now]))" "now < 2 ^ 64"
  shows "user_login_fail_5m (snd (updateAndGet hash a now (fst (run_calls (store_exec hash) ops st0)))) =
    of_nat (length (filter (\<lambda>x. attempt_user_id (fst x) = attempt_user_id a \<and>
      counted_failure 300000 5000 now x) (logins ops @ [(a, now)])))"
  using request_after [OF assms] by (simp add: snapshot_ok_def user_total)

theorem user_failures_counted_witness:
  "\<exists>st0. store_create example_ttl = Some st0 \<and>
     user_login_fail_5m (snd (updateAndGet (\<lambda>_. 0) (example_attempt ''u'' 653000 LoginSuccess) 653000
       (fst (run_calls (store_exec (\<lambda>_. 0)) example_history st0)))) = 1"
proof -
  obtain st0 where st0: "store_create example_ttl = Some st0" using example_store by blast
  then show ?thesis
    using user_failures_counted [OF st0, of example_history "example_attempt ''u'' 653000 LoginSuccess"
        653000 "\<lambda>_. 0"]
    by (simp add: example_history_def example_attempt_def counted_failure_def isWithinWindow_def
        in_window_def)
qed

text \<open>
  C21.  IP features are exact.  In the same setting, the failure feature of an IP is (modulo 2^32)
  the number of its failed attempts in the last sixty ten-second buckets, and, as long as no
  window of that IP held more than 5000 users, its distinct feature is the number of different
  users among them; successful logins never contribute.
\<close>

theorem ip_features_counted:
  assumes "store_create c = Some st0" "sorted (map op_clock (ops @ [Login a now]))" "now < 2 ^ 64"
    and "never_saturated 60 10000 5000 (ip_history (logins ops @ [(a, now)]) (attempt_ip a))"
  shows "ip_login_failures_10m (snd (updateAndGet hash a now (fst (run_calls (store_exec hash) ops st0)))) =
      of_nat (length (filter (\<lambda>x. attempt_ip (fst x) = attempt_ip a \<and>
        counted_failure 600000 10000 now x) (logins ops @ [(a, now)]))) \<and>
    ip_distinct_failed_user_10m (snd (updateAndGet hash a now (fst (run_calls (store_exec hash) ops st0)))) =
      of_nat (card {attempt_user_id (fst x) | x. x \<in> set (logins ops @ [(a, now)]) \<and>
        attempt_ip (fst x) = attempt_ip a \<and> counted_failure 600000 10000 now x})"
  using request_after [OF assms(1-3), of hash] assms(4)
  by (simp only: snapshot_ok_def members_value_def ip_total ip_members simp_thms)

theorem ip_features_counted_witness:
  "\<exists>st0. store_create example_ttl = Some st0 \<and>
     ip_login_failures_10m (snd (updateAndGet (\<lambda>_. 0) (example_attempt ''u'' 653000 LoginFail) 653000
       (fst (run_calls (store_exec (\<lambda>_. 0)) example_history st0)))) = 3"
proof -
  obtain st0 where st0: "store_create example_ttl = Some st0" using example_store by blast
  have "never_saturated 60 10000 5000
      (ip_history (logins example_history @ [(example_attempt ''u'' 653000 LoginFail, 653000)]) ''10.0.0.1'')"
    unfolding ip_history_def
    by (intro never_saturated_short order_trans [OF length_map_filter]) (simp add: example_history_def)
  then show ?thesis
    using st0 ip_features_counted [OF st0, of example_history "example_attempt ''u'' 653000 LoginFail"
        653000 "\<lambda>_. 0"]
    by (simp add: example_history_def example_attempt_def counted_failure_def isWithinWindow_def
        in_window_def)
qed

text \<open>
  C23.  Device features are exact.  In the same setting, and as long as no window of the device held
  more than 5000 accounts, the device feature is the number of different accounts that used the
  device in the last sixty ten-second buckets, whatever the results of the logins.
\<close>

theorem device_accounts_counted:
  assumes "store_create c = Some st0" "sorted (map op_clock (ops @ [Login a now]))" "now < 2 ^ 64"
    and "never_saturated 60 10000 5000 (device_history (logins ops @ [(a, now)]) (attempt_device_id a))"
  shows "device_distinct_account_10m (snd (updateAndGet hash a now (fst (run_calls (store_exec hash) ops st0)))) =
      of_nat (card {attempt_user_id (fst x) | x. x \<in> set (logins ops @ [(a, now)]) \<and>
        attempt_device_id (fst x) = attempt_device_id a \<and>
        isWithinWindow (timestamp_ms (fst x)) (snd x) 600000 \<and>
        in_window 60 (now div 10000) (timestamp_ms (fst x) div 10000)})"
  using request_after [OF assms(1-3), of hash] assms(4)
  by (simp only: snapshot_ok_def members_value_def device_members simp_thms)

theorem device_accounts_counted_witness:
  "\<exists>st0. store_create example_ttl = Some st0 \<and>
     device_distinct_account_10m (snd (updateAndGet (\<lambda>_. 0) (example_attempt ''u'' 5 LoginSuccess) 5 st0)) = 1"
proof -
  obtain st0 where st0: "store_create example_ttl = Some st0" using example_store by blast
  let ?a = "example_attempt ''u'' 5 LoginSuccess"
  have "never_saturated 60 10000 5000 (device_history (logins [] @ [(?a, 5)]) ''d'')"
    unfolding device_history_def
    by (intro never_saturated_short order_trans [OF length_map_filter]) simp
  moreover have "{attempt_user_id (fst x) | x. x \<in> set (logins [] @ [(?a, 5)]) \<and>
        attempt_device_id (fst x) = ''d'' \<and> isWithinWindow (timestamp_ms (fst x)) (snd x) 600000 \<and>
        in_window 60 (5 div 10000) (timestamp_ms (fst x) div 10000)} = {''u''}"
    by (auto simp: example_attempt_def isWithinWindow_def in_window_def)
  ultimately show ?thesis
    using st0 device_accounts_counted [OF st0, of "[]" ?a 5 "\<lambda>_. 0"] by (simp add: example_attempt_def)
qed

end
