(* ===== verification/Login_Policy.thy ===== *)
theory Login_Policy
  imports Blacklist Feature_Store
begin

text \<open>
  The policy chain (\<open>src/risk/login_policy_chain.cpp\<close>) and the generator of blacklist
  candidates (\<open>src/risk/blacklist_candidate_generator.cpp\<close>).
\<close>

section \<open>Policy chain\<close>

definition kReviewScore :: int where "kReviewScore = 30"
definition kRejectScore :: int where "kRejectScore = 100"

record LoginPolicyConfig =
  user_failure_review_threshold :: u32
  ip_spray_review_threshold :: u32
  device_sharing_review_threshold :: u32
  ip_distinct_reject_threshold :: u32
  ip_failure_reject_threshold :: u32

record LoginPolicyContext =
  ctx_features :: LoginFeatureSnapshot
  ctx_blacklist :: LoginBlacklistMatches

definition appendHit :: "PolicyHit list \<Rightarrow> string \<Rightarrow> LoginDecisionAction \<Rightarrow> int \<Rightarrow> PolicyHit list" where
  "appendHit hits reason action score =
     hits @ [\<lparr>reason_code = reason, hit_action = action, hit_risk_score = score\<rparr>]"

definition evaluateBlacklist :: "LoginPolicyContext \<Rightarrow> PolicyHit list \<Rightarrow> PolicyHit list" where
  "evaluateBlacklist ctx hits =
     (let hits = (if user_hit (ctx_blacklist ctx)
                  then appendHit hits ''blacklisted_user'' ActionReject kRejectScore else hits);
          hits = (if ip_hit (ctx_blacklist ctx)
                  then appendHit hits ''blacklisted_ip'' ActionReject kRejectScore else hits)
      in if device_hit (ctx_blacklist ctx)
         then appendHit hits ''blacklisted_device'' ActionReject kRejectScore else hits)"

definition evaluateCredentialStuffing ::
  "LoginPolicyContext \<Rightarrow> LoginPolicyConfig \<Rightarrow> PolicyHit list \<Rightarrow> PolicyHit list" where
  "evaluateCredentialStuffing ctx config hits =
     (if ip_distinct_failed_user_10m (ctx_features ctx) \<ge> ip_distinct_reject_threshold config \<and>
         ip_login_failures_10m (ctx_features ctx) \<ge> ip_failure_reject_threshold config
      then appendHit hits ''credential_stuffing_attack'' ActionReject kRejectScore else hits)"

definition evaluateUserFailures ::
  "LoginPolicyContext \<Rightarrow> LoginPolicyConfig \<Rightarrow> PolicyHit list \<Rightarrow> PolicyHit list" where
  "evaluateUserFailures ctx config hits =
     (if user_login_fail_5m (ctx_features ctx) \<ge> user_failure_review_threshold config
      then appendHit hits ''too_many_failed_login'' ActionReview kReviewScore else hits)"

definition evaluateIpSpray ::
  "LoginPolicyContext \<Rightarrow> LoginPolicyConfig \<Rightarrow> PolicyHit list \<Rightarrow> PolicyHit list" where
  "evaluateIpSpray ctx config hits =
     (if ip_distinct_failed_user_10m (ctx_features ctx) \<ge> ip_spray_review_threshold config
      then appendHit hits ''ip_many_users_failed_login'' ActionReview kReviewScore else hits)"

definition evaluateDeviceSharing ::
  "LoginPolicyContext \<Rightarrow> LoginPolicyConfig \<Rightarrow> PolicyHit list \<Rightarrow> PolicyHit list" where
  "evaluateDeviceSharing ctx config hits =
     (if device_distinct_account_10m (ctx_features ctx) \<ge> device_sharing_review_threshold config
      then appendHit hits ''device_many_accounts'' ActionReview kReviewScore else hits)"

fun severity :: "LoginDecisionAction \<Rightarrow> int" where
  "severity ActionPass = 0"
| "severity ActionReview = 1"
| "severity ActionReject = 2"

text \<open>\<open>False\<close> is the exception.\<close>

definition validateLoginPolicyConfig :: "LoginPolicyConfig \<Rightarrow> bool" where
  "validateLoginPolicyConfig c \<longleftrightarrow>
     \<not> (user_failure_review_threshold c = 0 \<or> ip_spray_review_threshold c = 0 \<or>
        device_sharing_review_threshold c = 0 \<or> ip_distinct_reject_threshold c = 0 \<or>
        ip_failure_reject_threshold c = 0) \<and>
     \<not> ip_distinct_reject_threshold c < ip_spray_review_threshold c \<and>
     \<not> (unat (ip_spray_review_threshold c) > kDistinctMaxMembers \<or>
        unat (device_sharing_review_threshold c) > kDistinctMaxMembers \<or>
        unat (ip_distinct_reject_threshold c) > kDistinctMaxMembers)"

fun aggregate :: "PolicyHit list \<Rightarrow> LoginDecisionAction \<Rightarrow> int \<Rightarrow> LoginDecisionAction \<times> int" where
  "aggregate [] action score = (action, score)"
| "aggregate (h # hs) action score =
     aggregate hs (if severity (hit_action h) > severity action then hit_action h else action)
       (max score (hit_risk_score h))"

definition policy_evaluate ::
  "LoginPolicyConfig \<Rightarrow> LoginAttempt \<Rightarrow> LoginFeatureSnapshot \<Rightarrow> LoginBlacklistMatches \<Rightarrow> LoginDecision" where
  "policy_evaluate config attempt features blacklist =
     (let ctx = \<lparr>ctx_features = features, ctx_blacklist = blacklist\<rparr>;
          hits = evaluateBlacklist ctx [];
          hits = evaluateCredentialStuffing ctx config hits;
          hits = evaluateUserFailures ctx config hits;
          hits = evaluateIpSpray ctx config hits;
          hits = evaluateDeviceSharing ctx config hits;
          (action, score) = aggregate hits ActionPass 0
      in \<lparr>decision_attempt_id = attempt_id attempt, decision_user_id = attempt_user_id attempt,
          decision_action = action, decision_risk_score = score, policy_hits = hits, cost_us = 0\<rparr>)"

section \<open>Candidate generator\<close>

definition kTemporaryIpTtlMs :: nat where "kTemporaryIpTtlMs = 30 * 60 * 1000"
definition kCredentialStuffingReason :: string where
  "kCredentialStuffingReason = ''credential_stuffing_attack''"

definition generate ::
  "pton \<Rightarrow> ntop \<Rightarrow> LoginAttempt \<Rightarrow> LoginDecision \<Rightarrow> LoginBlacklistMatches \<Rightarrow> nat \<Rightarrow> BlacklistMutation list" where
  "generate pt nt attempt decision blacklist now_ms =
     (if decision_action decision \<noteq> ActionReject \<or> user_hit blacklist \<or> ip_hit blacklist \<or>
         device_hit blacklist then []
      else if \<not> list_ex (\<lambda>h. hit_action h = ActionReject \<and> reason_code h = kCredentialStuffingReason)
                (policy_hits decision) \<or>
              now_ms > sub64 kMaxExpireAtMs kTemporaryIpTtlMs then []
      else case mutation_upsert pt nt EntityIp (attempt_ip attempt) kCredentialStuffingReason
                  (add64 now_ms kTemporaryIpTtlMs) of
             None \<Rightarrow> []
           | Some m \<Rightarrow> [m])"

section \<open>Facts\<close>

lemmas stage_defs = evaluateBlacklist_def evaluateCredentialStuffing_def
  evaluateUserFailures_def evaluateIpSpray_def evaluateDeviceSharing_def

text \<open>The conditions of the chain, in its order, with what each contributes.\<close>

definition stuffing :: "LoginPolicyConfig \<Rightarrow> LoginFeatureSnapshot \<Rightarrow> bool" where
  "stuffing c f \<longleftrightarrow> ip_distinct_failed_user_10m f \<ge> ip_distinct_reject_threshold c \<and>
     ip_login_failures_10m f \<ge> ip_failure_reject_threshold c"

definition rules ::
  "LoginPolicyConfig \<Rightarrow> LoginFeatureSnapshot \<Rightarrow> LoginBlacklistMatches \<Rightarrow> (bool \<times> PolicyHit) list" where
  "rules c f b =
     (let hit = (\<lambda>r a s. \<lparr>reason_code = r, hit_action = a, hit_risk_score = s\<rparr>)
      in [(user_hit b, hit ''blacklisted_user'' ActionReject 100),
          (ip_hit b, hit ''blacklisted_ip'' ActionReject 100),
          (device_hit b, hit ''blacklisted_device'' ActionReject 100),
          (stuffing c f, hit ''credential_stuffing_attack'' ActionReject 100),
          (user_login_fail_5m f \<ge> user_failure_review_threshold c,
           hit ''too_many_failed_login'' ActionReview 30),
          (ip_distinct_failed_user_10m f \<ge> ip_spray_review_threshold c,
           hit ''ip_many_users_failed_login'' ActionReview 30),
          (device_distinct_account_10m f \<ge> device_sharing_review_threshold c,
           hit ''device_many_accounts'' ActionReview 30)])"

lemma aggregate_append:
  "aggregate (xs @ ys) a s = (case aggregate xs a s of (a', s') \<Rightarrow> aggregate ys a' s')"
  by (induction xs arbitrary: a s) auto

lemma appendHit_if:
  "(if p then appendHit hits r a s else hits) =
     hits @ map snd (filter fst [(p, \<lparr>reason_code = r, hit_action = a, hit_risk_score = s\<rparr>)])"
  by (simp add: appendHit_def)

lemma rules_concat: "map snd (filter fst xs) = concat (map (\<lambda>x. map snd (filter fst [x])) xs)"
  by (induction xs) simp_all

lemma stages:
  "evaluateBlacklist ctx hits = hits @ map snd (filter fst (take 3 (rules c (ctx_features ctx) (ctx_blacklist ctx))))"
  "evaluateCredentialStuffing ctx c hits = hits @ map snd (filter fst [rules c (ctx_features ctx) b ! 3])"
  "evaluateUserFailures ctx c hits = hits @ map snd (filter fst [rules c (ctx_features ctx) b ! 4])"
  "evaluateIpSpray ctx c hits = hits @ map snd (filter fst [rules c (ctx_features ctx) b ! 5])"
  "evaluateDeviceSharing ctx c hits = hits @ map snd (filter fst [rules c (ctx_features ctx) b ! 6])"
  by (simp_all add: stage_defs appendHit_if rules_def stuffing_def Let_def kReviewScore_def kRejectScore_def
      del: filter.simps) simp_all

lemma length_rules: "length (rules c f b) = 7"
  by (simp add: rules_def Let_def)

lemma hits_rules:
  "policy_hits (policy_evaluate c a f b) = map snd (filter fst (rules c f b))"
proof -
  let ?r = "rules c f b" and ?ctx = "\<lparr>ctx_features = f, ctx_blacklist = b\<rparr>"
  have "take 3 ?r @ [?r ! 3] @ [?r ! 4] @ [?r ! 5] @ [?r ! 6] = ?r"
    by (simp add: rules_def Let_def)
  then have "map snd (filter fst ?r) = map snd (filter fst (take 3 ?r)) @ map snd (filter fst [?r ! 3]) @
      map snd (filter fst [?r ! 4]) @ map snd (filter fst [?r ! 5]) @ map snd (filter fst [?r ! 6])"
    by (metis filter_append map_append)
  moreover have "policy_hits (policy_evaluate c a f b) =
      evaluateDeviceSharing ?ctx c (evaluateIpSpray ?ctx c (evaluateUserFailures ?ctx c
        (evaluateCredentialStuffing ?ctx c (evaluateBlacklist ?ctx []))))"
    by (simp add: policy_evaluate_def Let_def case_prod_beta)
  ultimately show ?thesis
    using stages(1) [of ?ctx _ c] stages(2-) [of ?ctx c _ b] by simp
qed

lemma decision_aggregate:
  "decision_action (policy_evaluate c a f b) = fst (aggregate (policy_hits (policy_evaluate c a f b)) ActionPass 0)"
  "decision_risk_score (policy_evaluate c a f b) = snd (aggregate (policy_hits (policy_evaluate c a f b)) ActionPass 0)"
  by (simp_all add: policy_evaluate_def Let_def case_prod_beta)

lemma aggregate_spec:
  "severity (fst (aggregate hs a s)) = Max (insert (severity a) (severity ` hit_action ` set hs)) \<and>
   snd (aggregate hs a s) = Max (insert s (hit_risk_score ` set hs))"
proof (induction hs arbitrary: a s)
  case (Cons h hs)
  have "insert (severity a) (severity ` hit_action ` set (h # hs)) =
      insert (severity a) (insert (severity (hit_action h)) (severity ` hit_action ` set hs))" by auto
  moreover have "insert s (hit_risk_score ` set (h # hs)) =
      insert s (insert (hit_risk_score h) (hit_risk_score ` set hs))" by auto
  moreover have "Max (insert x (insert y A)) = Max (insert (max x y) A)" if "finite A"
    for x y :: int and A using that by (cases "A = {}") (auto simp: max.assoc)
  ultimately show ?case
    using Cons.IH [of "if severity (hit_action h) > severity a then hit_action h else a"
        "max s (hit_risk_score h)"]
    by (simp add: max_def if_distrib [of severity] split: if_splits)
qed simp

text \<open>The hits of the chain carry a rejection with score 100 or a review with score 30, so the
  decision only depends on which of the two kinds occur.\<close>

lemma aggregate_hits:
  assumes "\<forall>h \<in> set hs. (hit_action h, hit_risk_score h) \<in> {(ActionReject, 100), (ActionReview, 30)}"
    and "(a, s) \<in> {(ActionPass, 0), (ActionReview, 30), (ActionReject, 100)}"
  shows "aggregate hs a s =
    (if a = ActionReject \<or> (\<exists>h \<in> set hs. hit_action h = ActionReject) then (ActionReject, 100)
     else if hs \<noteq> [] then (ActionReview, 30) else (a, s))"
  using assms
proof (induction hs arbitrary: a s)
  case (Cons h hs)
  consider "hit_action h = ActionReject" "hit_risk_score h = 100"
    | "hit_action h = ActionReview" "hit_risk_score h = 30" using Cons.prems(1) by auto
  then show ?case
    using Cons.prems Cons.IH [of ActionReject 100] Cons.IH [of ActionReview 30] by cases auto
qed auto

lemma hit_iff: "(\<exists>h \<in> set (policy_hits (policy_evaluate c a f b)). P h) \<longleftrightarrow> (\<exists>r \<in> set (rules c f b). fst r \<and> P (snd r))"
  unfolding hits_rules set_map set_filter by blast

lemma no_hit_iff: "policy_hits (policy_evaluate c a f b) = [] \<longleftrightarrow> (\<forall>r \<in> set (rules c f b). \<not> fst r)"
  by (auto simp: hits_rules filter_empty_conv)

lemma reject_iff:
  "(\<exists>h \<in> set (policy_hits (policy_evaluate c a f b)). hit_action h = ActionReject) \<longleftrightarrow>
     user_hit b \<or> ip_hit b \<or> device_hit b \<or> stuffing c f"
  unfolding hit_iff by (simp add: rules_def Let_def)

lemma decision_cases:
  "decision_action (policy_evaluate c a f b) =
     (if user_hit b \<or> ip_hit b \<or> device_hit b \<or> stuffing c f then ActionReject
      else if policy_hits (policy_evaluate c a f b) = [] then ActionPass else ActionReview)"
  "decision_risk_score (policy_evaluate c a f b) =
     (if user_hit b \<or> ip_hit b \<or> device_hit b \<or> stuffing c f then 100
      else if policy_hits (policy_evaluate c a f b) = [] then 0 else 30)"
proof -
  have "\<forall>h \<in> snd ` set (rules c f b). (hit_action h, hit_risk_score h) \<in> {(ActionReject, 100), (ActionReview, 30)}"
    by (simp add: rules_def Let_def)
  then have "\<forall>h \<in> set (policy_hits (policy_evaluate c a f b)).
      (hit_action h, hit_risk_score h) \<in> {(ActionReject, 100), (ActionReview, 30)}"
    by (auto simp: hits_rules)
  from aggregate_hits [OF this, of ActionPass 0] show
    "decision_action (policy_evaluate c a f b) =
       (if user_hit b \<or> ip_hit b \<or> device_hit b \<or> stuffing c f then ActionReject
        else if policy_hits (policy_evaluate c a f b) = [] then ActionPass else ActionReview)"
    "decision_risk_score (policy_evaluate c a f b) =
       (if user_hit b \<or> ip_hit b \<or> device_hit b \<or> stuffing c f then 100
        else if policy_hits (policy_evaluate c a f b) = [] then 0 else 30)"
    unfolding reject_iff by (simp_all add: decision_aggregate)
qed

lemma stuffing_unat:
  "stuffing c f \<longleftrightarrow> unat (ip_distinct_failed_user_10m f) \<ge> unat (ip_distinct_reject_threshold c) \<and>
     unat (ip_login_failures_10m f) \<ge> unat (ip_failure_reject_threshold c)"
  by (simp add: stuffing_def word_le_nat_alt)

lemma no_hit_unat:
  "policy_hits (policy_evaluate c a f b) = [] \<longleftrightarrow>
     \<not> ((user_hit b \<or> ip_hit b \<or> device_hit b \<or> stuffing c f) \<or>
        unat (user_login_fail_5m f) \<ge> unat (user_failure_review_threshold c) \<or>
        unat (ip_distinct_failed_user_10m f) \<ge> unat (ip_spray_review_threshold c) \<or>
        unat (device_distinct_account_10m f) \<ge> unat (device_sharing_review_threshold c))"
  unfolding no_hit_iff by (simp add: rules_def Let_def word_le_nat_alt)

lemma decision_unat:
  "decision_action (policy_evaluate c a f b) =
     (if user_hit b \<or> ip_hit b \<or> device_hit b \<or>
         unat (ip_distinct_failed_user_10m f) \<ge> unat (ip_distinct_reject_threshold c) \<and>
         unat (ip_login_failures_10m f) \<ge> unat (ip_failure_reject_threshold c) then ActionReject
      else if unat (user_login_fail_5m f) \<ge> unat (user_failure_review_threshold c) \<or>
         unat (ip_distinct_failed_user_10m f) \<ge> unat (ip_spray_review_threshold c) \<or>
         unat (device_distinct_account_10m f) \<ge> unat (device_sharing_review_threshold c) then ActionReview
      else ActionPass)"
  "decision_risk_score (policy_evaluate c a f b) =
     (if user_hit b \<or> ip_hit b \<or> device_hit b \<or>
         unat (ip_distinct_failed_user_10m f) \<ge> unat (ip_distinct_reject_threshold c) \<and>
         unat (ip_login_failures_10m f) \<ge> unat (ip_failure_reject_threshold c) then 100
      else if unat (user_login_fail_5m f) \<ge> unat (user_failure_review_threshold c) \<or>
         unat (ip_distinct_failed_user_10m f) \<ge> unat (ip_spray_review_threshold c) \<or>
         unat (device_distinct_account_10m f) \<ge> unat (device_sharing_review_threshold c) then 30
      else 0)"
  unfolding decision_cases no_hit_unat stuffing_unat [symmetric] by simp_all

lemma rules_mono:
  assumes "user_login_fail_5m f \<le> user_login_fail_5m f'"
    and "ip_distinct_failed_user_10m f \<le> ip_distinct_failed_user_10m f'"
    and "device_distinct_account_10m f \<le> device_distinct_account_10m f'"
    and "ip_login_failures_10m f \<le> ip_login_failures_10m f'"
    and "user_hit b \<longrightarrow> user_hit b'" "ip_hit b \<longrightarrow> ip_hit b'" "device_hit b \<longrightarrow> device_hit b'"
    and "user_failure_review_threshold c' \<le> user_failure_review_threshold c"
    and "ip_spray_review_threshold c' \<le> ip_spray_review_threshold c"
    and "device_sharing_review_threshold c' \<le> device_sharing_review_threshold c"
    and "ip_distinct_reject_threshold c' \<le> ip_distinct_reject_threshold c"
    and "ip_failure_reject_threshold c' \<le> ip_failure_reject_threshold c"
  shows "list_all2 (\<lambda>r r'. fst r \<longrightarrow> fst r' \<and> snd r = snd r') (rules c f b) (rules c' f' b')"
proof -
  have le: "x' \<le> x \<Longrightarrow> y \<le> y' \<Longrightarrow> x \<le> y \<longrightarrow> x' \<le> y'" for x x' y y' :: u32
    by (meson order_trans)
  have "stuffing c f \<longrightarrow> stuffing c' f'"
    using le [OF assms(11,2)] le [OF assms(12,4)] by (simp add: stuffing_def)
  then show ?thesis
    using assms(5-7) le [OF assms(8,1)] le [OF assms(9,2)] le [OF assms(10,3)]
    by (simp add: rules_def Let_def)
qed

lemma stuffing_hit:
  "list_ex (\<lambda>h. hit_action h = ActionReject \<and> reason_code h = kCredentialStuffingReason)
     (policy_hits (policy_evaluate c a f b)) \<longleftrightarrow> stuffing c f"
  unfolding list_ex_iff hit_iff by (simp add: rules_def Let_def kCredentialStuffingReason_def)

lemma generate_policy:
  "generate pt nt a (policy_evaluate c a f b) b now =
     (if stuffing c f \<and> \<not> user_hit b \<and> \<not> ip_hit b \<and> \<not> device_hit b \<and>
         now \<le> kMaxExpireAtMs - kTemporaryIpTtlMs
      then case mutation_upsert pt nt EntityIp (attempt_ip a) kCredentialStuffingReason
                  (now + kTemporaryIpTtlMs) of None \<Rightarrow> [] | Some m \<Rightarrow> [m]
      else [])"
proof -
  have "add64 now kTemporaryIpTtlMs = now + kTemporaryIpTtlMs"
    if "now \<le> kMaxExpireAtMs - kTemporaryIpTtlMs"
    using that by (intro add64_small) (simp add: kMaxExpireAtMs_def kTemporaryIpTtlMs_def)
  moreover have "sub64 kMaxExpireAtMs kTemporaryIpTtlMs = kMaxExpireAtMs - kTemporaryIpTtlMs"
    by (simp add: kMaxExpireAtMs_def kTemporaryIpTtlMs_def)
  ultimately show ?thesis
    by (simp add: generate_def stuffing_hit decision_cases)
qed

section \<open>Properties\<close>

text \<open>
  C19.  The decision is exactly what the thresholds say.  A login is rejected when its user, IP or
  device is blacklisted or when both stuffing thresholds are reached, reviewed when it is not
  rejected and the user, the IP or the device reaches its review threshold, and passed otherwise;
  the score is 100, 30 or 0 accordingly; the hits are exactly the conditions of the chain that hold,
  rejecting and reviewing ones alike, in the fixed order of the chain, each with its reason, action
  and score; and the decision carries the attempt's identifiers.
\<close>

theorem policy_decides:
  "let d = policy_evaluate c a f b;
       rejected = (user_hit b \<or> ip_hit b \<or> device_hit b \<or>
         (unat (ip_distinct_failed_user_10m f) \<ge> unat (ip_distinct_reject_threshold c) \<and>
          unat (ip_login_failures_10m f) \<ge> unat (ip_failure_reject_threshold c)));
       suspicious = (unat (user_login_fail_5m f) \<ge> unat (user_failure_review_threshold c) \<or>
         unat (ip_distinct_failed_user_10m f) \<ge> unat (ip_spray_review_threshold c) \<or>
         unat (device_distinct_account_10m f) \<ge> unat (device_sharing_review_threshold c))
   in decision_action d = (if rejected then ActionReject else if suspicious then ActionReview else ActionPass) \<and>
      decision_risk_score d = (if rejected then 100 else if suspicious then 30 else 0) \<and>
      policy_hits d =
        [\<lparr>reason_code = reason, hit_action = action, hit_risk_score = score\<rparr>.
           (holds, reason, action, score) \<leftarrow>
             [(user_hit b, ''blacklisted_user'', ActionReject, 100),
              (ip_hit b, ''blacklisted_ip'', ActionReject, 100),
              (device_hit b, ''blacklisted_device'', ActionReject, 100),
              (unat (ip_distinct_failed_user_10m f) \<ge> unat (ip_distinct_reject_threshold c) \<and>
               unat (ip_login_failures_10m f) \<ge> unat (ip_failure_reject_threshold c),
               ''credential_stuffing_attack'', ActionReject, 100),
              (unat (user_login_fail_5m f) \<ge> unat (user_failure_review_threshold c),
               ''too_many_failed_login'', ActionReview, 30),
              (unat (ip_distinct_failed_user_10m f) \<ge> unat (ip_spray_review_threshold c),
               ''ip_many_users_failed_login'', ActionReview, 30),
              (unat (device_distinct_account_10m f) \<ge> unat (device_sharing_review_threshold c),
               ''device_many_accounts'', ActionReview, 30)], holds] \<and>
      decision_attempt_id d = attempt_id a \<and> decision_user_id d = attempt_user_id a"
proof -
  have ids: "decision_attempt_id (policy_evaluate c a f b) = attempt_id a"
      "decision_user_id (policy_evaluate c a f b) = attempt_user_id a"
    by (simp_all add: policy_evaluate_def Let_def case_prod_beta)
  show ?thesis
    unfolding Let_def decision_unat hits_rules rules_def stuffing_unat word_le_nat_alt
    using ids by (simp add: rules_concat)
qed

text \<open>
  C26.  More evidence never softens a decision.  With feature counts that are at least as large,
  blacklist matches that include the earlier ones and thresholds that are at most as high, every
  policy hit is kept and neither the severity of the action nor the score goes down.
\<close>

theorem policy_monotone:
  assumes "user_login_fail_5m f \<le> user_login_fail_5m f'"
    and "ip_distinct_failed_user_10m f \<le> ip_distinct_failed_user_10m f'"
    and "device_distinct_account_10m f \<le> device_distinct_account_10m f'"
    and "ip_login_failures_10m f \<le> ip_login_failures_10m f'"
    and "user_hit b \<longrightarrow> user_hit b'" "ip_hit b \<longrightarrow> ip_hit b'" "device_hit b \<longrightarrow> device_hit b'"
    and "user_failure_review_threshold c' \<le> user_failure_review_threshold c"
    and "ip_spray_review_threshold c' \<le> ip_spray_review_threshold c"
    and "device_sharing_review_threshold c' \<le> device_sharing_review_threshold c"
    and "ip_distinct_reject_threshold c' \<le> ip_distinct_reject_threshold c"
    and "ip_failure_reject_threshold c' \<le> ip_failure_reject_threshold c"
  shows "set (policy_hits (policy_evaluate c a f b)) \<subseteq> set (policy_hits (policy_evaluate c' a f' b')) \<and>
    severity (decision_action (policy_evaluate c a f b)) \<le> severity (decision_action (policy_evaluate c' a f' b')) \<and>
    decision_risk_score (policy_evaluate c a f b) \<le> decision_risk_score (policy_evaluate c' a f' b')"
proof -
  let ?d = "policy_evaluate c a f b" and ?d' = "policy_evaluate c' a f' b'"
  have "list_all2 (\<lambda>r r'. fst r \<longrightarrow> fst r' \<and> snd r = snd r') (rules c f b) (rules c' f' b')"
    using rules_mono assms by blast
  then have s: "set (policy_hits ?d) \<subseteq> set (policy_hits ?d')"
    unfolding hits_rules set_map set_filter by (fastforce simp: list_all2_conv_all_nth in_set_conv_nth)
  show ?thesis
    unfolding decision_aggregate conjunct1 [OF aggregate_spec] conjunct2 [OF aggregate_spec]
    using s by (intro conjI Max_mono insert_mono image_mono) simp_all
qed

theorem policy_monotone_witness:
  "severity (decision_action (policy_evaluate
       \<lparr>user_failure_review_threshold = 5, ip_spray_review_threshold = 10, device_sharing_review_threshold = 5,
        ip_distinct_reject_threshold = 20, ip_failure_reject_threshold = 20\<rparr>
       (example_attempt ''u'' 5 LoginFail) empty_snapshot no_matches)) \<le>
   severity (decision_action (policy_evaluate
       \<lparr>user_failure_review_threshold = 5, ip_spray_review_threshold = 10, device_sharing_review_threshold = 5,
        ip_distinct_reject_threshold = 20, ip_failure_reject_threshold = 20\<rparr>
       (example_attempt ''u'' 5 LoginFail) (empty_snapshot\<lparr>user_login_fail_5m := 7\<rparr>)
       (no_matches\<lparr>ip_hit := True\<rparr>)))"
  using policy_monotone [of empty_snapshot "empty_snapshot\<lparr>user_login_fail_5m := 7\<rparr>" no_matches
      "no_matches\<lparr>ip_hit := True\<rparr>"
      "\<lparr>user_failure_review_threshold = 5, ip_spray_review_threshold = 10, device_sharing_review_threshold = 5,
        ip_distinct_reject_threshold = 20, ip_failure_reject_threshold = 20\<rparr>"
      "\<lparr>user_failure_review_threshold = 5, ip_spray_review_threshold = 10, device_sharing_review_threshold = 5,
        ip_distinct_reject_threshold = 20, ip_failure_reject_threshold = 20\<rparr>"
      "example_attempt ''u'' 5 LoginFail"]
  by (simp add: empty_snapshot_def no_matches_def)

text \<open>
  What validating the thresholds buys.  With a validated configuration a login with no
  recorded history and no blacklist match passes with no hit, every stuffing rejection is also
  reported as IP spraying, and the distinct thresholds can be reached by the windows, whose member
  count never exceeds the capacity.
\<close>

theorem policy_config_sound:
  assumes "validateLoginPolicyConfig c"
  shows "policy_hits (policy_evaluate c a empty_snapshot no_matches) = [] \<and>
    (''credential_stuffing_attack'' \<in> reason_code ` set (policy_hits (policy_evaluate c a f b)) \<longrightarrow>
     ''ip_many_users_failed_login'' \<in> reason_code ` set (policy_hits (policy_evaluate c a f b))) \<and>
    (unat (ip_distinct_failed_user_10m f) = kDistinctMaxMembers \<and>
     ip_login_failures_10m f \<ge> ip_failure_reject_threshold c \<longrightarrow>
     decision_action (policy_evaluate c a f b) = ActionReject)"
proof -
  have img: "(r \<in> reason_code ` set (policy_hits (policy_evaluate c a f b))) =
      (\<exists>x \<in> set (rules c f b). fst x \<and> reason_code (snd x) = r)" for r
    using hit_iff [of c a f b "\<lambda>h. reason_code h = r"] by auto
  have pos: "\<not> x \<le> (0 :: u32)" if "x \<noteq> 0" for x using that by simp
  have "policy_hits (policy_evaluate c a empty_snapshot no_matches) = []"
    using assms unfolding no_hit_iff
    by (simp add: rules_def Let_def stuffing_def validateLoginPolicyConfig_def empty_snapshot_def no_matches_def pos)
  moreover have "stuffing c f" if "unat (ip_distinct_failed_user_10m f) = kDistinctMaxMembers"
      "ip_login_failures_10m f \<ge> ip_failure_reject_threshold c"
    using that assms by (simp add: stuffing_def validateLoginPolicyConfig_def word_le_nat_alt)
  moreover have "ip_spray_review_threshold c \<le> ip_distinct_failed_user_10m f" if "stuffing c f"
    using that assms by (auto simp: stuffing_def validateLoginPolicyConfig_def)
  moreover have "decision_action (policy_evaluate c a f b) = ActionReject" if "stuffing c f"
    using that by (simp add: decision_cases)
  moreover have "(''credential_stuffing_attack'' \<in> reason_code ` set (policy_hits (policy_evaluate c a f b))) = stuffing c f"
    unfolding img by (simp add: rules_def Let_def)
  moreover have "(''ip_many_users_failed_login'' \<in> reason_code ` set (policy_hits (policy_evaluate c a f b))) =
      (ip_spray_review_threshold c \<le> ip_distinct_failed_user_10m f)"
    unfolding img by (simp add: rules_def Let_def)
  ultimately show ?thesis by (intro conjI impI) (simp_all only: simp_thms)
qed

theorem policy_config_sound_witness:
  "policy_hits (policy_evaluate
       \<lparr>user_failure_review_threshold = 5, ip_spray_review_threshold = 10, device_sharing_review_threshold = 5,
        ip_distinct_reject_threshold = 20, ip_failure_reject_threshold = 20\<rparr>
       (example_attempt ''u'' 5 LoginFail) empty_snapshot no_matches) = []"
  using policy_config_sound [THEN conjunct1, of "\<lparr>user_failure_review_threshold = 5, ip_spray_review_threshold = 10,
        device_sharing_review_threshold = 5, ip_distinct_reject_threshold = 20, ip_failure_reject_threshold = 20\<rparr>"]
  by (simp add: validateLoginPolicyConfig_def kDistinctMaxMembers_def)

text \<open>
  C27.  When a candidate is generated.  For a decision of the policy chain on an attempt with a
  canonical IP, the generator asks for exactly one mutation, a thirty-minute upsert of that IP,
  when the stuffing thresholds are reached, no blacklist entry matched and the expiry is
  representable, and for none otherwise.
\<close>

theorem candidate_exact:
  assumes "ip_parse pt nt (attempt_ip a) = Some x" "canonicalText x = attempt_ip a"
    and "now \<le> kMaxExpireAtMs - kTemporaryIpTtlMs"
  shows "generate pt nt a (policy_evaluate c a f b) b now =
    (if ip_distinct_failed_user_10m f \<ge> ip_distinct_reject_threshold c \<and>
        ip_login_failures_10m f \<ge> ip_failure_reject_threshold c \<and> b = no_matches
     then [\<lparr>mut_operation = OpUpsert, mut_entity_type = Some EntityIp, mut_id = attempt_ip a,
            mut_reason = ''credential_stuffing_attack'', mut_expire_at_ms = now + 1800000\<rparr>]
     else [])"
proof -
  have "b = no_matches \<longleftrightarrow> \<not> user_hit b \<and> \<not> ip_hit b \<and> \<not> device_hit b"
    by (cases b) (auto simp: no_matches_def)
  moreover have "now + kTemporaryIpTtlMs \<le> kMaxExpireAtMs"
    using assms(3) by (simp add: kMaxExpireAtMs_def kTemporaryIpTtlMs_def)
  ultimately show ?thesis
    using assms by (simp add: generate_policy stuffing_def mutation_upsert_def normalizeId_def validText_def
        kCredentialStuffingReason_def kMaxReasonBytes_def kTemporaryIpTtlMs_def)
qed

theorem candidate_exact_witness:
  "\<exists>x. ip_parse example_pton example_ntop ''4|..|.|.'' = Some x \<and>
     generate example_pton example_ntop ((example_attempt ''u'' 5 LoginFail)\<lparr>attempt_ip := ''4|..|.|.''\<rparr>)
       (policy_evaluate \<lparr>user_failure_review_threshold = 5, ip_spray_review_threshold = 10,
          device_sharing_review_threshold = 5, ip_distinct_reject_threshold = 20, ip_failure_reject_threshold = 20\<rparr>
          ((example_attempt ''u'' 5 LoginFail)\<lparr>attempt_ip := ''4|..|.|.''\<rparr>)
          (empty_snapshot\<lparr>ip_distinct_failed_user_10m := 20, ip_login_failures_10m := 25\<rparr>) no_matches)
       no_matches 7 \<noteq> []"
proof -
  have "\<exists>x. ip_parse example_pton example_ntop ''4|..|.|.'' = Some x \<and> canonicalText x = ''4|..|.|.''"
    by (simp add: ip_parse_def example_pton_def containsNull_def ip_fromBytes_def example_ntop_def Let_def
        enc_byte_def)
  then obtain x where x: "ip_parse example_pton example_ntop ''4|..|.|.'' = Some x" "canonicalText x = ''4|..|.|.''"
    by blast
  show ?thesis
    using x candidate_exact [of example_pton example_ntop
        "(example_attempt ''u'' 5 LoginFail)\<lparr>attempt_ip := ''4|..|.|.''\<rparr>" x 7]
    by (simp add: kMaxExpireAtMs_def kTemporaryIpTtlMs_def)
qed

end
