(* ===== verification/Candidate_Queue.thy ===== *)
theory Candidate_Queue
  imports Blacklist
begin

text \<open>
  The bounded queue of blacklist candidates between the login workers and the maintenance task
  (\<open>src/app/blacklist_candidate_queue.cpp\<close>).  Every operation is one critical section.
\<close>

section \<open>Model\<close>

datatype CandidateSubmitStatus = CandidateAccepted | CandidateFull | CandidateClosed | CandidateInvalid

record BlacklistCandidateQueue =
  cq_capacity :: nat
  cq_queued :: "BlacklistMutation list"
  cq_reserved :: "BlacklistMutation list"
  dropped_count :: nat
  reported_dropped_count :: nat
  dropped_on_shutdown_count :: nat
  cq_closed :: bool

record BlacklistCandidateQueueStats =
  stats_queued :: nat
  stats_reserved :: nat
  stats_dropped :: nat
  stats_dropped_on_shutdown :: nat
  stats_closed :: bool

definition queue_create :: "nat \<Rightarrow> BlacklistCandidateQueue option" where
  "queue_create capacity =
     (if capacity = 0 then None
      else Some \<lparr>cq_capacity = capacity, cq_queued = [], cq_reserved = [], dropped_count = 0,
                 reported_dropped_count = 0, dropped_on_shutdown_count = 0, cq_closed = False\<rparr>)"

definition isCandidate :: "BlacklistMutation \<Rightarrow> bool" where
  "isCandidate m \<longleftrightarrow> mut_operation m = OpUpsert \<and> mut_entity_type m \<noteq> None"

definition queue_trySubmit ::
  "BlacklistMutation \<Rightarrow> BlacklistCandidateQueue \<Rightarrow> BlacklistCandidateQueue \<times> CandidateSubmitStatus" where
  "queue_trySubmit candidate q =
     (if \<not> isCandidate candidate then (q, CandidateInvalid)
      else if cq_closed q then (q, CandidateClosed)
      else if length (cq_queued q) + length (cq_reserved q) \<ge> cq_capacity q
      then (if dropped_count q \<noteq> max64 then q\<lparr>dropped_count := dropped_count q + 1\<rparr> else q, CandidateFull)
      else (q\<lparr>cq_queued := cq_queued q @ [candidate]\<rparr>, CandidateAccepted))"

definition expiresLater :: "nat \<Rightarrow> nat \<Rightarrow> bool" where
  "expiresLater candidate_expire_at_ms current_expire_at_ms \<longleftrightarrow>
     candidate_expire_at_ms = 0 \<or>
     (current_expire_at_ms \<noteq> 0 \<and> candidate_expire_at_ms > current_expire_at_ms)"

fun mergeIntoReserved :: "BlacklistMutation list \<Rightarrow> BlacklistMutation \<Rightarrow> BlacklistMutation list" where
  "mergeIntoReserved [] m = [m]"
| "mergeIntoReserved (item # batch) m =
     (if mut_entity_type item = mut_entity_type m \<and> mut_id item = mut_id m
      then if expiresLater (mut_expire_at_ms m) (mut_expire_at_ms item) then m # batch else item # batch
      else item # mergeIntoReserved batch m)"

definition reserveBatch ::
  "nat \<Rightarrow> BlacklistCandidateQueue \<Rightarrow> BlacklistCandidateQueue \<times> BlacklistMutation list" where
  "reserveBatch max_batch_size q =
     (if cq_reserved q \<noteq> [] then (q, cq_reserved q)
      else if max_batch_size = 0 then (q, [])
      else let take_count = min max_batch_size (length (cq_queued q));
               batch = foldl mergeIntoReserved (cq_reserved q) (take take_count (cq_queued q))
           in (q\<lparr>cq_queued := drop take_count (cq_queued q), cq_reserved := batch\<rparr>, batch))"

definition acknowledgeReserved :: "BlacklistCandidateQueue \<Rightarrow> BlacklistCandidateQueue" where
  "acknowledgeReserved q = q\<lparr>cq_reserved := []\<rparr>"

definition queue_close :: "BlacklistCandidateQueue \<Rightarrow> BlacklistCandidateQueue" where
  "queue_close q = q\<lparr>cq_closed := True\<rparr>"

definition discardRemainingOnShutdown :: "BlacklistCandidateQueue \<Rightarrow> BlacklistCandidateQueue \<times> nat" where
  "discardRemainingOnShutdown q =
     (let remaining = length (cq_queued q) + length (cq_reserved q);
          available = sub64 max64 (dropped_on_shutdown_count q);
          added = min remaining available
      in (q\<lparr>cq_queued := [], cq_reserved := [],
            dropped_on_shutdown_count := add64 (dropped_on_shutdown_count q) added\<rparr>, added))"

definition takeDroppedSinceLastReport :: "BlacklistCandidateQueue \<Rightarrow> BlacklistCandidateQueue \<times> nat" where
  "takeDroppedSinceLastReport q =
     (q\<lparr>reported_dropped_count := dropped_count q\<rparr>, sub64 (dropped_count q) (reported_dropped_count q))"

definition queue_stats :: "BlacklistCandidateQueue \<Rightarrow> BlacklistCandidateQueueStats" where
  "queue_stats q = \<lparr>stats_queued = length (cq_queued q), stats_reserved = length (cq_reserved q),
     stats_dropped = dropped_count q, stats_dropped_on_shutdown = dropped_on_shutdown_count q,
     stats_closed = cq_closed q\<rparr>"

definition queue_empty :: "BlacklistCandidateQueue \<Rightarrow> bool" where
  "queue_empty q \<longleftrightarrow> cq_queued q = [] \<and> cq_reserved q = []"

section \<open>Calls\<close>

datatype queue_call =
    TrySubmit BlacklistMutation | ReserveBatch nat | Acknowledge | CloseQueue | DiscardRemaining
  | TakeDropped

datatype queue_result =
    SubmitResult CandidateSubmitStatus | Batch "BlacklistMutation list" | CountResult nat | Unit

fun queue_exec :: "queue_call \<Rightarrow> BlacklistCandidateQueue \<Rightarrow> BlacklistCandidateQueue \<times> queue_result" where
  "queue_exec (TrySubmit m) q = (let (q, r) = queue_trySubmit m q in (q, SubmitResult r))"
| "queue_exec (ReserveBatch n) q = (let (q, b) = reserveBatch n q in (q, Batch b))"
| "queue_exec Acknowledge q = (acknowledgeReserved q, Unit)"
| "queue_exec CloseQueue q = (queue_close q, Unit)"
| "queue_exec DiscardRemaining q = (let (q, n) = discardRemainingOnShutdown q in (q, CountResult n))"
| "queue_exec TakeDropped q = (let (q, n) = takeDroppedSinceLastReport q in (q, CountResult n))"

text \<open>What the queue was asked to keep and what it handed over, from a state on: the accepted
  candidates, the batches in the reservation when it is acknowledged, and the elements discarded.\<close>

fun accepted_of :: "queue_call list \<Rightarrow> BlacklistCandidateQueue \<Rightarrow> BlacklistMutation list" where
  "accepted_of [] q = []"
| "accepted_of (c # cs) q =
     (case c of TrySubmit m \<Rightarrow> (if snd (queue_trySubmit m q) = CandidateAccepted then [m] else []) | _ \<Rightarrow> []) @
     accepted_of cs (fst (queue_exec c q))"

fun acknowledged_of :: "queue_call list \<Rightarrow> BlacklistCandidateQueue \<Rightarrow> BlacklistMutation list" where
  "acknowledged_of [] q = []"
| "acknowledged_of (c # cs) q =
     (case c of Acknowledge \<Rightarrow> cq_reserved q | _ \<Rightarrow> []) @ acknowledged_of cs (fst (queue_exec c q))"

section \<open>Invariant\<close>

abbreviation entity_of :: "BlacklistMutation \<Rightarrow> EntityType option \<times> string" where
  "entity_of m \<equiv> (mut_entity_type m, mut_id m)"

definition queue_wf :: "BlacklistCandidateQueue \<Rightarrow> bool" where
  "queue_wf q \<longleftrightarrow>
     length (cq_queued q) + length (cq_reserved q) \<le> cq_capacity q \<and>
     distinct (map entity_of (cq_reserved q)) \<and>
     list_all isCandidate (cq_queued q) \<and> list_all isCandidate (cq_reserved q) \<and>
     reported_dropped_count q \<le> dropped_count q \<and> dropped_count q \<le> max64 \<and>
     dropped_on_shutdown_count q \<le> max64"

lemma merge_length: "length (mergeIntoReserved b m) \<le> Suc (length b)"
  by (induction b) auto

lemma merge_entities: "set (map entity_of (mergeIntoReserved b m)) = insert (entity_of m) (set (map entity_of b))"
  by (induction b) auto

lemma merge_distinct: "distinct (map entity_of b) \<Longrightarrow> distinct (map entity_of (mergeIntoReserved b m))"
proof (induction b)
  case (Cons x b)
  then show ?case using merge_entities [of b m] by auto
qed simp

lemma merge_candidates: "list_all isCandidate b \<Longrightarrow> isCandidate m \<Longrightarrow> list_all isCandidate (mergeIntoReserved b m)"
  by (induction b) auto

lemma merge_fold:
  "length (foldl mergeIntoReserved b ms) \<le> length b + length ms \<and>
   (distinct (map entity_of b) \<longrightarrow> distinct (map entity_of (foldl mergeIntoReserved b ms))) \<and>
   (list_all isCandidate b \<and> list_all isCandidate ms \<longrightarrow> list_all isCandidate (foldl mergeIntoReserved b ms))"
proof (induction ms arbitrary: b)
  case (Cons m ms)
  have "length (foldl mergeIntoReserved (mergeIntoReserved b m) ms) \<le> length b + length (m # ms)"
    using Cons [of "mergeIntoReserved b m"] merge_length [of b m] by simp
  then show ?case
    using Cons [of "mergeIntoReserved b m"] merge_distinct [of b m] merge_candidates [of b m] by simp
qed simp

lemma create_queue_wf: "queue_create n = Some q \<Longrightarrow> queue_wf q \<and> cq_capacity q = n"
  by (auto simp: queue_create_def queue_wf_def split: if_splits)

lemma exec_queue_wf:
  assumes "queue_wf q"
  shows "queue_wf (fst (queue_exec c q)) \<and> cq_capacity (fst (queue_exec c q)) = cq_capacity q"
proof (cases c)
  case (TrySubmit m)
  then show ?thesis using assms by (auto simp: queue_trySubmit_def queue_wf_def max64_def)
next
  case (ReserveBatch n)
  show ?thesis
  proof (cases "cq_reserved q = [] \<and> n \<noteq> 0")
    case True
    let ?k = "min n (length (cq_queued q))"
    have "list_all isCandidate (take ?k (cq_queued q))" "list_all isCandidate (drop ?k (cq_queued q))"
      using assms unfolding queue_wf_def by (metis append_take_drop_id list_all_append)+
    then show ?thesis
      using assms True merge_fold [of "[]" "take ?k (cq_queued q)"] ReserveBatch
      by (auto simp: queue_wf_def reserveBatch_def Let_def)
  next
    case False
    then show ?thesis using assms ReserveBatch by (auto simp: reserveBatch_def)
  qed
next
  case DiscardRemaining
  have "add64 (dropped_on_shutdown_count q) (min x (max64 - dropped_on_shutdown_count q)) \<le> max64" for x
    by (simp add: add64_def max64_def)
  then show ?thesis using assms DiscardRemaining
    by (simp add: discardRemainingOnShutdown_def queue_wf_def Let_def)
qed (use assms in \<open>auto simp: queue_wf_def acknowledgeReserved_def queue_close_def takeDroppedSinceLastReport_def\<close>)

section \<open>No candidate is lost\<close>

text \<open>A candidate is covered by a list that bans the same entity at least as long.\<close>

definition covered :: "BlacklistMutation \<Rightarrow> BlacklistMutation list \<Rightarrow> bool" where
  "covered m ms \<longleftrightarrow>
     (\<exists>x \<in> set ms. entity_of x = entity_of m \<and>
        (mut_expire_at_ms x = 0 \<or> mut_expire_at_ms m \<noteq> 0 \<and> mut_expire_at_ms m \<le> mut_expire_at_ms x))"

lemma covered_append [simp]: "covered m (xs @ ys) \<longleftrightarrow> covered m xs \<or> covered m ys"
  by (auto simp: covered_def)

lemma covered_self: "m \<in> set ms \<Longrightarrow> covered m ms"
  by (force simp: covered_def)

lemma merge_covers:
  assumes "covered x b \<or> x = m"
  shows "covered x (mergeIntoReserved b m)"
  using assms
proof (induction b)
  case (Cons y b)
  show ?case
  proof (cases "entity_of y = entity_of m")
    case True
    then show ?thesis using Cons.prems by (auto simp: covered_def expiresLater_def)
  next
    case False
    then show ?thesis using Cons by (auto simp: covered_def)
  qed
qed (auto simp: covered_def)

lemma fold_covers: "covered x b \<or> x \<in> set ms \<Longrightarrow> covered x (foldl mergeIntoReserved b ms)"
proof (induction ms arbitrary: b)
  case (Cons m ms)
  then show ?case using merge_covers [of x b m] by auto
qed simp

definition kept :: "BlacklistMutation \<Rightarrow> BlacklistCandidateQueue \<Rightarrow> bool" where
  "kept m q \<longleftrightarrow> m \<in> set (cq_queued q) \<or> covered m (cq_reserved q)"

lemma reserve_keeps: "kept m q \<Longrightarrow> kept m (fst (reserveBatch n q))"
proof -
  let ?k = "min n (length (cq_queued q))"
  assume "kept m q"
  moreover have "m \<in> set (cq_queued q) \<Longrightarrow> m \<in> set (take ?k (cq_queued q)) \<or> m \<in> set (drop ?k (cq_queued q))"
    by (metis Un_iff append_take_drop_id set_append)
  ultimately show ?thesis
    using fold_covers [of m "[]" "take ?k (cq_queued q)"]
    by (auto simp: kept_def reserveBatch_def Let_def covered_def [of m "[]"])
qed

lemma exec_keeps:
  assumes "kept m q" "c \<noteq> DiscardRemaining"
  shows "kept m (fst (queue_exec c q)) \<or> c = Acknowledge \<and> covered m (cq_reserved q)"
proof (cases c)
  case (ReserveBatch n)
  then show ?thesis using reserve_keeps [OF assms(1), of n] by (simp add: case_prod_beta)
next
  case (TrySubmit x)
  then show ?thesis using assms(1) by (auto simp: queue_trySubmit_def kept_def)
qed (use assms in \<open>auto simp: kept_def acknowledgeReserved_def queue_close_def takeDroppedSinceLastReport_def\<close>)

lemma run_cons: "fst (run_calls f (c # cs) s) = fst (run_calls f cs (fst (f c s)))"
  by (simp add: case_prod_beta Let_def)

lemma run_keeps:
  assumes "kept m q" "DiscardRemaining \<notin> set cs"
  shows "kept m (fst (run_calls queue_exec cs q)) \<or> covered m (acknowledged_of cs q)"
  using assms
proof (induction cs arbitrary: q)
  case (Cons c cs)
  then have "kept m (fst (queue_exec c q)) \<or> c = Acknowledge \<and> covered m (cq_reserved q)"
    by (intro exec_keeps) auto
  then show ?case
  proof
    assume "kept m (fst (queue_exec c q))"
    with Cons.IH [OF this] Cons.prems(2) show ?thesis unfolding run_cons by auto
  qed simp
qed simp

lemma accepted_keeps:
  assumes "m \<in> set (accepted_of cs q)" "DiscardRemaining \<notin> set cs"
  shows "kept m (fst (run_calls queue_exec cs q)) \<or> covered m (acknowledged_of cs q)"
  using assms
proof (induction cs arbitrary: q)
  case (Cons c cs)
  let ?q = "fst (queue_exec c q)"
  have "m \<in> set (accepted_of cs ?q) \<or> c = TrySubmit m \<and> snd (queue_trySubmit m q) = CandidateAccepted"
    using Cons.prems(1) by (auto split: queue_call.splits if_splits)
  moreover have "kept m ?q" if "c = TrySubmit m" "snd (queue_trySubmit m q) = CandidateAccepted"
    using that by (auto simp: queue_trySubmit_def kept_def split: if_splits)
  ultimately have "kept m (fst (run_calls queue_exec cs ?q)) \<or> covered m (acknowledged_of cs ?q)"
    using Cons.IH [of ?q] run_keeps [of m ?q cs] Cons.prems(2) by auto
  then show ?case unfolding run_cons by auto
qed simp

lemma reserved_stays:
  assumes "cq_reserved q = b" "b \<noteq> []" "Acknowledge \<notin> set cs" "DiscardRemaining \<notin> set cs"
  shows "cq_reserved (fst (run_calls queue_exec cs q)) = b"
  using assms
proof (induction cs arbitrary: q)
  case (Cons c cs)
  have "cq_reserved (fst (queue_exec c q)) = b"
    using Cons.prems by (cases c) (auto simp: queue_trySubmit_def reserveBatch_def queue_close_def
        takeDroppedSinceLastReport_def)
  then show ?case unfolding run_cons using Cons by auto
qed simp

section \<open>Properties\<close>

text \<open>
  C36.  No accepted candidate is lost before shutdown.  Over any sequence of calls on a fresh queue
  without the final discarding, every accepted candidate is still queued, or the batch in
  reservation or an acknowledged batch bans the same entity at least as long.
\<close>

theorem candidates_not_lost:
  assumes "queue_create n = Some q" "DiscardRemaining \<notin> set cs" "m \<in> set (accepted_of cs q)"
  shows "m \<in> set (cq_queued (fst (run_calls queue_exec cs q))) \<or>
    (\<exists>x \<in> set (cq_reserved (fst (run_calls queue_exec cs q))) \<union> set (acknowledged_of cs q).
       mut_entity_type x = mut_entity_type m \<and> mut_id x = mut_id m \<and>
       (mut_expire_at_ms x = 0 \<or> mut_expire_at_ms m \<noteq> 0 \<and> mut_expire_at_ms m \<le> mut_expire_at_ms x))"
  using accepted_keeps [OF assms(3,2)] by (auto simp: kept_def covered_def)

definition example_ban :: "string \<Rightarrow> nat \<Rightarrow> BlacklistMutation" where
  "example_ban i t = \<lparr>mut_operation = OpUpsert, mut_entity_type = Some EntityIp, mut_id = i,
     mut_reason = ''r'', mut_expire_at_ms = t\<rparr>"

theorem candidates_not_lost_witness:
  "\<exists>q. queue_create 3 = Some q \<and>
     (\<exists>x \<in> set (cq_reserved (fst (run_calls queue_exec
          [TrySubmit (example_ban ''a'' 9), TrySubmit (example_ban ''a'' 5), ReserveBatch 4] q))).
        mut_id x = ''a'' \<and> 9 \<le> mut_expire_at_ms x)"
proof -
  obtain q where q: "queue_create 3 = Some q" by (simp add: queue_create_def)
  let ?cs = "[TrySubmit (example_ban ''a'' 9), TrySubmit (example_ban ''a'' 5), ReserveBatch 4]"
  have "example_ban ''a'' 9 \<in> set (accepted_of ?cs q)" "acknowledged_of ?cs q = []"
    "cq_queued (fst (run_calls queue_exec ?cs q)) = []" "mut_expire_at_ms (example_ban ''a'' 9) = 9"
    "\<forall>x \<in> set (cq_reserved (fst (run_calls queue_exec ?cs q))). mut_expire_at_ms x \<noteq> 0"
    using q by (auto simp: queue_create_def queue_trySubmit_def isCandidate_def example_ban_def
        reserveBatch_def expiresLater_def Let_def)
  with candidates_not_lost [OF q, of ?cs "example_ban ''a'' 9"] show ?thesis
    using q by (auto simp: example_ban_def)
qed

text \<open>
  C37.  Bounded, deduplicated and retried in order.  In every state reachable from a fresh queue of
  capacity \<open>n\<close>, queued and reserved candidates together are at most \<open>n\<close>, the reservation has at
  most one entry per entity, and a non-empty batch that was handed out is handed out again,
  unchanged, until it is acknowledged or discarded, whatever else is called.
\<close>

theorem queue_bounded_retry:
  assumes "queue_create n = Some q" and "q' = fst (run_calls queue_exec cs q)"
  shows "length (cq_queued q') + length (cq_reserved q') \<le> n \<and>
    distinct (map (\<lambda>m. (mut_entity_type m, mut_id m)) (cq_reserved q')) \<and>
    (\<forall>k j ds. snd (reserveBatch k q') \<noteq> [] \<and> Acknowledge \<notin> set ds \<and> DiscardRemaining \<notin> set ds \<longrightarrow>
       snd (reserveBatch j (fst (run_calls queue_exec ds (fst (reserveBatch k q'))))) = snd (reserveBatch k q'))"
proof -
  have "queue_wf (fst (run_calls queue_exec cs s)) \<and> cq_capacity (fst (run_calls queue_exec cs s)) = cq_capacity s"
    if "queue_wf s" for s
    using that
  proof (induction cs arbitrary: s)
    case (Cons c cs)
    then show ?case unfolding run_cons using exec_queue_wf [of s c] by metis
  qed simp
  then have wf: "queue_wf q'" "cq_capacity q' = n" using assms create_queue_wf by blast+
  have "cq_reserved (fst (reserveBatch k q')) = snd (reserveBatch k q') \<or> snd (reserveBatch k q') = []" for k
    by (simp add: reserveBatch_def Let_def)
  then have "snd (reserveBatch j (fst (run_calls queue_exec ds (fst (reserveBatch k q'))))) = snd (reserveBatch k q')"
    if "snd (reserveBatch k q') \<noteq> []" "Acknowledge \<notin> set ds" "DiscardRemaining \<notin> set ds" for k j ds
    using that reserved_stays [of "fst (reserveBatch k q')" "snd (reserveBatch k q')" ds]
    by (metis reserveBatch_def snd_conv)
  then show ?thesis using wf by (simp add: queue_wf_def)
qed

theorem queue_bounded_retry_witness:
  "\<exists>q. queue_create 3 = Some q \<and>
     length (cq_queued (fst (run_calls queue_exec [TrySubmit (example_ban ''a'' 9)] q))) \<le> 3"
proof -
  obtain q where q: "queue_create 3 = Some q" by (simp add: queue_create_def)
  from queue_bounded_retry [OF q refl, of "[TrySubmit (example_ban ''a'' 9)]"] show ?thesis using q by auto
qed

end
