(* ===== verification/Mailboxes.thy ===== *)
theory Mailboxes
  imports Ring_Buffer Timer_Types
begin

text \<open>
  The three bounded mailboxes of an event loop (\<open>src/net/loop_mailbox.cpp\<close>): business
  completions, accepted sockets and timer events, each a ring under a mutex with an eventfd that
  wakes the loop.  The results of the eventfd system calls are parameters; a call that is retried
  for ever is the value \<open>None\<close>.  An owned socket is its descriptor.
\<close>

section \<open>Wake descriptors\<close>

datatype write_outcome = WriteDone | WriteInterrupted | WriteWouldBlock | WriteError

datatype read_outcome = ReadValue | ReadInterrupted | ReadWouldBlock | ReadError

fun signalWakeFd :: "write_outcome list \<Rightarrow> bool option" where
  "signalWakeFd [] = None"
| "signalWakeFd (WriteDone # _) = Some True"
| "signalWakeFd (WriteInterrupted # ws) = signalWakeFd ws"
| "signalWakeFd (WriteWouldBlock # _) = Some True"
| "signalWakeFd (WriteError # _) = Some False"

fun drainWakeFd :: "read_outcome list \<Rightarrow> bool option" where
  "drainWakeFd [] = None"
| "drainWakeFd (ReadValue # rs) = drainWakeFd rs"
| "drainWakeFd (ReadInterrupted # rs) = drainWakeFd rs"
| "drainWakeFd (ReadWouldBlock # _) = Some True"
| "drainWakeFd (ReadError # _) = Some False"

section \<open>Business completions\<close>

datatype BusinessCompletionStatus =
    CompletionResponse | CompletionInvalidRequest | CompletionOutputLimitExceeded
  | CompletionFailed | CompletionCancelled

record BusinessCompletion =
  completion_token :: ConnectionToken
  completion_status :: BusinessCompletionStatus
  response_frame :: bytes

definition completion_valid :: "BusinessCompletion \<Rightarrow> bool" where
  "completion_valid c \<longleftrightarrow>
     (let response_shape_valid =
            (if completion_status c = CompletionResponse then response_frame c \<noteq> [] else response_frame c = [])
      in token_valid (completion_token c) \<and> response_shape_valid)"

record LoopMailbox =
  loop_queue :: "BusinessCompletion ring"
  buffered_bytes :: nat
  byte_capacity :: nat
  max_completion_bytes :: nat
  loop_accepting :: bool

text \<open>The constructors take what \<open>eventfd\<close> returns; \<open>None\<close>: they throw.\<close>

definition loop_mailbox_create :: "int \<Rightarrow> nat \<Rightarrow> nat \<Rightarrow> nat \<Rightarrow> LoopMailbox option" where
  "loop_mailbox_create wake_fd capacity bytes max_bytes =
     (if capacity = 0 \<or> bytes = 0 \<or> max_bytes = 0 \<or> max_bytes > bytes then None
      else if wake_fd < 0 then None
      else Some \<lparr>loop_queue = ring_create capacity, buffered_bytes = 0, byte_capacity = bytes,
                 max_completion_bytes = max_bytes, loop_accepting = True\<rparr>)"

definition loop_tryPost :: "write_outcome list \<Rightarrow> BusinessCompletion \<Rightarrow> LoopMailbox \<Rightarrow> (LoopMailbox \<times> bool) option" where
  "loop_tryPost ws c b =
     (let response_shape_valid =
            (if completion_status c = CompletionResponse then response_frame c \<noteq> [] else response_frame c = []);
          completion_bytes = length (response_frame c)
      in if \<not> token_valid (completion_token c) \<or> \<not> response_shape_valid then Some (b, False)
         else if completion_bytes > max_completion_bytes b then Some (b, False)
         else if \<not> loop_accepting b then Some (b, False)
         else if ring_size (loop_queue b) = length (ring_slots (loop_queue b)) then Some (b, False)
         else if completion_bytes > sub64 (byte_capacity b) (buffered_bytes b) then Some (b, False)
         else let inserted_index = ring_tail (loop_queue b);
                  b' = b\<lparr>loop_queue := ring_push c (loop_queue b),
                         buffered_bytes := add64 (buffered_bytes b) completion_bytes\<rparr>
              in case signalWakeFd ws of
                   None \<Rightarrow> None
                 | Some True \<Rightarrow> Some (b', True)
                 | Some False \<Rightarrow>
                     Some (b'\<lparr>loop_queue := ring_rollback inserted_index (loop_queue b'),
                              buffered_bytes := sub64 (buffered_bytes b') completion_bytes\<rparr>, False))"

fun frame_bytes :: "BusinessCompletion option \<Rightarrow> nat" where
  "frame_bytes (Some c) = length (response_frame c)"
| "frame_bytes None = 0"

definition loop_tryPop :: "LoopMailbox \<Rightarrow> LoopMailbox \<times> BusinessCompletion option" where
  "loop_tryPop b =
     (if ring_size (loop_queue b) = 0 then (b, None)
      else let (r, c) = ring_pop (loop_queue b)
           in (b\<lparr>loop_queue := r, buffered_bytes := sub64 (buffered_bytes b) (frame_bytes c)\<rparr>, c))"

definition loop_drainWakeSignal :: "read_outcome list \<Rightarrow> bool option" where
  "loop_drainWakeSignal rs = drainWakeFd rs"

function loop_close_queue :: "LoopMailbox \<Rightarrow> LoopMailbox" where
  "loop_close_queue b =
     (if ring_size (loop_queue b) \<noteq> 0
      then let (r, c) = ring_pop (loop_queue b)
           in loop_close_queue (b\<lparr>loop_queue := r, buffered_bytes := sub64 (buffered_bytes b) (frame_bytes c)\<rparr>)
      else b)"
  by pat_completeness auto
termination by (relation "measure (\<lambda>b. ring_size (loop_queue b))") (auto simp: ring_pop_def)

declare loop_close_queue.simps [simp del]

definition loop_close :: "LoopMailbox \<Rightarrow> LoopMailbox" where
  "loop_close b =
     (let b = loop_close_queue (b\<lparr>loop_accepting := False\<rparr>)
      in b\<lparr>loop_queue := (loop_queue b)\<lparr>ring_tail := ring_head (loop_queue b)\<rparr>, buffered_bytes := 0\<rparr>)"

section \<open>Accepted sockets\<close>

definition socket_valid :: "int \<Rightarrow> bool" where
  "socket_valid fd \<longleftrightarrow> fd \<ge> 0"

record ConnectionMailbox =
  conn_queue :: "int ring"
  conn_accepting :: bool

definition conn_mailbox_create :: "int \<Rightarrow> nat \<Rightarrow> ConnectionMailbox option" where
  "conn_mailbox_create wake_fd capacity =
     (if capacity = 0 then None
      else if wake_fd < 0 then None
      else Some \<lparr>conn_queue = ring_create capacity, conn_accepting = True\<rparr>)"

definition conn_tryPost :: "write_outcome list \<Rightarrow> int \<Rightarrow> ConnectionMailbox \<Rightarrow> (ConnectionMailbox \<times> bool) option" where
  "conn_tryPost ws socket b =
     (if \<not> socket_valid socket then Some (b, False)
      else if \<not> conn_accepting b then Some (b, False)
      else if ring_size (conn_queue b) = length (ring_slots (conn_queue b)) then Some (b, False)
      else let index = ring_tail (conn_queue b);
               b' = b\<lparr>conn_queue := ring_push socket (conn_queue b)\<rparr>
           in case signalWakeFd ws of
                None \<Rightarrow> None
              | Some True \<Rightarrow> Some (b', True)
              | Some False \<Rightarrow> Some (b'\<lparr>conn_queue := ring_rollback index (conn_queue b')\<rparr>, False))"

definition conn_tryPop :: "ConnectionMailbox \<Rightarrow> ConnectionMailbox \<times> int option" where
  "conn_tryPop b =
     (if ring_size (conn_queue b) = 0 then (b, None)
      else let (r, socket) = ring_pop (conn_queue b) in (b\<lparr>conn_queue := r\<rparr>, socket))"

definition conn_drainWakeSignal :: "read_outcome list \<Rightarrow> bool option" where
  "conn_drainWakeSignal rs = drainWakeFd rs"

text \<open>The wake signal after the discarding has no effect on the mailbox.\<close>

definition conn_close :: "ConnectionMailbox \<Rightarrow> ConnectionMailbox \<times> nat" where
  "conn_close b =
     (let (r, discarded) = ring_discard (conn_queue b)
      in (b\<lparr>conn_accepting := False, conn_queue := r\<lparr>ring_tail := ring_head r\<rparr>\<rparr>, length discarded))"

section \<open>Timer events\<close>

definition connectionTimeoutEvent :: "TimerEvent \<Rightarrow> bool" where
  "connectionTimeoutEvent e \<longleftrightarrow>
     event_kind e \<in> {IdleTimeout, ReadTimeout, WriteTimeout, BusinessTimeout} \<and>
     target_fd e \<ge> 0 \<and> target_generation e \<noteq> 0 \<and> target_sequence e \<noteq> 0"

record TimeoutMailbox =
  timeout_queue :: "TimerEvent ring"
  timeout_accepting :: bool
  rescan_required :: bool

definition timeout_mailbox_create :: "int \<Rightarrow> nat \<Rightarrow> TimeoutMailbox option" where
  "timeout_mailbox_create wake_fd capacity =
     (if capacity = 0 then None
      else if wake_fd < 0 then None
      else Some \<lparr>timeout_queue = ring_create capacity, timeout_accepting = True, rescan_required = False\<rparr>)"

definition timeout_tryPost :: "write_outcome list \<Rightarrow> TimerEvent \<Rightarrow> TimeoutMailbox \<Rightarrow> (TimeoutMailbox \<times> bool) option" where
  "timeout_tryPost ws event b =
     (if \<not> connectionTimeoutEvent event then Some (b, False)
      else if \<not> timeout_accepting b then Some (b, False)
      else if ring_size (timeout_queue b) = length (ring_slots (timeout_queue b))
      then map_option (\<lambda>signalled. (b\<lparr>rescan_required := True\<rparr>, signalled)) (signalWakeFd ws)
      else let index = ring_tail (timeout_queue b);
               b' = b\<lparr>timeout_queue := ring_push event (timeout_queue b)\<rparr>
           in case signalWakeFd ws of
                None \<Rightarrow> None
              | Some True \<Rightarrow> Some (b', True)
              | Some False \<Rightarrow> Some (b'\<lparr>timeout_queue := ring_rollback index (timeout_queue b')\<rparr>, False))"

definition timeout_tryPop :: "TimeoutMailbox \<Rightarrow> TimeoutMailbox \<times> TimerEvent option" where
  "timeout_tryPop b =
     (if ring_size (timeout_queue b) = 0 then (b, None)
      else let (r, event) = ring_pop (timeout_queue b) in (b\<lparr>timeout_queue := r\<rparr>, event))"

definition timeout_drainWakeSignal :: "read_outcome list \<Rightarrow> bool option" where
  "timeout_drainWakeSignal rs = drainWakeFd rs"

definition takeRescanRequest :: "TimeoutMailbox \<Rightarrow> TimeoutMailbox \<times> bool" where
  "takeRescanRequest b = (b\<lparr>rescan_required := False\<rparr>, rescan_required b)"

definition timeout_close :: "TimeoutMailbox \<Rightarrow> TimeoutMailbox" where
  "timeout_close b =
     (let (r, _) = ring_discard (timeout_queue b)
      in b\<lparr>timeout_accepting := False, rescan_required := False,
           timeout_queue := r\<lparr>ring_tail := ring_head r\<rparr>\<rparr>)"

section \<open>Runs of a mailbox\<close>

datatype 'a mail_event = Posted 'a bool | Received "'a option" | Rescanned bool | Discarded

text \<open>Any sequence of calls, with their results.\<close>

inductive mail_run ::
  "(write_outcome list \<Rightarrow> 'a \<Rightarrow> 's \<Rightarrow> ('s \<times> bool) option) \<Rightarrow> ('s \<Rightarrow> 's \<times> 'a option) \<Rightarrow>
   ('s \<Rightarrow> 's \<times> bool) \<Rightarrow> ('s \<Rightarrow> 's) \<Rightarrow> 's \<Rightarrow> 'a mail_event list \<Rightarrow> 's \<Rightarrow> bool"
  for post pop rescan close where
  mail_start: "mail_run post pop rescan close s [] s"
| mail_post: "mail_run post pop rescan close s es t \<Longrightarrow> post ws x t = Some (u, ok) \<Longrightarrow>
     mail_run post pop rescan close s (es @ [Posted x ok]) u"
| mail_pop: "mail_run post pop rescan close s es t \<Longrightarrow> pop t = (u, y) \<Longrightarrow>
     mail_run post pop rescan close s (es @ [Received y]) u"
| mail_rescan: "mail_run post pop rescan close s es t \<Longrightarrow> rescan t = (u, b) \<Longrightarrow>
     mail_run post pop rescan close s (es @ [Rescanned b]) u"
| mail_close: "mail_run post pop rescan close s es t \<Longrightarrow>
     mail_run post pop rescan close s (es @ [Discarded]) (close t)"

fun posted :: "'a mail_event list \<Rightarrow> 'a list" where
  "posted [] = []"
| "posted (Posted x True # es) = x # posted es"
| "posted (_ # es) = posted es"

fun received :: "'a mail_event list \<Rightarrow> 'a list" where
  "received [] = []"
| "received (Received (Some x) # es) = x # received es"
| "received (_ # es) = received es"

lemma mail_append [simp]:
  "posted (es @ fs) = posted es @ posted fs" "received (es @ fs) = received es @ received fs"
proof -
  show "posted (es @ fs) = posted es @ posted fs" by (induction es rule: posted.induct) simp_all
  show "received (es @ fs) = received es @ received fs" by (induction es rule: received.induct) simp_all
qed

inductive_cases mail_run_nilE: "mail_run post pop rescan close s [] u"
inductive_cases mail_run_snocE: "mail_run post pop rescan close s (es @ [e]) u"

lemma mail_run_split:
  assumes "mail_run post pop rescan close s (es @ fs) u"
  shows "\<exists>t. mail_run post pop rescan close s es t \<and> mail_run post pop rescan close t fs u"
  using assms
proof (induction fs arbitrary: u rule: rev_induct)
  case Nil
  then show ?case using mail_run.mail_start [of post pop rescan close u] by auto
next
  case (snoc e fs)
  from snoc.prems have "mail_run post pop rescan close s ((es @ fs) @ [e]) u" by simp
  then show ?case by (elim mail_run_snocE) (force dest!: snoc.IH intro: mail_run.intros)+
qed

lemma mail_run_posted:
  assumes "mail_run post pop rescan close s [Posted x ok] u"
  shows "\<exists>ws. post ws x s = Some (u, ok)"
proof -
  have "mail_run post pop rescan close s ([] @ [Posted x ok]) u" using assms by simp
  then show ?thesis by (cases rule: mail_run.cases) (auto elim: mail_run_nilE)
qed

section \<open>Contract\<close>

text \<open>
  The contract of a mailbox: a successful post appends, unless the mailbox is full and asks for a
  rescan instead; a failed post stores nothing; a pop takes the first element; closing empties the
  mailbox for good.
\<close>

locale mailbox =
  fixes invar :: "'s \<Rightarrow> bool" and contents :: "'s \<Rightarrow> 'a list" and opened :: "'s \<Rightarrow> bool"
    and flagged :: "'s \<Rightarrow> bool"
    and post :: "write_outcome list \<Rightarrow> 'a \<Rightarrow> 's \<Rightarrow> ('s \<times> bool) option" and pop :: "'s \<Rightarrow> 's \<times> 'a option"
    and rescan :: "'s \<Rightarrow> 's \<times> bool" and close :: "'s \<Rightarrow> 's"
  assumes post_law: "invar s \<Longrightarrow> post ws x s = Some (t, ok) \<Longrightarrow>
      invar t \<and> opened t = opened s \<and> (flagged s \<longrightarrow> flagged t) \<and>
      (contents t = contents s @ [x] \<and> ok \<and> opened s \<or> contents t = contents s \<and> (ok \<longrightarrow> flagged t))"
    and pop_law: "invar s \<Longrightarrow> pop s = (t, y) \<Longrightarrow>
      invar t \<and> opened t = opened s \<and> flagged t = flagged s \<and>
      contents s = (case y of None \<Rightarrow> [] | Some x \<Rightarrow> [x]) @ contents t \<and> (y = None \<longrightarrow> contents s = [])"
    and rescan_law: "invar s \<Longrightarrow> rescan s = (t, b) \<Longrightarrow>
      invar t \<and> opened t = opened s \<and> contents t = contents s \<and> (flagged s \<longrightarrow> b \<or> flagged t)"
    and close_law: "invar s \<Longrightarrow> invar (close s) \<and> \<not> opened (close s) \<and> contents (close s) = []"
begin

lemma run_invar: "mail_run post pop rescan close s es t \<Longrightarrow> invar s \<Longrightarrow> invar t"
  by (induction rule: mail_run.induct) (blast dest: post_law pop_law rescan_law close_law)+

text \<open>Where nothing is ever flagged, accepted messages are received in order, discarded by closing
  or still there.\<close>

lemma run_fifo:
  assumes "mail_run post pop rescan close s es t" "invar s" "contents s = []" "\<And>s. \<not> flagged s"
  shows "\<exists>lost. posted es = received es @ lost @ contents t \<and> (lost \<noteq> [] \<longrightarrow> Discarded \<in> set es) \<and>
    (Discarded \<in> set es \<longrightarrow> \<not> opened t \<and> contents t = [])"
  using assms(1-3)
proof (induction rule: mail_run.induct)
  case (mail_post s es t ws x u ok)
  then have "invar t" using run_invar by blast
  from post_law [OF this mail_post.hyps(2)] show ?case
    using mail_post assms(4) by (cases ok) (auto 0 3)
next
  case (mail_pop s es t u y)
  then have "invar t" using run_invar by blast
  from pop_law [OF this mail_pop.hyps(2)] show ?case
    using mail_pop by (cases y) auto
next
  case (mail_rescan s es t u b)
  then have "invar t" using run_invar by blast
  from rescan_law [OF this mail_rescan.hyps(2)] show ?case using mail_rescan by auto
next
  case (mail_close s es t)
  then have "invar t" using run_invar by blast
  from close_law [OF this] show ?case using mail_close by auto
qed simp

text \<open>A message that was accepted, or for which a rescan was asked, stays owed until it is received,
  the rescan is taken or the mailbox is closed.\<close>

lemma run_owed:
  assumes "mail_run post pop rescan close s es t" "invar s" "x \<in> set (contents s) \<or> flagged s"
    "Discarded \<notin> set es"
  shows "x \<in> set (received es) \<or> x \<in> set (contents t) \<or> flagged t \<or> Rescanned True \<in> set es"
  using assms
proof (induction rule: mail_run.induct)
  case (mail_post s es t ws y u ok)
  then have "invar t" using run_invar by blast
  from post_law [OF this mail_post.hyps(2)] show ?case using mail_post by auto
next
  case (mail_pop s es t u y)
  then have "invar t" using run_invar by blast
  from pop_law [OF this mail_pop.hyps(2)] show ?case
    using mail_pop by (cases y) auto
next
  case (mail_rescan s es t u b)
  then have "invar t" using run_invar by blast
  from rescan_law [OF this mail_rescan.hyps(2)] show ?case using mail_rescan by auto
qed auto

end

section \<open>The three mailboxes keep the contract\<close>

lemma ring_nonempty: "ring_wf r \<Longrightarrow> ring_size r \<noteq> 0 \<Longrightarrow> ring_list r \<noteq> []"
  by (metis length_0_conv length_ring_list)

lemma ring_empty_iff: "ring_size r = 0 \<longleftrightarrow> ring_list r = []"
  by (metis length_0_conv length_ring_list)

lemma ring_not_full:
  "ring_wf r \<Longrightarrow> ring_size r \<noteq> length (ring_slots r) \<Longrightarrow> ring_size r < ring_cap r"
  by (simp add: ring_wf_def ring_cap_def)

lemma ring_discard_tail: "ring_wf r \<Longrightarrow> ring_discard r = (r', xs) \<Longrightarrow>
    r'\<lparr>ring_tail := ring_head r'\<rparr> = r' \<and> ring_wf r' \<and> ring_list r' = [] \<and> xs = map Some (ring_list r)"
  using ring_discard_wf [of r] ring_wf_empty [of r'] by (simp add: ring_empty_iff)

text \<open>Timer events.\<close>

abbreviation timeouts :: "TimeoutMailbox \<Rightarrow> TimerEvent list" where
  "timeouts b \<equiv> ring_list (timeout_queue b)"

lemma timeout_tryPost_cases:
  assumes "ring_wf (timeout_queue b)" "timeout_tryPost ws e b = Some (b', ok)"
  shows "b' = b \<and> \<not> ok \<or> b' = b\<lparr>rescan_required := True\<rparr> \<or>
    timeout_accepting b \<and> ring_size (timeout_queue b) < ring_cap (timeout_queue b) \<and> ok \<and>
    b' = b\<lparr>timeout_queue := ring_push e (timeout_queue b)\<rparr>"
  using assms ring_not_full [OF assms(1)] ring_rollback_push [OF assms(1), of e]
  by (auto simp: timeout_tryPost_def Let_def split: if_splits option.splits bool.splits)

interpretation timeout_box: mailbox "\<lambda>b. ring_wf (timeout_queue b)" timeouts timeout_accepting rescan_required
  timeout_tryPost timeout_tryPop takeRescanRequest timeout_close
proof unfold_locales
  fix s t :: TimeoutMailbox and ws x ok
  assume "ring_wf (timeout_queue s)" "timeout_tryPost ws x s = Some (t, ok)"
  from timeout_tryPost_cases [OF this]
  show "ring_wf (timeout_queue t) \<and> timeout_accepting t = timeout_accepting s \<and>
      (rescan_required s \<longrightarrow> rescan_required t) \<and>
      (timeouts t = timeouts s @ [x] \<and> ok \<and> timeout_accepting s \<or>
       timeouts t = timeouts s \<and> (ok \<longrightarrow> rescan_required t))"
    using \<open>ring_wf (timeout_queue s)\<close> by (elim disjE conjE) (simp_all add: ring_push_wf)
next
  fix s t :: TimeoutMailbox and y
  assume s: "ring_wf (timeout_queue s)" "timeout_tryPop s = (t, y)"
  show "ring_wf (timeout_queue t) \<and> timeout_accepting t = timeout_accepting s \<and>
      rescan_required t = rescan_required s \<and>
      timeouts s = (case y of None \<Rightarrow> [] | Some x \<Rightarrow> [x]) @ timeouts t \<and> (y = None \<longrightarrow> timeouts s = [])"
  proof (cases "ring_size (timeout_queue s) = 0")
    case True
    then show ?thesis using s by (simp add: timeout_tryPop_def ring_empty_iff)
  next
    case False
    then show ?thesis
      using s ring_fifo.pop_Cons [OF s(1)] ring_nonempty [OF s(1)] by (auto simp: timeout_tryPop_def)
  qed
next
  fix s t :: TimeoutMailbox and b
  assume "ring_wf (timeout_queue s)" "takeRescanRequest s = (t, b)"
  then show "ring_wf (timeout_queue t) \<and> timeout_accepting t = timeout_accepting s \<and>
      timeouts t = timeouts s \<and> (rescan_required s \<longrightarrow> b \<or> rescan_required t)"
    by (auto simp: takeRescanRequest_def)
next
  fix s :: TimeoutMailbox
  assume s: "ring_wf (timeout_queue s)"
  obtain r xs where d: "ring_discard (timeout_queue s) = (r, xs)" by (metis surj_pair)
  show "ring_wf (timeout_queue (timeout_close s)) \<and> \<not> timeout_accepting (timeout_close s) \<and>
      timeouts (timeout_close s) = []"
    using ring_discard_tail [OF s d] by (simp add: timeout_close_def d)
qed

text \<open>Sockets.\<close>

abbreviation sockets :: "ConnectionMailbox \<Rightarrow> int list" where
  "sockets b \<equiv> ring_list (conn_queue b)"

lemma conn_tryPost_cases:
  assumes "ring_wf (conn_queue b)" "conn_tryPost ws e b = Some (b', ok)"
  shows "b' = b \<and> \<not> ok \<or> conn_accepting b \<and> ring_size (conn_queue b) < ring_cap (conn_queue b) \<and> ok \<and>
    b' = b\<lparr>conn_queue := ring_push e (conn_queue b)\<rparr>"
  using assms ring_not_full [OF assms(1)] ring_rollback_push [OF assms(1), of e]
  by (auto simp: conn_tryPost_def Let_def split: if_splits option.splits bool.splits)

interpretation conn_box: mailbox "\<lambda>b. ring_wf (conn_queue b)" sockets conn_accepting "\<lambda>_. False"
  conn_tryPost conn_tryPop "\<lambda>s. (s, False)" "\<lambda>s. fst (conn_close s)"
proof unfold_locales
  fix s t :: ConnectionMailbox and ws x ok
  assume "ring_wf (conn_queue s)" "conn_tryPost ws x s = Some (t, ok)"
  from conn_tryPost_cases [OF this]
  show "ring_wf (conn_queue t) \<and> conn_accepting t = conn_accepting s \<and> (False \<longrightarrow> False) \<and>
      (sockets t = sockets s @ [x] \<and> ok \<and> conn_accepting s \<or> sockets t = sockets s \<and> (ok \<longrightarrow> False))"
    using \<open>ring_wf (conn_queue s)\<close> by (elim disjE conjE) (simp_all add: ring_push_wf)
next
  fix s t :: ConnectionMailbox and y
  assume s: "ring_wf (conn_queue s)" "conn_tryPop s = (t, y)"
  show "ring_wf (conn_queue t) \<and> conn_accepting t = conn_accepting s \<and> False = False \<and>
      sockets s = (case y of None \<Rightarrow> [] | Some x \<Rightarrow> [x]) @ sockets t \<and> (y = None \<longrightarrow> sockets s = [])"
  proof (cases "ring_size (conn_queue s) = 0")
    case True
    then show ?thesis using s by (simp add: conn_tryPop_def ring_empty_iff)
  next
    case False
    then show ?thesis
      using s ring_fifo.pop_Cons [OF s(1)] ring_nonempty [OF s(1)] by (auto simp: conn_tryPop_def)
  qed
next
  fix s :: ConnectionMailbox
  assume s: "ring_wf (conn_queue s)"
  obtain r xs where d: "ring_discard (conn_queue s) = (r, xs)" by (metis surj_pair)
  show "ring_wf (conn_queue (fst (conn_close s))) \<and> \<not> conn_accepting (fst (conn_close s)) \<and>
      sockets (fst (conn_close s)) = []"
    using ring_discard_tail [OF s d] by (simp add: conn_close_def d)
qed auto

text \<open>Completions.\<close>

abbreviation completions :: "LoopMailbox \<Rightarrow> BusinessCompletion list" where
  "completions b \<equiv> ring_list (loop_queue b)"

abbreviation total_bytes :: "BusinessCompletion list \<Rightarrow> nat" where
  "total_bytes cs \<equiv> sum_list (map (\<lambda>c. length (response_frame c)) cs)"

definition loop_wf :: "LoopMailbox \<Rightarrow> bool" where
  "loop_wf b \<longleftrightarrow>
     ring_wf (loop_queue b) \<and> buffered_bytes b = total_bytes (completions b) \<and>
     buffered_bytes b \<le> byte_capacity b \<and> byte_capacity b < 2 ^ 64 \<and>
     list_all (\<lambda>c. completion_valid c \<and> length (response_frame c) \<le> max_completion_bytes b) (completions b)"

lemma loop_tryPost_cases:
  assumes "loop_wf b" "loop_tryPost ws c b = Some (b', ok)"
  shows "b' = b \<and> \<not> ok \<or>
    completion_valid c \<and> length (response_frame c) \<le> max_completion_bytes b \<and> loop_accepting b \<and>
    ring_size (loop_queue b) < ring_cap (loop_queue b) \<and>
    buffered_bytes b + length (response_frame c) \<le> byte_capacity b \<and> ok \<and>
    b' = b\<lparr>loop_queue := ring_push c (loop_queue b),
           buffered_bytes := buffered_bytes b + length (response_frame c)\<rparr>"
proof -
  have wf: "ring_wf (loop_queue b)" "buffered_bytes b \<le> byte_capacity b" "byte_capacity b < 2 ^ 64"
    using assms(1) by (simp_all add: loop_wf_def)
  have add: "add64 (buffered_bytes b) (length (response_frame c)) = buffered_bytes b + length (response_frame c)"
    if "length (response_frame c) \<le> byte_capacity b - buffered_bytes b"
    using that wf by (intro add64_small) linarith
  show ?thesis
    using assms(2) wf add ring_not_full [OF wf(1)] ring_rollback_push [OF wf(1), of c]
    by (auto simp: loop_tryPost_def completion_valid_def Let_def split: if_splits option.splits bool.splits)
qed

lemma loop_tryPop_cases:
  assumes "loop_wf b" "loop_tryPop b = (b', y)"
  shows "loop_wf b' \<and> loop_accepting b' = loop_accepting b \<and>
    completions b = (case y of None \<Rightarrow> [] | Some x \<Rightarrow> [x]) @ completions b' \<and> (y = None \<longrightarrow> completions b = [])"
proof (cases "ring_size (loop_queue b) = 0")
  case True
  then show ?thesis using assms by (simp add: loop_tryPop_def ring_empty_iff)
next
  case False
  have wf: "ring_wf (loop_queue b)" using assms(1) by (simp add: loop_wf_def)
  then obtain c r where pop: "ring_pop (loop_queue b) = (r, Some c)" "completions b = c # ring_list r" "ring_wf r"
    using ring_fifo.pop_Cons [OF wf] ring_nonempty [OF wf False] by blast
  then have "b' = b\<lparr>loop_queue := r, buffered_bytes := sub64 (buffered_bytes b) (length (response_frame c))\<rparr>"
      "y = Some c"
    using assms(2) False by (auto simp: loop_tryPop_def)
  then show ?thesis using pop assms(1) by (simp add: loop_wf_def)
qed

lemma loop_close_queue_wf:
  "loop_wf b \<Longrightarrow> loop_wf (loop_close_queue b) \<and> completions (loop_close_queue b) = [] \<and>
     loop_accepting (loop_close_queue b) = loop_accepting b"
proof (induction b rule: loop_close_queue.induct)
  case (1 b)
  show ?case
  proof (cases "ring_size (loop_queue b) = 0")
    case True
    then show ?thesis using "1.prems" by (simp add: loop_close_queue.simps [of b] ring_empty_iff)
  next
    case False
    obtain b' y where pop: "loop_tryPop b = (b', y)" by (metis surj_pair)
    then have b': "b' = b\<lparr>loop_queue := fst (ring_pop (loop_queue b)),
        buffered_bytes := sub64 (buffered_bytes b) (frame_bytes (snd (ring_pop (loop_queue b))))\<rparr>"
      using False by (auto simp: loop_tryPop_def case_prod_beta)
    then have "loop_close_queue b = loop_close_queue b'"
      using False by (simp add: loop_close_queue.simps [of b] case_prod_beta)
    moreover have "loop_wf b'" "loop_accepting b' = loop_accepting b"
      using loop_tryPop_cases [OF "1.prems" pop] by simp_all
    ultimately show ?thesis using "1.IH" [OF False refl prod.collapse] b' by simp
  qed
qed

interpretation loop_box: mailbox loop_wf completions loop_accepting "\<lambda>_. False"
  loop_tryPost loop_tryPop "\<lambda>s. (s, False)" loop_close
proof unfold_locales
  fix s t :: LoopMailbox and ws x ok
  assume s: "loop_wf s" "loop_tryPost ws x s = Some (t, ok)"
  from loop_tryPost_cases [OF this]
  show "loop_wf t \<and> loop_accepting t = loop_accepting s \<and> (False \<longrightarrow> False) \<and>
      (completions t = completions s @ [x] \<and> ok \<and> loop_accepting s \<or> completions t = completions s \<and> (ok \<longrightarrow> False))"
    using s(1) by (elim disjE conjE) (simp_all add: loop_wf_def ring_push_wf)
next
  fix s t :: LoopMailbox and y
  assume s: "loop_wf s" "loop_tryPop s = (t, y)"
  from loop_tryPop_cases [OF this]
  show "loop_wf t \<and> loop_accepting t = loop_accepting s \<and> False = False \<and>
      completions s = (case y of None \<Rightarrow> [] | Some x \<Rightarrow> [x]) @ completions t \<and> (y = None \<longrightarrow> completions s = [])"
    by blast
next
  fix s :: LoopMailbox
  assume "loop_wf s"
  then have "loop_wf (s\<lparr>loop_accepting := False\<rparr>)" by (simp add: loop_wf_def)
  from loop_close_queue_wf [OF this] obtain b where b: "b = loop_close_queue (s\<lparr>loop_accepting := False\<rparr>)"
    "loop_wf b" "completions b = []" "\<not> loop_accepting b" by simp
  then have "ring_tail (loop_queue b) = ring_head (loop_queue b)"
    using ring_wf_empty [of "loop_queue b"] by (simp add: loop_wf_def ring_empty_iff)
  then have "(loop_queue b)\<lparr>ring_tail := ring_head (loop_queue b)\<rparr> = loop_queue b" by simp
  moreover have "buffered_bytes b = 0" using b(2,3) by (simp add: loop_wf_def)
  ultimately have "loop_close s = b" by (simp add: loop_close_def flip: b(1))
  then show "loop_wf (loop_close s) \<and> \<not> loop_accepting (loop_close s) \<and> completions (loop_close s) = []"
    using b by simp
qed auto

lemma created_boxes:
  "loop_mailbox_create fd n bytes mx = Some lb \<Longrightarrow> bytes < 2 ^ 64 \<Longrightarrow>
     loop_wf lb \<and> completions lb = [] \<and> byte_capacity lb = bytes \<and> max_completion_bytes lb = mx"
  "timeout_mailbox_create fd n = Some tb \<Longrightarrow> ring_wf (timeout_queue tb)"
  "conn_mailbox_create fd n = Some cb \<Longrightarrow> ring_wf (conn_queue cb) \<and> sockets cb = []"
  by (auto simp: loop_mailbox_create_def timeout_mailbox_create_def conn_mailbox_create_def loop_wf_def
      ring_create_wf split: if_splits)

lemma loop_limits:
  "mail_run loop_tryPost loop_tryPop (\<lambda>s. (s, False)) loop_close b es b' \<Longrightarrow> loop_wf b \<Longrightarrow>
   byte_capacity b' = byte_capacity b \<and> max_completion_bytes b' = max_completion_bytes b"
proof (induction rule: mail_run.induct)
  case (mail_post s es t ws x u ok)
  have "loop_wf t" using loop_box.run_invar mail_post by blast
  from loop_tryPost_cases [OF this mail_post.hyps(2)] show ?case using mail_post by auto
next
  case (mail_pop s es t u y)
  then show ?case by (auto simp: loop_tryPop_def split: if_splits prod.splits)
next
  case (mail_close s es t)
  have "byte_capacity (loop_close_queue b) = byte_capacity b \<and>
      max_completion_bytes (loop_close_queue b) = max_completion_bytes b" for b
    by (induction b rule: loop_close_queue.induct)
       (subst (1 2) loop_close_queue.simps, auto simp: Let_def case_prod_beta)
  then show ?case using mail_close by (simp add: loop_close_def Let_def)
qed auto

section \<open>Properties\<close>

text \<open>
  C33.  Completions reach their loop in order, once, within fixed memory.  Over any sequence of
  posts, pops and a close of a completion mailbox, whatever the wake descriptor does, the accepted
  completions are those received, in order, then those discarded by a close, then those still
  queued; nothing is discarded without a close; and the bytes held are the frames queued, within
  the byte capacity.
\<close>

theorem completions_delivered:
  assumes "loop_mailbox_create fd n bytes max_bytes = Some b" "bytes < 2 ^ 64"
    and "mail_run loop_tryPost loop_tryPop (\<lambda>s. (s, False)) loop_close b es b'"
  shows "(\<exists>lost. posted es = received es @ lost @ completions b' \<and> (lost \<noteq> [] \<longrightarrow> Discarded \<in> set es)) \<and>
    (Discarded \<in> set es \<longrightarrow> completions b' = []) \<and>
    buffered_bytes b' = sum_list (map (\<lambda>c. length (response_frame c)) (completions b')) \<and>
    buffered_bytes b' \<le> bytes \<and>
    list_all (\<lambda>c. completion_valid c \<and> length (response_frame c) \<le> max_bytes) (completions b')"
proof -
  note c = created_boxes(1) [OF assms(1,2)]
  have wf: "loop_wf b'" using loop_box.run_invar [OF assms(3)] c by blast
  show ?thesis
    using loop_box.run_fifo [OF assms(3)] c wf loop_limits [OF assms(3)] unfolding loop_wf_def by auto
qed

definition example_completion :: BusinessCompletion where
  "example_completion = \<lparr>completion_token = \<lparr>token_loop_id = 0, token_fd = 5, token_generation = 1\<rparr>,
     completion_status = CompletionFailed, response_frame = []\<rparr>"

theorem completions_delivered_witness:
  "\<exists>b b'. loop_mailbox_create 3 2 10 10 = Some b \<and>
     mail_run loop_tryPost loop_tryPop (\<lambda>s. (s, False)) loop_close b [Posted example_completion True] b' \<and>
     completions b' = [example_completion]"
proof -
  obtain b where b: "loop_mailbox_create 3 2 10 10 = Some b" by (simp add: loop_mailbox_create_def)
  have "\<exists>u. loop_tryPost [WriteInterrupted, WriteDone] example_completion b = Some (u, True)"
    using b by (auto simp: loop_mailbox_create_def loop_tryPost_def example_completion_def token_valid_def
        ring_create_def Let_def)
  then obtain u where "mail_run loop_tryPost loop_tryPop (\<lambda>s. (s, False)) loop_close b ([] @ [Posted example_completion True]) u"
    using mail_run.mail_post [OF mail_run.mail_start] by metis
  then show ?thesis using b completions_delivered [OF b, of "[Posted example_completion True]" u] by auto
qed

text \<open>
  C32.  No timeout is lost.  An event that a timer posted with success, even to a full mailbox, is
  later received, still queued, or covered by a rescan that is pending or was taken, unless the
  mailbox was closed.
\<close>

theorem timeouts_not_lost:
  assumes "timeout_mailbox_create fd n = Some b"
    and "mail_run timeout_tryPost timeout_tryPop takeRescanRequest timeout_close b
           (es @ Posted e True # fs) b'"
    and "Discarded \<notin> set fs"
  shows "e \<in> set (received fs) \<or> e \<in> set (timeouts b') \<or> rescan_required b' \<or> Rescanned True \<in> set fs"
proof -
  let ?run = "mail_run timeout_tryPost timeout_tryPop takeRescanRequest timeout_close"
  obtain t where t: "?run b es t" "?run t ([Posted e True] @ fs) b'"
    using mail_run_split [OF assms(2)] by auto
  obtain u where u: "?run t [Posted e True] u" "?run u fs b'"
    using mail_run_split [OF t(2)] by auto
  have wf: "ring_wf (timeout_queue t)"
    using timeout_box.run_invar [OF t(1)] created_boxes(2) [OF assms(1)] by blast
  obtain ws where "timeout_tryPost ws e t = Some (u, True)"
    using mail_run_posted [OF u(1)] by blast
  from timeout_box.post_law [OF wf this] have "ring_wf (timeout_queue u)" "e \<in> set (timeouts u) \<or> rescan_required u"
    by auto
  from timeout_box.run_owed [OF u(2) this assms(3)] show ?thesis .
qed

definition example_timeout :: TimerEvent where
  "example_timeout = \<lparr>event_kind = IdleTimeout, target_id = 0, target_loop_id = 0, target_fd = 5,
     target_generation = 1, target_sequence = 1\<rparr>"

theorem timeouts_not_lost_witness:
  "\<exists>b b'. timeout_mailbox_create 3 1 = Some b \<and>
     mail_run timeout_tryPost timeout_tryPop takeRescanRequest timeout_close b [Posted example_timeout True] b' \<and>
     (example_timeout \<in> set (timeouts b') \<or> rescan_required b')"
proof -
  obtain b where b: "timeout_mailbox_create 3 1 = Some b" by (simp add: timeout_mailbox_create_def)
  have "\<exists>u. timeout_tryPost [WriteDone] example_timeout b = Some (u, True)"
    using b by (auto simp: timeout_mailbox_create_def timeout_tryPost_def example_timeout_def
        connectionTimeoutEvent_def ring_create_def Let_def)
  then obtain u where u: "mail_run timeout_tryPost timeout_tryPop takeRescanRequest timeout_close b
      ([] @ Posted example_timeout True # []) u"
    using mail_run.mail_post [OF mail_run.mail_start] by (metis append_Nil)
  then show ?thesis using b timeouts_not_lost [OF b u] by auto
qed

end
