(* ===== verification/Completion_Router.thy ===== *)
theory Completion_Router
  imports Mailboxes Worker_Pool Wire_Protocol
begin

text \<open>
  Business tasks and the router that returns their results to the loop of the connection
  (\<open>src/net/completion_router.cpp\<close>).  Mailboxes are shared objects: a heap maps mailbox
  addresses to the mailboxes that are alive, and a weak pointer is an address that may no longer be
  in the heap.  The business handler is an interface; its result is a parameter, \<open>None\<close> when it
  throws.
\<close>

section \<open>Business tasks\<close>

datatype FrameBusinessStatus = FrameResponse | FrameInvalidRequest | FrameFailed | FrameCancelled

record FrameBusinessResult =
  frame_status :: FrameBusinessStatus
  response_payload :: bytes

record BusinessRequest =
  request_token :: ConnectionToken
  request_payload :: bytes

fun completionStatusFor :: "FrameBusinessStatus \<Rightarrow> BusinessCompletionStatus" where
  "completionStatusFor FrameResponse = CompletionResponse"
| "completionStatusFor FrameInvalidRequest = CompletionInvalidRequest"
| "completionStatusFor FrameCancelled = CompletionCancelled"
| "completionStatusFor FrameFailed = CompletionFailed"

definition task_completion :: "BusinessRequest \<Rightarrow> nat \<Rightarrow> FrameBusinessResult option \<Rightarrow> BusinessCompletion" where
  "task_completion request max_payload handled =
     (let completion = \<lparr>completion_token = request_token request, completion_status = CompletionFailed,
                        response_frame = []\<rparr>
      in case handled of
           None \<Rightarrow> completion
         | Some result \<Rightarrow>
             let completion = completion\<lparr>completion_status := completionStatusFor (frame_status result)\<rparr>
             in if frame_status result = FrameResponse
                then if response_payload result = [] \<or> length (response_payload result) > max_payload
                     then completion\<lparr>completion_status :=
                            (if response_payload result = [] then CompletionFailed
                             else CompletionOutputLimitExceeded)\<rparr>
                     else completion\<lparr>response_frame :=
                            encodePayloadLength (of_nat (length (response_payload result))) @
                            response_payload result\<rparr>
                else completion)"

section \<open>Router\<close>

type_synonym mailbox_heap = "nat \<rightharpoonup> LoopMailbox"

record LoopSlot =
  slot_loop_id :: u32
  slot_mailbox :: "nat option"
  slot_bound :: bool

record CompletionRouter =
  router_loops :: "LoopSlot list"
  first_loop_id :: u32
  router_accepting :: bool

definition router_create :: "u32 \<Rightarrow> nat \<Rightarrow> CompletionRouter option" where
  "router_create first_id count =
     (let remaining_ids = 2 ^ 32 - 1 - unat first_id + 1
      in if count = 0 \<or> count > remaining_ids then None
         else Some \<lparr>router_loops = map (\<lambda>index. \<lparr>slot_loop_id = of_nat (unat first_id + index),
                      slot_mailbox = None, slot_bound = False\<rparr>) [0..<count],
                    first_loop_id = first_id, router_accepting = True\<rparr>)"

definition indexFor :: "u32 \<Rightarrow> CompletionRouter \<Rightarrow> nat" where
  "indexFor loop_id r =
     (if loop_id < first_loop_id r then length (router_loops r)
      else let offset = unat loop_id - unat (first_loop_id r)
           in if offset \<ge> length (router_loops r) then length (router_loops r) else offset)"

text \<open>Locking a weak pointer.\<close>

definition lock_mailbox :: "mailbox_heap \<Rightarrow> nat option \<Rightarrow> nat option" where
  "lock_mailbox heap w = (case w of None \<Rightarrow> None | Some a \<Rightarrow> if heap a = None then None else Some a)"

definition router_bind :: "mailbox_heap \<Rightarrow> u32 \<Rightarrow> nat option \<Rightarrow> CompletionRouter \<Rightarrow> CompletionRouter \<times> bool" where
  "router_bind heap loop_id box r =
     (case box of
        None \<Rightarrow> (r, False)
      | Some m \<Rightarrow>
          let index = indexFor loop_id r
          in if index = length (router_loops r) then (r, False)
             else if \<not> router_accepting r then (r, False)
             else let slot = router_loops r ! index;
                      bound = r\<lparr>router_loops := (router_loops r)[index :=
                                slot\<lparr>slot_mailbox := Some m, slot_bound := True\<rparr>]\<rparr>
                  in if slot_bound slot
                     then case lock_mailbox heap (slot_mailbox slot) of
                            Some current \<Rightarrow> (r, current = m)
                          | None \<Rightarrow> (bound, True)
                     else (bound, True))"

definition router_unbind :: "mailbox_heap \<Rightarrow> u32 \<Rightarrow> nat option \<Rightarrow> CompletionRouter \<Rightarrow> CompletionRouter" where
  "router_unbind heap loop_id expected_mailbox r =
     (case expected_mailbox of
        None \<Rightarrow> r
      | Some expected \<Rightarrow>
          let index = indexFor loop_id r
          in if index = length (router_loops r) then r
             else let slot = router_loops r ! index
                  in if \<not> slot_bound slot then r
                     else if \<exists>current. lock_mailbox heap (slot_mailbox slot) = Some current \<and> current \<noteq> expected
                     then r
                     else r\<lparr>router_loops := (router_loops r)[index :=
                              slot\<lparr>slot_mailbox := None, slot_bound := False\<rparr>]\<rparr>)"

text \<open>\<open>None\<close>: the post is still retrying its wake signal.\<close>

definition tryRoute ::
  "write_outcome list \<Rightarrow> BusinessCompletion \<Rightarrow> CompletionRouter \<Rightarrow> mailbox_heap \<Rightarrow> mailbox_heap option" where
  "tryRoute ws completion r heap =
     (if \<not> completion_valid completion then Some heap
      else if \<not> router_accepting r then Some heap
      else let index = indexFor (token_loop_id (completion_token completion)) r
           in if index = length (router_loops r) then Some heap
              else let slot = router_loops r ! index;
                       bound = (if slot_bound slot then lock_mailbox heap (slot_mailbox slot) else None)
                   in case bound of
                        None \<Rightarrow> Some heap
                      | Some m \<Rightarrow>
                          (case loop_tryPost ws completion (the (heap m)) of
                             None \<Rightarrow> None
                           | Some (posted_box, _) \<Rightarrow> Some (heap(m \<mapsto> posted_box))))"

definition router_close :: "CompletionRouter \<Rightarrow> CompletionRouter" where
  "router_close r = r\<lparr>router_accepting := False\<rparr>"

text \<open>A task runs its handler and hands the completion to the router, if the router still exists.\<close>

definition task_run ::
  "write_outcome list \<Rightarrow> BusinessRequest \<Rightarrow> nat \<Rightarrow> FrameBusinessResult option \<Rightarrow> CompletionRouter option \<Rightarrow>
   mailbox_heap \<Rightarrow> mailbox_heap option" where
  "task_run ws request max_payload handled router heap =
     (case router of
        None \<Rightarrow> Some heap
      | Some r \<Rightarrow> tryRoute ws (task_completion request max_payload handled) r heap)"

section \<open>The routing table\<close>

definition router_wf :: "CompletionRouter \<Rightarrow> bool" where
  "router_wf r \<longleftrightarrow>
     router_loops r \<noteq> [] \<and> unat (first_loop_id r) + length (router_loops r) \<le> 2 ^ 32 \<and>
     (\<forall>i < length (router_loops r). slot_loop_id (router_loops r ! i) = first_loop_id r + of_nat i)"

text \<open>Abstractly a router serves a range of loop identifiers and maps some of them to live mailboxes.\<close>

definition serves :: "CompletionRouter \<Rightarrow> u32 \<Rightarrow> bool" where
  "serves r l \<longleftrightarrow> unat (first_loop_id r) \<le> unat l \<and> unat l < unat (first_loop_id r) + length (router_loops r)"

definition table :: "mailbox_heap \<Rightarrow> CompletionRouter \<Rightarrow> u32 \<Rightarrow> nat option" where
  "table heap r l =
     (if serves r l
      then let slot = router_loops r ! (unat l - unat (first_loop_id r))
           in if slot_bound slot then lock_mailbox heap (slot_mailbox slot) else None
      else None)"

lemma indexFor_iff:
  assumes "router_wf r"
  shows "indexFor l r = (if serves r l then unat l - unat (first_loop_id r) else length (router_loops r))"
    "serves r l \<Longrightarrow> indexFor l r < length (router_loops r)"
  using assms by (auto simp: indexFor_def serves_def Let_def word_less_nat_alt)

lemma table_update:
  assumes "serves r l"
  shows "table heap (r\<lparr>router_loops := (router_loops r)[unat l - unat (first_loop_id r) := s]\<rparr>) =
    (table heap r)(l := (if slot_bound s then lock_mailbox heap (slot_mailbox s) else None))"
proof
  fix k
  have "unat k - unat (first_loop_id r) = unat l - unat (first_loop_id r) \<longleftrightarrow> k = l" if "serves r k"
    using that assms by (metis diff_diff_cancel eq_diff_iff serves_def word_unat_eq_iff)
  then show "table heap (r\<lparr>router_loops := (router_loops r)[unat l - unat (first_loop_id r) := s]\<rparr>) k =
      ((table heap r)(l := (if slot_bound s then lock_mailbox heap (slot_mailbox s) else None))) k"
    using assms by (auto simp: table_def serves_def Let_def)
qed

lemma create_router:
  assumes "router_create first n = Some r"
  shows "router_wf r" "table heap r = (\<lambda>_. None)" "serves r l \<longleftrightarrow> unat first \<le> unat l \<and> unat l < unat first + n"
    "router_accepting r"
proof -
  have lt: "unat first < 2 ^ 32" using unsigned_less [of first, where ?'a = nat] by simp
  have r: "r = \<lparr>router_loops = map (\<lambda>index. \<lparr>slot_loop_id = of_nat (unat first + index),
                      slot_mailbox = None, slot_bound = False\<rparr>) [0..<n],
                    first_loop_id = first, router_accepting = True\<rparr>" "n \<noteq> 0" "n \<le> 2 ^ 32 - unat first"
    using assms lt by (auto simp: router_create_def Let_def split: if_splits)
  show "router_wf r" using r lt by (auto simp: router_wf_def)
  show "table heap r = (\<lambda>_. None)" by (rule ext) (auto simp: table_def r(1) serves_def Let_def)
  show "serves r l \<longleftrightarrow> unat first \<le> unat l \<and> unat l < unat first + n" "router_accepting r"
    by (simp_all add: serves_def r(1))
qed

lemma bind_table:
  assumes "router_wf r" "heap m \<noteq> None"
  shows "snd (router_bind heap l (Some m) r) \<longleftrightarrow>
      router_accepting r \<and> serves r l \<and> (table heap r l = None \<or> table heap r l = Some m)"
    "table heap (fst (router_bind heap l (Some m) r)) =
      (if snd (router_bind heap l (Some m) r) then (table heap r)(l \<mapsto> m) else table heap r)"
    "router_wf (fst (router_bind heap l (Some m) r))"
proof -
  let ?i = "unat l - unat (first_loop_id r)" and ?ok = "snd (router_bind heap l (Some m) r)"
  have "?ok = (router_accepting r \<and> serves r l \<and> (table heap r l = None \<or> table heap r l = Some m)) \<and>
      table heap (fst (router_bind heap l (Some m) r)) = (if ?ok then (table heap r)(l \<mapsto> m) else table heap r) \<and>
      router_wf (fst (router_bind heap l (Some m) r))"
  proof (cases "router_accepting r \<and> serves r l")
    case False
    then show ?thesis using assms(1) indexFor_iff [OF assms(1), of l]
      by (auto simp: router_bind_def Let_def)
  next
    case True
    let ?slot = "router_loops r ! ?i"
    let ?new = "r\<lparr>router_loops := (router_loops r)[?i := ?slot\<lparr>slot_mailbox := Some m, slot_bound := True\<rparr>]\<rparr>"
    have i: "indexFor l r = ?i" "?i < length (router_loops r)"
      using True indexFor_iff [OF assms(1), of l] by auto
    have tab: "table heap r l = (if slot_bound ?slot then lock_mailbox heap (slot_mailbox ?slot) else None)"
      using True by (simp add: table_def Let_def)
    have b: "router_bind heap l (Some m) r =
        (if table heap r l = None then (?new, True) else (r, table heap r l = Some m))"
      using True i by (auto simp: router_bind_def Let_def tab split: option.splits)
    have new: "table heap ?new = (table heap r)(l \<mapsto> m)"
      using table_update [of r l heap "?slot\<lparr>slot_mailbox := Some m, slot_bound := True\<rparr>"] True assms(2)
      by (simp add: lock_mailbox_def)
    have "router_wf ?new" using assms(1) i(2) by (auto simp: router_wf_def nth_list_update)
    then show ?thesis using True b new assms(1) by (auto simp: fun_upd_idem_iff)
  qed
  then show "snd (router_bind heap l (Some m) r) \<longleftrightarrow>
      router_accepting r \<and> serves r l \<and> (table heap r l = None \<or> table heap r l = Some m)"
    "table heap (fst (router_bind heap l (Some m) r)) =
      (if snd (router_bind heap l (Some m) r) then (table heap r)(l \<mapsto> m) else table heap r)"
    "router_wf (fst (router_bind heap l (Some m) r))" by blast+
qed

lemma unbind_table:
  assumes "router_wf r"
  shows "table heap (router_unbind heap l (Some m) r) =
      (if table heap r l = Some m then (table heap r)(l := None) else table heap r)"
    "router_wf (router_unbind heap l (Some m) r)"
proof -
  let ?i = "unat l - unat (first_loop_id r)"
  have "table heap (router_unbind heap l (Some m) r) =
      (if table heap r l = Some m then (table heap r)(l := None) else table heap r) \<and>
      router_wf (router_unbind heap l (Some m) r)"
  proof (cases "serves r l")
    case False
    then have "table heap r l = None" by (simp add: table_def)
    then show ?thesis using False assms indexFor_iff [OF assms, of l] by (simp add: router_unbind_def Let_def)
  next
    case True
    let ?slot = "router_loops r ! ?i"
    let ?new = "r\<lparr>router_loops := (router_loops r)[?i := ?slot\<lparr>slot_mailbox := None, slot_bound := False\<rparr>]\<rparr>"
    have i: "indexFor l r = ?i" "?i < length (router_loops r)"
      using True indexFor_iff [OF assms, of l] by auto
    have tab: "table heap r l = (if slot_bound ?slot then lock_mailbox heap (slot_mailbox ?slot) else None)"
      using True by (simp add: table_def Let_def)
    have u: "router_unbind heap l (Some m) r =
        (if slot_bound ?slot \<and> (table heap r l = None \<or> table heap r l = Some m) then ?new else r)"
      using i by (auto simp: router_unbind_def Let_def tab)
    have new: "table heap ?new = (table heap r)(l := None)"
      using table_update [of r l heap "?slot\<lparr>slot_mailbox := None, slot_bound := False\<rparr>"] True by simp
    have "router_wf ?new" using assms i(2) by (auto simp: router_wf_def nth_list_update)
    then show ?thesis using u new assms tab by (auto simp: fun_upd_idem_iff)
  qed
  then show "table heap (router_unbind heap l (Some m) r) =
      (if table heap r l = Some m then (table heap r)(l := None) else table heap r)"
    "router_wf (router_unbind heap l (Some m) r)" by blast+
qed

lemma route_table:
  assumes "router_wf r"
  shows "tryRoute ws c r heap =
    (if completion_valid c \<and> router_accepting r
     then case table heap r (token_loop_id (completion_token c)) of
            None \<Rightarrow> Some heap
          | Some m \<Rightarrow> map_option (\<lambda>(b, _). heap(m \<mapsto> b)) (loop_tryPost ws c (the (heap m)))
     else Some heap)"
  using indexFor_iff [OF assms, of "token_loop_id (completion_token c)"]
  by (auto simp: tryRoute_def table_def Let_def split: option.splits)

lemma task_completion_shape:
  assumes "token_valid (request_token req)"
  shows "completion_valid (task_completion req max_payload handled)"
    "completion_token (task_completion req max_payload handled) = request_token req"
    "completion_status (task_completion req max_payload handled) = CompletionResponse \<Longrightarrow>
      \<exists>body. handled = Some \<lparr>frame_status = FrameResponse, response_payload = body\<rparr> \<and> body \<noteq> [] \<and>
        length body \<le> max_payload \<and> response_frame (task_completion req max_payload handled) =
        encodePayloadLength (of_nat (length body)) @ body"
proof -
  have "completion_valid (task_completion req max_payload handled) \<and>
    completion_token (task_completion req max_payload handled) = request_token req \<and>
    (completion_status (task_completion req max_payload handled) = CompletionResponse \<longrightarrow>
      (\<exists>body. handled = Some \<lparr>frame_status = FrameResponse, response_payload = body\<rparr> \<and> body \<noteq> [] \<and>
        length body \<le> max_payload \<and> response_frame (task_completion req max_payload handled) =
        encodePayloadLength (of_nat (length body)) @ body))"
  proof (cases handled)
    case None
    then show ?thesis using assms by (simp add: task_completion_def completion_valid_def)
  next
    case (Some res)
    obtain st body where res: "res = \<lparr>frame_status = st, response_payload = body\<rparr>" by (cases res) simp
    show ?thesis using assms unfolding Some res
      by (cases st) (auto simp: task_completion_def completion_valid_def encodePayloadLength_def Let_def)
  qed
  then show "completion_valid (task_completion req max_payload handled)"
    "completion_token (task_completion req max_payload handled) = request_token req"
    "completion_status (task_completion req max_payload handled) = CompletionResponse \<Longrightarrow>
      \<exists>body. handled = Some \<lparr>frame_status = FrameResponse, response_payload = body\<rparr> \<and> body \<noteq> [] \<and>
        length body \<le> max_payload \<and> response_frame (task_completion req max_payload handled) =
        encodePayloadLength (of_nat (length body)) @ body" by blast+
qed

lemma open_mailbox_accepts:
  assumes "loop_wf b" "loop_accepting b" "ring_size (loop_queue b) < ring_cap (loop_queue b)"
    "completion_valid c" "length (response_frame c) \<le> max_completion_bytes b"
    "buffered_bytes b + length (response_frame c) \<le> byte_capacity b" "signalWakeFd ws = Some True"
  shows "\<exists>b'. loop_tryPost ws c b = Some (b', True) \<and> completions b' = completions b @ [c] \<and> loop_wf b'"
proof -
  have "\<exists>b'. loop_tryPost ws c b = Some (b', True)"
    using assms by (auto simp: loop_tryPost_def completion_valid_def loop_wf_def ring_cap_def Let_def)
  then show ?thesis using loop_box.post_law [OF assms(1)] by blast
qed

section \<open>Properties\<close>

text \<open>
  C35.  The router is a routing table.  With respect to the mailboxes that are alive, binding,
  unbinding and routing act on the partial map from served loop identifiers to mailboxes: a bind
  succeeds exactly when the router accepts, serves the loop and the loop has no other live mailbox,
  and then maps it; an unbind removes only the mailbox it names; and a valid completion is posted
  to the mailbox of its loop and to no other, or dropped when there is none.
\<close>

theorem router_refines_table:
  assumes "router_create first n = Some r0" "router_wf r" "heap m \<noteq> None"
  shows "table heap r0 = (\<lambda>_. None) \<and> router_wf r0 \<and>
    (snd (router_bind heap l (Some m) r) \<longleftrightarrow>
       router_accepting r \<and> serves r l \<and> (table heap r l = None \<or> table heap r l = Some m)) \<and>
    table heap (fst (router_bind heap l (Some m) r)) =
      (if snd (router_bind heap l (Some m) r) then (table heap r)(l \<mapsto> m) else table heap r) \<and>
    router_wf (fst (router_bind heap l (Some m) r)) \<and>
    table heap (router_unbind heap l (Some m) r) =
      (if table heap r l = Some m then (table heap r)(l := None) else table heap r) \<and>
    router_wf (router_unbind heap l (Some m) r) \<and>
    tryRoute ws c r heap =
      (if completion_valid c \<and> router_accepting r
       then case table heap r (token_loop_id (completion_token c)) of
              None \<Rightarrow> Some heap
            | Some k \<Rightarrow> map_option (\<lambda>(b, _). heap(k \<mapsto> b)) (loop_tryPost ws c (the (heap k)))
       else Some heap)"
  using create_router [OF assms(1)] bind_table [where heap = heap, OF assms(2,3)] unbind_table [OF assms(2)]
    route_table [OF assms(2)] by simp

theorem router_refines_table_witness:
  "\<exists>r b. router_create 3 2 = Some r \<and> loop_mailbox_create 3 1 8 8 = Some b \<and>
     snd (router_bind [7 \<mapsto> b] 4 (Some 7) r)"
proof -
  obtain r where r: "router_create 3 2 = Some r" by (simp add: router_create_def)
  obtain b where b: "loop_mailbox_create 3 1 8 8 = Some b" by (simp add: loop_mailbox_create_def)
  have "table [7 \<mapsto> b] r 4 = None" "serves r 4" "router_accepting r" "router_wf r"
    using create_router [OF r] by simp_all
  then show ?thesis
    using r b router_refines_table [OF r, of r "[7 \<mapsto> b]" 7 4] by simp
qed

text \<open>
  C34.  A task's result reaches its connection's loop.  Whatever the handler does, also when it
  throws, a task for a valid token whose loop is bound to an open mailbox with room, and whose wake
  descriptor can be written, posts exactly one valid completion with that token to that mailbox and to
  no other; a response carries the handler's payload behind a header with its length, an empty payload is reported as a failure and
  one beyond the limit as an exceeded output limit.
\<close>

theorem task_result_delivered:
  assumes "router_wf r" "router_accepting r" "token_valid (request_token req)"
    and "table heap r (token_loop_id (request_token req)) = Some m" "heap m = Some b" "loop_wf b" "loop_accepting b"
    and "ring_size (loop_queue b) < ring_cap (loop_queue b)" "signalWakeFd ws = Some True"
    and "c = task_completion req max_payload handled"
    and "length (response_frame c) \<le> max_completion_bytes b"
    and "buffered_bytes b + length (response_frame c) \<le> byte_capacity b"
  shows "(\<exists>b'. task_run ws req max_payload handled (Some r) heap = Some (heap(m \<mapsto> b')) \<and>
      completions b' = completions b @ [c]) \<and>
    completion_token c = request_token req \<and>
    (case handled of
       None \<Rightarrow> completion_status c = CompletionFailed \<and> response_frame c = []
     | Some res \<Rightarrow>
         if frame_status res = FrameResponse \<and> response_payload res = []
         then completion_status c = CompletionFailed \<and> response_frame c = []
         else if frame_status res = FrameResponse \<and> length (response_payload res) > max_payload
         then completion_status c = CompletionOutputLimitExceeded \<and> response_frame c = []
         else if frame_status res = FrameResponse
         then completion_status c = CompletionResponse \<and>
           decodePayloadLength (take 4 (response_frame c)) = of_nat (length (response_payload res)) \<and>
           drop 4 (response_frame c) = response_payload res
         else completion_status c = completionStatusFor (frame_status res) \<and> response_frame c = [])"
proof -
  note shape = task_completion_shape [OF assms(3), of max_payload handled, folded assms(10)]
  obtain b' where b': "loop_tryPost ws c b = Some (b', True)" "completions b' = completions b @ [c]"
    using open_mailbox_accepts [OF assms(6,7,8) shape(1) assms(11,12,9)] by blast
  have run: "task_run ws req max_payload handled (Some r) heap = Some (heap(m \<mapsto> b'))"
    using route_table [OF assms(1), of ws c heap] shape(1,2) assms(2,4,5) b'(1)
    by (simp add: task_run_def flip: assms(10))
  show ?thesis
    using run b'(2) shape(2)
    by (auto simp: assms(10) task_completion_def Let_def split: option.splits)
qed

theorem task_result_delivered_witness:
  "\<exists>r b b'. router_create 3 2 = Some r \<and> loop_mailbox_create 3 1 8 8 = Some b \<and>
     task_run [WriteDone] \<lparr>request_token = \<lparr>token_loop_id = 4, token_fd = 5, token_generation = 1\<rparr>, request_payload = []\<rparr>
       100 None (Some (fst (router_bind [7 \<mapsto> b] 4 (Some 7) r))) [7 \<mapsto> b] = Some [7 \<mapsto> b'] \<and>
     completions b' \<noteq> []"
proof -
  obtain r where r: "router_create 3 2 = Some r" by (simp add: router_create_def)
  obtain b where b: "loop_mailbox_create 3 1 8 8 = Some b" by (simp add: loop_mailbox_create_def)
  let ?req = "\<lparr>request_token = \<lparr>token_loop_id = 4, token_fd = 5, token_generation = 1\<rparr>, request_payload = []\<rparr>"
  let ?r = "fst (router_bind [7 \<mapsto> b] 4 (Some 7) r)"
  have c: "table [7 \<mapsto> b] r 4 = None" "serves r 4" "router_accepting r" "router_wf r"
    using create_router [OF r] by simp_all
  have "router_wf ?r" "table [7 \<mapsto> b] ?r 4 = Some 7" "router_accepting ?r"
    using bind_table [OF c(4), of "[7 \<mapsto> b]" 7 4] c by (simp_all add: router_bind_def Let_def split: option.splits)
  moreover have "loop_wf b" "loop_accepting b" "completions b = []" "buffered_bytes b = 0" "byte_capacity b = 8"
      "ring_size (loop_queue b) < ring_cap (loop_queue b)"
    using created_boxes(1) [OF b] b by (auto simp: loop_mailbox_create_def ring_create_def ring_cap_def)
  ultimately show ?thesis
    using r b task_result_delivered [of ?r ?req "[7 \<mapsto> b]" 7 b "[WriteDone]" "task_completion ?req 100 None" 100 None]
    by (auto simp: token_valid_def task_completion_def)
qed

end
