(* ===== verification/Risk_Service.thy ===== *)
theory Risk_Service
  imports Login_Policy Candidate_Queue Completion_Router
begin

text \<open>
  Request validation, the risk service and the business handler
  (\<open>src/app/login_request_validator.cpp\<close>, \<open>src/app/risk_service.cpp\<close>,
  \<open>src/net/login_business_handler.cpp\<close>).  The protobuf parser and serialiser, the clock
  readings, the two readings of the stop token and the place where a call throws an exception, if one
  does, are parameters.  The service reads the published blacklist through a pointer, \<open>None\<close> when it
  has none.
\<close>

section \<open>Messages\<close>

text \<open>Optional fields keep their presence; an enumeration value may be any integer.\<close>

record LoginRequest =
  req_attempt_id :: "u64 option"
  req_timestamp_ms :: "nat option"
  req_user_id :: "string option"
  req_ip :: "string option"
  req_device_id :: "string option"
  req_result :: "int option"

datatype DecisionAction = PROTO_UNKNOWN | PROTO_PASS | PROTO_REVIEW | PROTO_REJECT

record ProtoPolicyHit =
  proto_reason_code :: string
  proto_hit_action :: DecisionAction
  proto_hit_score :: int

record ProtoLoginDecision =
  proto_attempt_id :: u64
  proto_user_id :: string
  proto_action :: DecisionAction
  proto_risk_score :: int
  proto_policy_hits :: "ProtoPolicyHit list"
  proto_cost_us :: nat

datatype ResponseStatus = RESPONSE_OK | RESPONSE_OVERLOADED | RESPONSE_TIMEOUT

record LoginResponse =
  resp_decision :: "ProtoLoginDecision option"
  resp_status :: ResponseStatus
  resp_reason_code :: string

section \<open>Validation\<close>

definition kMaxUserIdBytes :: nat where "kMaxUserIdBytes = 128"
definition kMaxDeviceIdBytes :: nat where "kMaxDeviceIdBytes = 128"
definition kMaxIpBytes :: nat where "kMaxIpBytes = 45"
definition kMaxPastAgeMs :: nat where "kMaxPastAgeMs = 60 * 60 * 1000"

definition LoginResult_IsValid :: "int \<Rightarrow> bool" where
  "LoginResult_IsValid v \<longleftrightarrow> v = 0 \<or> v = 1 \<or> v = 2"

definition validate :: "pton \<Rightarrow> ntop \<Rightarrow> LoginRequest \<Rightarrow> nat \<Rightarrow> LoginAttempt option" where
  "validate pt nt request now_ms =
     (case (req_attempt_id request, req_user_id request, req_ip request, req_device_id request,
            req_timestamp_ms request, req_result request) of
        (Some aid, Some user, Some ip, Some device, Some ts, Some result) \<Rightarrow>
          if user = [] \<or> length user > kMaxUserIdBytes \<or> ip = [] \<or> length ip > kMaxIpBytes \<or>
             device = [] \<or> length device > kMaxDeviceIdBytes \<or> ts > now_ms \<or>
             sub64 now_ms ts \<ge> kMaxPastAgeMs
          then None
          else (case ip_parse pt nt ip of
                  None \<Rightarrow> None
                | Some canonical_ip \<Rightarrow>
                    if \<not> LoginResult_IsValid result \<or> result = 0 then None
                    else Some \<lparr>attempt_id = aid, timestamp_ms = ts, attempt_user_id = user,
                               attempt_ip = canonicalText canonical_ip, attempt_device_id = device,
                               attempt_result = (if result = 1 then LoginSuccess else LoginFail)\<rparr>)
      | _ \<Rightarrow> None)"

section \<open>Risk service\<close>

record RiskService =
  service_policy :: LoginPolicyConfig
  service_store :: LoginFeatureStore

record RiskEvaluation =
  eval_decision :: LoginDecision
  eval_candidates :: "BlacklistMutation list"

definition service_create :: "LoginPolicyConfig \<Rightarrow> FeatureStateReclamationConfig \<Rightarrow> RiskService option" where
  "service_create policy ttls =
     (if \<not> validateLoginPolicyConfig policy then None
      else map_option (\<lambda>st. \<lparr>service_policy = policy, service_store = st\<rparr>)
             (store_create ttls))"

definition service_evaluate ::
  "(string \<Rightarrow> nat) \<Rightarrow> pton \<Rightarrow> ntop \<Rightarrow> nat \<Rightarrow> nat \<Rightarrow> BlacklistManager option \<Rightarrow> LoginAttempt \<Rightarrow>
   RiskService \<Rightarrow> RiskService \<times> RiskEvaluation" where
  "service_evaluate hash pt nt now_ms elapsed manager attempt svc =
     (let (store, features) = updateAndGet hash attempt now_ms (service_store svc);
          blacklist = (case manager of
              None \<Rightarrow> no_matches
            | Some mgr \<Rightarrow> manager_matches mgr (attempt_user_id attempt) (attempt_ip attempt)
                            (attempt_device_id attempt) now_ms);
          decision = policy_evaluate (service_policy svc) attempt features blacklist;
          candidates = generate pt nt attempt decision blacklist now_ms
      in (svc\<lparr>service_store := store\<rparr>,
          \<lparr>eval_decision = decision\<lparr>cost_us := elapsed\<rparr>, eval_candidates = candidates\<rparr>))"

section \<open>Business handler\<close>

fun toProtoAction :: "LoginDecisionAction \<Rightarrow> DecisionAction" where
  "toProtoAction ActionPass = PROTO_PASS"
| "toProtoAction ActionReview = PROTO_REVIEW"
| "toProtoAction ActionReject = PROTO_REJECT"

definition fillProtoDecision :: "LoginDecision \<Rightarrow> ProtoLoginDecision" where
  "fillProtoDecision source =
     \<lparr>proto_attempt_id = decision_attempt_id source, proto_user_id = decision_user_id source,
      proto_action = toProtoAction (decision_action source),
      proto_risk_score = decision_risk_score source,
      proto_policy_hits = map (\<lambda>h. \<lparr>proto_reason_code = reason_code h,
                                    proto_hit_action = toProtoAction (hit_action h),
                                    proto_hit_score = hit_risk_score h\<rparr>) (policy_hits source),
      proto_cost_us = cost_us source\<rparr>"

definition frame_result :: "FrameBusinessStatus \<Rightarrow> FrameBusinessResult" where
  "frame_result status = \<lparr>frame_status = status, response_payload = []\<rparr>"

text \<open>
  Where a call of the handler may throw: while the request is parsed, while it is validated, inside
  the evaluation, while one of the candidates is submitted, the earlier ones being submitted already, or
  while the response is built.  A submission that throws leaves the queue as it was.
\<close>

datatype throw_point = ThrowParse | ThrowValidate | ThrowEvaluate | ThrowSubmit nat | ThrowResponse

text \<open>The environment of one call: the protobuf functions, what the clocks and the stop token read,
  the exception, and what an evaluation that throws leaves of the service.\<close>

record handler_env =
  env_parse :: "bytes \<Rightarrow> LoginRequest option"
  env_serialize :: "LoginResponse \<Rightarrow> bytes option"
  env_hash :: "string \<Rightarrow> nat"
  env_pton :: pton
  env_ntop :: ntop
  env_validate_now :: nat
  env_evaluate_now :: nat
  env_elapsed :: nat
  env_stop_first :: CancellationToken
  env_stop_second :: CancellationToken
  env_throw :: "throw_point option"
  env_broken :: "RiskService \<Rightarrow> RiskService"

fun submit_all :: "BlacklistMutation list \<Rightarrow> BlacklistCandidateQueue \<Rightarrow> BlacklistCandidateQueue" where
  "submit_all [] q = q"
| "submit_all (c # cs) q = submit_all cs (fst (queue_trySubmit c q))"

definition login_response :: "LoginDecision \<Rightarrow> LoginResponse" where
  "login_response decision =
     \<lparr>resp_decision = Some (fillProtoDecision decision), resp_status = RESPONSE_OK, resp_reason_code = []\<rparr>"

definition serialize_response :: "handler_env \<Rightarrow> LoginDecision \<Rightarrow> FrameBusinessResult" where
  "serialize_response env decision =
     (case env_serialize env (login_response decision) of
        None \<Rightarrow> frame_result FrameFailed
      | Some serialized \<Rightarrow>
          if serialized = [] then frame_result FrameFailed
          else \<lparr>frame_status = FrameResponse, response_payload = serialized\<rparr>)"

definition submit_candidates ::
  "handler_env \<Rightarrow> BlacklistMutation list \<Rightarrow> BlacklistCandidateQueue option \<Rightarrow> BlacklistCandidateQueue option \<times> bool" where
  "submit_candidates env candidates queue =
     (case (queue, env_throw env) of
        (Some q, Some (ThrowSubmit n)) \<Rightarrow>
          if n < length candidates then (Some (submit_all (take n candidates) q), False)
          else (Some (submit_all candidates q), True)
      | _ \<Rightarrow> (map_option (submit_all candidates) queue, True))"

text \<open>The body of the \<open>try\<close> block; the result is \<open>None\<close> when it throws.\<close>

definition handle_body ::
  "handler_env \<Rightarrow> BlacklistManager option \<Rightarrow> bytes \<Rightarrow> RiskService \<times> BlacklistCandidateQueue option \<Rightarrow>
   (RiskService \<times> BlacklistCandidateQueue option) \<times> FrameBusinessResult option" where
  "handle_body env manager payload = (\<lambda>(svc, queue).
     if env_throw env = Some ThrowParse then ((svc, queue), None)
     else case env_parse env payload of
         None \<Rightarrow> ((svc, queue), Some (frame_result FrameInvalidRequest))
       | Some request \<Rightarrow>
           if env_throw env = Some ThrowValidate then ((svc, queue), None)
           else (case validate (env_pton env) (env_ntop env) request (env_validate_now env) of
              None \<Rightarrow> ((svc, queue), Some (frame_result FrameInvalidRequest))
            | Some attempt \<Rightarrow>
                if stopRequested (env_stop_second env) then ((svc, queue), Some (frame_result FrameCancelled))
                else if env_throw env = Some ThrowEvaluate then ((env_broken env svc, queue), None)
                else let (svc, evaluation) = service_evaluate (env_hash env) (env_pton env) (env_ntop env)
                           (env_evaluate_now env) (env_elapsed env) manager attempt svc;
                         (queue, submitted) = submit_candidates env (eval_candidates evaluation) queue
                     in if \<not> submitted \<or> env_throw env = Some ThrowResponse then ((svc, queue), None)
                        else ((svc, queue), Some (serialize_response env (eval_decision evaluation)))))"

definition login_handle ::
  "handler_env \<Rightarrow> BlacklistManager option \<Rightarrow> bytes \<Rightarrow> RiskService \<times> BlacklistCandidateQueue option \<Rightarrow>
   (RiskService \<times> BlacklistCandidateQueue option) \<times> FrameBusinessResult" where
  "login_handle env manager payload s =
     (if stopRequested (env_stop_first env) then (s, frame_result FrameCancelled)
      else case handle_body env manager payload s of
          (s', None) \<Rightarrow> (s', frame_result FrameFailed)
        | (s', Some result) \<Rightarrow> (s', result))"

definition buildLoginOverloadResponseFrame :: "(LoginResponse \<Rightarrow> bytes option) \<Rightarrow> bytes option" where
  "buildLoginOverloadResponseFrame serialize =
     encodeLoginResponseFrame serialize
       \<lparr>resp_decision = None, resp_status = RESPONSE_OVERLOADED, resp_reason_code = ''service_overloaded''\<rparr>"

definition buildLoginBusinessTimeoutResponseFrame :: "(LoginResponse \<Rightarrow> bytes option) \<Rightarrow> bytes option" where
  "buildLoginBusinessTimeoutResponseFrame serialize =
     encodeLoginResponseFrame serialize
       \<lparr>resp_decision = None, resp_status = RESPONSE_TIMEOUT, resp_reason_code = ''business_timeout''\<rparr>"

section \<open>Facts\<close>

lemma validate_Some:
  "validate pt nt request now = Some a \<longleftrightarrow>
     (\<exists>ip x result. request = \<lparr>req_attempt_id = Some (attempt_id a), req_timestamp_ms = Some (timestamp_ms a),
        req_user_id = Some (attempt_user_id a), req_ip = Some ip, req_device_id = Some (attempt_device_id a),
        req_result = Some result\<rparr> \<and>
        attempt_user_id a \<noteq> [] \<and> length (attempt_user_id a) \<le> 128 \<and> ip \<noteq> [] \<and> length ip \<le> 45 \<and>
        attempt_device_id a \<noteq> [] \<and> length (attempt_device_id a) \<le> 128 \<and>
        timestamp_ms a \<le> now \<and> now - timestamp_ms a < 3600000 \<and>
        ip_parse pt nt ip = Some x \<and> attempt_ip a = canonicalText x \<and>
        (result = 1 \<and> attempt_result a = LoginSuccess \<or> result = 2 \<and> attempt_result a = LoginFail))"
proof -
  obtain aid ts user ip device result where r: "request = \<lparr>req_attempt_id = aid, req_timestamp_ms = ts,
      req_user_id = user, req_ip = ip, req_device_id = device, req_result = result\<rparr>"
    by (cases request) blast
  show ?thesis
    unfolding r
    by (cases a; cases aid; cases ts; cases user; cases ip; cases device; cases result)
       (auto simp: validate_def kMaxUserIdBytes_def kMaxDeviceIdBytes_def kMaxIpBytes_def kMaxPastAgeMs_def
         LoginResult_IsValid_def not_le not_less split: option.splits)
qed

lemma parse_again:
  assumes "inet_laws pt nt" "ip_parse pt nt ip = Some x"
  shows "ip_parse pt nt (canonicalText x) = Some x"
  using parse_fromBytes [OF assms] parse_canonical [OF assms(1)] by metis

lemma submit_all_fold: "submit_all cs q = foldl (\<lambda>q m. fst (queue_trySubmit m q)) q cs"
  by (induction cs arbitrary: q) simp_all

lemma generate_short: "length (generate pt nt a d b now) \<le> 1"
  by (simp add: generate_def split: option.split)

lemma evaluate_parts:
  "service_evaluate hash pt nt now el mgr a svc = (svc', ev) \<Longrightarrow>
   decision_attempt_id (eval_decision ev) = attempt_id a \<and> decision_user_id (eval_decision ev) = attempt_user_id a \<and>
   length (eval_candidates ev) \<le> 1 \<and> service_policy svc' = service_policy svc"
  using generate_short by (auto simp: service_evaluate_def policy_evaluate_def Let_def case_prod_beta)

lemma submit_candidates_short:
  assumes "length cs \<le> 1"
  shows "submit_candidates env cs queue =
    (if queue \<noteq> None \<and> cs \<noteq> [] \<and> env_throw env = Some (ThrowSubmit 0) then (queue, False)
     else (map_option (submit_all cs) queue, True))"
  using assms
  by (cases cs) (auto simp: submit_candidates_def split: option.splits throw_point.splits)

lemma serialize_outcome:
  "serialize_response env d =
     (if env_serialize env (login_response d) = None \<or> env_serialize env (login_response d) = Some []
      then frame_result FrameFailed
      else \<lparr>frame_status = FrameResponse, response_payload = the (env_serialize env (login_response d))\<rparr>)"
  by (auto simp: serialize_response_def split: option.split)

lemma handle_evaluated:
  assumes "\<not> stopRequested (env_stop_first env)" "\<not> stopRequested (env_stop_second env)"
    and "env_throw env \<notin> {Some ThrowParse, Some ThrowValidate, Some ThrowEvaluate}"
    and "env_parse env payload = Some request"
    and "validate (env_pton env) (env_ntop env) request (env_validate_now env) = Some attempt"
    and "service_evaluate (env_hash env) (env_pton env) (env_ntop env) (env_evaluate_now env) (env_elapsed env) mgr
           attempt svc = (evaluated, ev)"
  shows "login_handle env mgr payload (svc, queue) =
    (if queue \<noteq> None \<and> eval_candidates ev \<noteq> [] \<and> env_throw env = Some (ThrowSubmit 0)
     then ((evaluated, queue), frame_result FrameFailed)
     else ((evaluated, map_option (submit_all (eval_candidates ev)) queue),
       if env_throw env = Some ThrowResponse then frame_result FrameFailed
       else serialize_response env (eval_decision ev)))"
  using assms submit_candidates_short [of "eval_candidates ev" env queue] evaluate_parts [OF assms(6)]
  by (auto simp: login_handle_def handle_body_def)

definition example_request :: LoginRequest where
  "example_request = \<lparr>req_attempt_id = Some 9, req_timestamp_ms = Some 40, req_user_id = Some ''u'',
     req_ip = Some ''4|..|.|.'', req_device_id = Some ''d'', req_result = Some 2\<rparr>"

lemma example_parses: "\<exists>x. ip_parse example_pton example_ntop ''4|..|.|.'' = Some x \<and> canonicalText x = ''4|..|.|.''"
  by (simp add: ip_parse_def example_pton_def containsNull_def ip_fromBytes_def example_ntop_def Let_def enc_byte_def)

lemma example_validates: "\<exists>a. validate example_pton example_ntop example_request 50 = Some a \<and> attempt_id a = 9"
proof -
  obtain x where "ip_parse example_pton example_ntop ''4|..|.|.'' = Some x" using example_parses by blast
  then show ?thesis
    by (simp add: validate_def example_request_def kMaxUserIdBytes_def kMaxIpBytes_def kMaxDeviceIdBytes_def
        kMaxPastAgeMs_def LoginResult_IsValid_def)
qed

section \<open>Properties\<close>

text \<open>
  C39.  What passes validation.  A request is refused when a field is missing or its result is
  neither success nor failure; an accepted attempt has non-empty bounded identifiers, a time stamp
  of the last hour, and the IP in canonical text, so that two spellings of one address give the
  same attempt and validating the canonical spelling changes nothing.
\<close>

theorem request_validated:
  assumes "inet_laws pt nt" "validate pt nt request now = Some a"
  shows "(\<exists>x. ip_parse pt nt (attempt_ip a) = Some x \<and> canonicalText x = attempt_ip a) \<and>
    attempt_user_id a \<noteq> [] \<and> length (attempt_user_id a) \<le> 128 \<and>
    attempt_device_id a \<noteq> [] \<and> length (attempt_device_id a) \<le> 128 \<and>
    timestamp_ms a \<le> now \<and> now < timestamp_ms a + 3600000 \<and>
    (req_result request = Some 1 \<or> req_result request = Some 2) \<and>
    req_attempt_id request = Some (attempt_id a) \<and> req_timestamp_ms request \<noteq> None \<and> req_ip request \<noteq> None \<and>
    (\<forall>ip'. ip' \<noteq> [] \<and> length ip' \<le> 45 \<and> ip_parse pt nt ip' = ip_parse pt nt (the (req_ip request)) \<longrightarrow>
       validate pt nt (request\<lparr>req_ip := Some ip'\<rparr>) now = Some a)"
proof -
  obtain ip x result where r: "request = \<lparr>req_attempt_id = Some (attempt_id a), req_timestamp_ms = Some (timestamp_ms a),
        req_user_id = Some (attempt_user_id a), req_ip = Some ip, req_device_id = Some (attempt_device_id a),
        req_result = Some result\<rparr>" "ip_parse pt nt ip = Some x" "attempt_ip a = canonicalText x"
    and b: "attempt_user_id a \<noteq> []" "length (attempt_user_id a) \<le> 128"
        "attempt_device_id a \<noteq> []" "length (attempt_device_id a) \<le> 128"
        "timestamp_ms a \<le> now" "now - timestamp_ms a < 3600000"
        "result = 1 \<and> attempt_result a = LoginSuccess \<or> result = 2 \<and> attempt_result a = LoginFail"
    using assms(2) unfolding validate_Some by blast
  have "validate pt nt (request\<lparr>req_ip := Some ip'\<rparr>) now = Some a"
    if "ip' \<noteq> []" "length ip' \<le> 45" "ip_parse pt nt ip' = Some x" for ip'
    unfolding validate_Some r(1) using that r b by auto
  moreover have "ip_parse pt nt (attempt_ip a) = Some x" using parse_again [OF assms(1) r(2)] r(3) by simp
  ultimately show ?thesis using r b by auto
qed

theorem request_validated_witness:
  "\<exists>a x. validate example_pton example_ntop example_request 50 = Some a \<and>
     ip_parse example_pton example_ntop (attempt_ip a) = Some x \<and> canonicalText x = attempt_ip a"
  using example_validates request_validated [OF example_inet_laws] by blast

text \<open>
  C38.  Every call of the handler ends as its inputs say.  A stop request before the parsing gives a
  cancellation, an exception while the request is parsed or validated a failure, an unparsable or
  invalid request a refusal, a stop request after the validation a cancellation; in all these cases
  the service and the candidate queue stay as they were.  An exception inside the evaluation is a
  failure that leaves the queue as it was.  After an evaluation the service is the one it leaves, and
  every candidate, of which there is at most one, has been submitted to the queue; the result is a
  response with the serialised decision for the validated attempt, status OK and the identifiers of the
  request, or a failure when the response cannot be serialised or its construction throws.  An exception
  while a candidate is submitted is a failure after the candidates before it.  Only a response has a
  payload.
\<close>

theorem handler_outcomes:
  assumes "login_handle env mgr payload (svc, queue) = ((svc', queue'), res)"
    and "attempt = (case env_parse env payload of None \<Rightarrow> None
           | Some request \<Rightarrow> validate (env_pton env) (env_ntop env) request (env_validate_now env))"
    and "(evaluated, ev) = service_evaluate (env_hash env) (env_pton env) (env_ntop env)
           (env_evaluate_now env) (env_elapsed env) mgr (the attempt) svc"
    and "submitted = (\<lambda>ms. map_option (\<lambda>q. foldl (\<lambda>q m. fst (queue_trySubmit m q)) q ms) queue)"
    and "response = env_serialize env \<lparr>resp_decision = Some (fillProtoDecision (eval_decision ev)),
           resp_status = RESPONSE_OK, resp_reason_code = []\<rparr>"
  shows "(frame_status res \<noteq> FrameResponse \<longrightarrow> response_payload res = []) \<and>
    (if stopRequested (env_stop_first env)
     then frame_status res = FrameCancelled \<and> svc' = svc \<and> queue' = queue
     else if env_throw env = Some ThrowParse \<or> env_throw env = Some ThrowValidate \<and> env_parse env payload \<noteq> None
     then frame_status res = FrameFailed \<and> svc' = svc \<and> queue' = queue
     else if attempt = None then frame_status res = FrameInvalidRequest \<and> svc' = svc \<and> queue' = queue
     else if stopRequested (env_stop_second env)
     then frame_status res = FrameCancelled \<and> svc' = svc \<and> queue' = queue
     else if env_throw env = Some ThrowEvaluate then frame_status res = FrameFailed \<and> queue' = queue
     else svc' = evaluated \<and> length (eval_candidates ev) \<le> 1 \<and>
       decision_attempt_id (eval_decision ev) = attempt_id (the attempt) \<and>
       decision_user_id (eval_decision ev) = attempt_user_id (the attempt) \<and>
       (if queue \<noteq> None \<and> eval_candidates ev \<noteq> [] \<and> env_throw env = Some (ThrowSubmit 0)
        then frame_status res = FrameFailed \<and> queue' = queue
        else queue' = submitted (eval_candidates ev) \<and>
          (if env_throw env = Some ThrowResponse \<or> response = None \<or> response = Some []
           then frame_status res = FrameFailed
           else frame_status res = FrameResponse \<and> response_payload res = the response)))"
proof (cases "stopRequested (env_stop_first env) \<or> env_throw env = Some ThrowParse \<or>
    env_throw env = Some ThrowValidate \<and> env_parse env payload \<noteq> None \<or> attempt = None \<or>
    stopRequested (env_stop_second env) \<or> env_throw env = Some ThrowEvaluate")
  case True
  then show ?thesis using assms(1,2)
    by (auto simp: login_handle_def handle_body_def frame_result_def split: if_splits option.splits)
next
  case False
  then obtain request a where ra: "env_parse env payload = Some request" "attempt = Some a"
      "validate (env_pton env) (env_ntop env) request (env_validate_now env) = Some a"
    using assms(2) by (auto split: option.splits)
  have ev: "service_evaluate (env_hash env) (env_pton env) (env_ntop env) (env_evaluate_now env)
      (env_elapsed env) mgr a svc = (evaluated, ev)" using assms(3) ra(2) by simp
  have "submitted (eval_candidates ev) = map_option (submit_all (eval_candidates ev)) queue"
    unfolding assms(4) submit_all_fold by simp
  moreover have "response = env_serialize env (login_response (eval_decision ev))"
    unfolding assms(5) login_response_def by simp
  ultimately show ?thesis
    using assms(1) False ra evaluate_parts [OF ev] handle_evaluated [OF _ _ _ ra(1,3) ev, of queue]
    by (auto simp: serialize_outcome frame_result_def split: if_splits)
qed

definition example_env :: handler_env where
  "example_env = \<lparr>env_parse = (\<lambda>bs. if bs = [1] then Some example_request else None),
     env_serialize = (\<lambda>r. Some [7]), env_hash = (\<lambda>_. 0), env_pton = example_pton, env_ntop = example_ntop,
     env_validate_now = 50, env_evaluate_now = 51, env_elapsed = 3, env_stop_first = Some False,
     env_stop_second = Some False, env_throw = None, env_broken = (\<lambda>svc. svc)\<rparr>"

theorem handler_outcomes_witness:
  "\<forall>svc queue. snd (login_handle example_env None [1] (svc, queue)) =
     \<lparr>frame_status = FrameResponse, response_payload = [7]\<rparr>"
proof (intro allI)
  fix svc queue
  obtain s q res where h: "login_handle example_env None [1] (svc, queue) = ((s, q), res)"
    by (metis surj_pair)
  obtain a where a: "validate example_pton example_ntop example_request 50 = Some a"
    using example_validates by blast
  obtain evaluated ev where ev: "(evaluated, ev) = service_evaluate (env_hash example_env) (env_pton example_env)
      (env_ntop example_env) (env_evaluate_now example_env) (env_elapsed example_env) None (the (Some a)) svc"
    by (metis surj_pair)
  have "Some a = (case env_parse example_env [1] of None \<Rightarrow> None
      | Some request \<Rightarrow> validate (env_pton example_env) (env_ntop example_env) request (env_validate_now example_env))"
    by (simp add: example_env_def a)
  from handler_outcomes [OF h this ev refl refl]
  show "snd (login_handle example_env None [1] (svc, queue)) = \<lparr>frame_status = FrameResponse, response_payload = [7]\<rparr>"
    unfolding h by (cases res) (simp add: example_env_def stopRequested_def)
qed

end
