(* ===== verification/Timer_Core.thy ===== *)
theory Timer_Core
  imports Timer_Types Priority_Queue "HOL-Library.AList" "HOL-Library.Product_Lexorder"
begin

text \<open>
  The timer core (\<open>src/timer/timer_core.cpp\<close>): a command queue, a heap of nodes ordered
  by deadline and sequence, and a table of reservations that decides which nodes still count.
  Each operation holds the core's mutex and is one function; \<open>runReady\<close> takes the mutex
  once per fired timer, so its loop body is a function of its own and other threads may act in
  between.  A weak pointer to a sink is an address; which addresses are alive is a parameter.
  Allocation failure is left out.
\<close>

section \<open>State\<close>

record TimerCoreConfig =
  command_capacity :: nat
  timer_capacity :: nat

record TimerCycleResult =
  cycle_status :: TimerStatus
  commands_processed :: nat
  timers_dispatched :: nat
  next_deadline :: "steady_time option"
  cycle_stopped :: bool

record Reservation =
  res_generation :: u64
  res_cancelled :: bool

record HeapNode =
  node_deadline :: steady_time
  node_sequence :: u64
  node_id :: TimerId
  node_sink :: nat
  node_event :: TimerEvent

datatype Command = Schedule HeapNode TimerId | Stop

record TimerCore =
  core_config :: "TimerCoreConfig option"
  core_commands :: "Command list"
  core_heap :: "HeapNode list"
  reservations :: "(u64 \<times> Reservation) list"
  next_id_value :: u64
  next_generation :: u64
  next_sequence :: u64
  core_accepting :: bool
  stop_requested :: bool
  core_stopped :: bool

definition core_new :: TimerCore where
  "core_new = \<lparr>core_config = None, core_commands = [], core_heap = [], reservations = [],
     next_id_value = 1, next_generation = 1, next_sequence = 0, core_accepting = False,
     stop_requested = False, core_stopped = False\<rparr>"

text \<open>The order of the heap: the earliest deadline first, then the order of scheduling.\<close>

definition node_key :: "HeapNode \<Rightarrow> steady_time \<times> u64" where
  "node_key n = (node_deadline n, node_sequence n)"

section \<open>Operations\<close>

definition core_validConfig :: "TimerCoreConfig \<Rightarrow> bool" where
  "core_validConfig c \<longleftrightarrow> command_capacity c > 0 \<and> timer_capacity c > 0"

fun validEventKind :: "TimerEventKind \<Rightarrow> bool" where
  "validEventKind IdleTimeout = True"
| "validEventKind ReadTimeout = True"
| "validEventKind WriteTimeout = True"
| "validEventKind BusinessTimeout = True"
| "validEventKind CleanupTick = True"
| "validEventKind BlacklistMaintenanceTick = True"

definition core_init :: "TimerCoreConfig \<Rightarrow> TimerCore \<Rightarrow> TimerCore \<times> TimerStatus" where
  "core_init config core =
     (if \<not> core_validConfig config then (core, InvalidConfig)
      else case core_config core of
          Some c \<Rightarrow> (core, if c = config then TimerOk else ConfigConflict)
        | None \<Rightarrow> (core\<lparr>reservations := [], core_config := Some config, core_accepting := True,
                        stop_requested := False, core_stopped := False\<rparr>, TimerOk))"

definition core_scheduleAt ::
  "(nat \<Rightarrow> bool) \<Rightarrow> steady_time \<Rightarrow> nat \<Rightarrow> TimerEvent \<Rightarrow> TimerCore \<Rightarrow> TimerCore \<times> TimerScheduleResult" where
  "core_scheduleAt alive deadline sink event core =
     (let failed = (\<lambda>status. (core, \<lparr>schedule_status = status, schedule_id = no_timer\<rparr>))
      in case core_config core of
          None \<Rightarrow> failed NotInitialized
        | Some config \<Rightarrow>
            if \<not> core_accepting core then failed TimerStopped
            else if \<not> validEventKind (event_kind event) then failed InvalidEvent
            else if \<not> alive sink then failed SinkExpired
            else if length (core_commands core) \<ge> command_capacity config then failed QueueFull
            else if length (reservations core) \<ge> timer_capacity config then failed TimerLimit
            else if next_id_value core = - 1 \<or> next_generation core = - 1 \<or> next_sequence core = - 1
            then failed IdExhausted
            else
              let i = \<lparr>id_value = next_id_value core, id_generation = next_generation core\<rparr>;
                  node = \<lparr>node_deadline = deadline, node_sequence = next_sequence core, node_id = i,
                          node_sink = sink, node_event = event\<rparr>
              in if map_of (reservations core) (id_value i) \<noteq> None then failed InternalError
                 else (core\<lparr>reservations := (id_value i, \<lparr>res_generation = id_generation i, res_cancelled = False\<rparr>)
                                              # reservations core,
                            core_commands := core_commands core @ [Schedule node i],
                            next_id_value := next_id_value core + 1,
                            next_generation := next_generation core + 1,
                            next_sequence := next_sequence core + 1\<rparr>,
                       \<lparr>schedule_status = TimerOk, schedule_id = i\<rparr>))"

definition core_cancel :: "TimerId \<Rightarrow> TimerCore \<Rightarrow> TimerCore \<times> TimerStatus" where
  "core_cancel i core =
     (if core_config core = None then (core, NotInitialized)
      else if \<not> core_accepting core then (core, TimerStopped)
      else case map_of (reservations core) (id_value i) of
          None \<Rightarrow> (core, NotFound)
        | Some r \<Rightarrow>
            if res_generation r \<noteq> id_generation i then (core, GenerationMismatch)
            else (core\<lparr>reservations := AList.delete (id_value i) (reservations core)\<rparr>, TimerOk))"

definition core_requestStop :: "TimerCore \<Rightarrow> TimerCore \<times> TimerStatus" where
  "core_requestStop core =
     (if core_config core = None then (core, NotInitialized)
      else if stop_requested core then (core, TimerOk)
      else (core\<lparr>core_commands := core_commands core @ [Stop], core_accepting := False,
                 stop_requested := True\<rparr>, TimerOk))"

definition reserved :: "(u64 \<times> Reservation) list \<Rightarrow> TimerId \<Rightarrow> bool" where
  "reserved rs i \<longleftrightarrow> (case map_of rs (id_value i) of
       None \<Rightarrow> False
     | Some r \<Rightarrow> res_generation r = id_generation i \<and> \<not> res_cancelled r)"

definition drop_cancelled :: "HeapNode \<Rightarrow> (u64 \<times> Reservation) list \<Rightarrow> (u64 \<times> Reservation) list" where
  "drop_cancelled node rs =
     (case map_of rs (id_value (node_id node)) of
        Some r \<Rightarrow> if res_generation r = id_generation (node_id node) \<and> res_cancelled r
                  then AList.delete (id_value (node_id node)) rs else rs
      | None \<Rightarrow> rs)"

definition cleanupStaleLocked :: "TimerCore \<Rightarrow> TimerCore" where
  "cleanupStaleLocked core =
     (let (h, rs) = pq_while pq_top pq_pop (\<lambda>node rs. \<not> reserved rs (node_id node)) drop_cancelled
            (length (core_heap core)) (core_heap core) (reservations core)
      in core\<lparr>core_heap := h, reservations := rs\<rparr>)"

definition nextDeadlineLocked :: "TimerCore \<Rightarrow> steady_time option" where
  "nextDeadlineLocked core = map_option node_deadline (pq_top (core_heap core))"

fun process_command :: "Command \<Rightarrow> TimerCore \<Rightarrow> TimerCore" where
  "process_command (Schedule node i) core =
     (if reserved (reservations core) i then core\<lparr>core_heap := pq_push node_key node (core_heap core)\<rparr> else core)"
| "process_command Stop core =
     core\<lparr>reservations := map (\<lambda>(k, r). (k, r\<lparr>res_cancelled := True\<rparr>)) (reservations core), core_stopped := True\<rparr>"

definition processCommands :: "TimerCore \<Rightarrow> TimerCore \<times> TimerCycleResult" where
  "processCommands core =
     (if core_config core = None
      then (core, \<lparr>cycle_status = NotInitialized, commands_processed = 0, timers_dispatched = 0,
                   next_deadline = None, cycle_stopped = False\<rparr>)
      else let core' = cleanupStaleLocked ((fold process_command (core_commands core) core)\<lparr>core_commands := []\<rparr>)
           in (core', \<lparr>cycle_status = TimerOk, commands_processed = length (core_commands core),
                       timers_dispatched = 0, next_deadline = nextDeadlineLocked core',
                       cycle_stopped = core_stopped core'\<rparr>))"

text \<open>The critical section of one iteration of the loop of \<open>runReady\<close>.\<close>

datatype dispatch = DispatchBreak | DispatchContinue | DispatchFire HeapNode

definition dispatch_next :: "steady_time \<Rightarrow> TimerCore \<Rightarrow> TimerCore \<times> dispatch" where
  "dispatch_next now core =
     (if stop_requested core then (core, DispatchBreak)
      else let core = cleanupStaleLocked core
           in case pq_top (core_heap core) of
                None \<Rightarrow> (core, DispatchBreak)
              | Some node \<Rightarrow>
                  if node_deadline node > now then (core, DispatchBreak)
                  else let core = core\<lparr>core_heap := pq_pop (core_heap core)\<rparr>
                       in if \<not> reserved (reservations core) (node_id node) then (core, DispatchContinue)
                          else (core\<lparr>reservations := AList.delete (id_value (node_id node)) (reservations core)\<rparr>,
                                DispatchFire node))"

text \<open>The loop itself.  \<open>post\<close> is what happens to the core while the mutex is released to post
  an event: the sink, or another thread, may schedule, cancel or request the stop.  None of these
  touches the heap, so its size bounds the number of iterations.\<close>

fun ready_loop ::
  "(HeapNode \<Rightarrow> TimerCore \<Rightarrow> TimerCore) \<Rightarrow> steady_time \<Rightarrow> nat \<Rightarrow> TimerCore \<Rightarrow> TimerCore \<times> HeapNode list" where
  "ready_loop post now 0 core = (core, [])"
| "ready_loop post now (Suc fuel) core =
     (case dispatch_next now core of
        (core, DispatchBreak) \<Rightarrow> (core, [])
      | (core, DispatchContinue) \<Rightarrow> ready_loop post now fuel core
      | (core, DispatchFire node) \<Rightarrow> apsnd ((#) node) (ready_loop post now fuel (post node core)))"

definition runReady ::
  "(HeapNode \<Rightarrow> TimerCore \<Rightarrow> TimerCore) \<Rightarrow> steady_time \<Rightarrow> TimerCore \<Rightarrow>
   TimerCore \<times> HeapNode list \<times> TimerCycleResult" where
  "runReady post now core =
     (let (core, result) = processCommands core
      in if cycle_status result \<noteq> TimerOk then (core, [], result)
         else let (core, fired) = ready_loop post now (Suc (length (core_heap core))) core;
                  core = cleanupStaleLocked core
              in (core, fired, result\<lparr>timers_dispatched := length fired,
                    next_deadline := nextDeadlineLocked core, cycle_stopped := core_stopped core\<rparr>))"

text \<open>The events posted: the sink of a fired timer receives it if it is still alive.\<close>

definition posted_events :: "(nat \<Rightarrow> bool) \<Rightarrow> HeapNode list \<Rightarrow> (nat \<times> TimerEvent) list" where
  "posted_events alive fired = map (\<lambda>n. (node_sink n, node_event n)) (filter (\<lambda>n. alive (node_sink n)) fired)"

section \<open>The heap\<close>

interpretation timer_heap: priority_queue
  "\<lambda>h. sorted (map node_key h)" "[]" "pq_push node_key" pq_top pq_pop mset node_key
  by (rule list_queue_laws)

section \<open>Pending timers\<close>

fun command_nodes :: "Command list \<Rightarrow> HeapNode list" where
  "command_nodes [] = []"
| "command_nodes (Schedule n i # cs) = n # command_nodes cs"
| "command_nodes (Stop # cs) = command_nodes cs"

abbreviation node_no :: "HeapNode \<Rightarrow> u64" where
  "node_no n \<equiv> id_value (node_id n)"

definition core_nodes :: "TimerCore \<Rightarrow> HeapNode list" where
  "core_nodes core = core_heap core @ command_nodes (core_commands core)"

abbreviation reserved_in :: "TimerCore \<Rightarrow> HeapNode \<Rightarrow> bool" where
  "reserved_in core n \<equiv> reserved (reservations core) (node_id n)"

definition waiting :: "TimerCore \<Rightarrow> HeapNode multiset" where
  "waiting core = filter_mset (reserved_in core) (mset (core_nodes core))"

definition stop_ok :: "TimerCore \<Rightarrow> bool" where
  "stop_ok core \<longleftrightarrow>
     (if stop_requested core
      then \<not> core_accepting core \<and> (if core_stopped core then core_commands core = [] \<and> waiting core = {#}
            else \<exists>cs. core_commands core = cs @ [Stop] \<and> Stop \<notin> set cs)
      else \<not> core_stopped core \<and> Stop \<notin> set (core_commands core))"

definition core_wf :: "TimerCore \<Rightarrow> bool" where
  "core_wf core \<longleftrightarrow>
     sorted (map node_key (core_heap core)) \<and>
     distinct (map node_no (core_nodes core)) \<and>
     (\<forall>n \<in> set (core_nodes core). node_no n < next_id_value core) \<and>
     distinct (map fst (reservations core)) \<and>
     (\<forall>k \<in> fst ` set (reservations core). k < next_id_value core) \<and>
     (\<not> core_stopped core \<longrightarrow> (\<forall>(k, r) \<in> set (reservations core). \<not> res_cancelled r \<and>
        (\<exists>n \<in> set (core_nodes core). node_id n = \<lparr>id_value = k, id_generation = res_generation r\<rparr>))) \<and>
     (\<forall>n i. Schedule n i \<in> set (core_commands core) \<longrightarrow> i = node_id n) \<and>
     stop_ok core"

lemma command_nodes_append [simp]: "command_nodes (xs @ ys) = command_nodes xs @ command_nodes ys"
  by (induction xs rule: command_nodes.induct) auto

lemma less_next: "(n :: u64) \<noteq> - 1 \<Longrightarrow> x < n + 1 \<longleftrightarrow> x \<le> n"
  using inc_less_eq_iff [of n x] by (auto simp: not_le)

lemma reserved_drop [simp]: "reserved (drop_cancelled n rs) i \<longleftrightarrow> reserved rs i"
  by (auto simp: reserved_def drop_cancelled_def delete_conv' split: option.splits)

lemma reserved_delete: "reserved (AList.delete k rs) i \<longleftrightarrow> reserved rs i \<and> id_value i \<noteq> k"
  by (simp add: reserved_def delete_conv')

lemma drop_reservations:
  "fst ` set (drop_cancelled n rs) \<subseteq> fst ` set rs"
  "distinct (map fst rs) \<Longrightarrow> distinct (map fst (drop_cancelled n rs))"
  "\<forall>(k, r) \<in> set rs. \<not> res_cancelled r \<Longrightarrow> drop_cancelled n rs = rs"
  by (auto simp: drop_cancelled_def distinct_map_filter AList.delete_eq intro: rev_image_eqI dest: map_of_SomeD split: option.splits)

text \<open>Cleaning up removes stale nodes from the top of the heap and nothing else.\<close>

lemma cleanup_spec:
  assumes "sorted (map node_key (core_heap core))"
  obtains h rs gone where "cleanupStaleLocked core = core\<lparr>core_heap := h, reservations := rs\<rparr>"
    "core_heap core = gone @ h" "\<forall>n \<in> set gone. \<not> reserved_in core n"
    "reserved rs = reserved (reservations core)" "fst ` set rs \<subseteq> fst ` set (reservations core)"
    "distinct (map fst (reservations core)) \<longrightarrow> distinct (map fst rs)"
    "(\<forall>(k, r) \<in> set (reservations core). \<not> res_cancelled r) \<longrightarrow> rs = reservations core"
    "\<forall>n. pq_top h = Some n \<longrightarrow> reserved_in core n"
proof -
  define I where "I h rs \<longleftrightarrow> (\<exists>gone. core_heap core = gone @ h \<and> (\<forall>n \<in> set gone. \<not> reserved_in core n)) \<and>
    reserved rs = reserved (reservations core) \<and> fst ` set rs \<subseteq> fst ` set (reservations core) \<and>
    (distinct (map fst (reservations core)) \<longrightarrow> distinct (map fst rs)) \<and>
    ((\<forall>(k, r) \<in> set (reservations core). \<not> res_cancelled r) \<longrightarrow> rs = reservations core)" for h rs
  have step: "I (pq_pop h) (drop_cancelled n rs)"
    if a: "I h rs" "pq_top h = Some n" "\<not> reserved rs (node_id n)" for h rs n
  proof -
    obtain h' where h: "h = n # h'" using a(2) by (cases h) (auto simp: pq_top_def)
    obtain gone where g: "core_heap core = gone @ h" "\<forall>n \<in> set gone. \<not> reserved_in core n"
      using a(1) by (auto simp: I_def)
    have "\<exists>gone. core_heap core = gone @ h' \<and> (\<forall>n \<in> set gone. \<not> reserved_in core n)"
      using g h a(1,3) by (intro exI [of _ "gone @ [n]"]) (auto simp: I_def)
    moreover have "reserved (drop_cancelled n rs) = reserved rs" by (simp add: fun_eq_iff)
    ultimately show ?thesis
      using a(1) drop_reservations(1) [of n rs] drop_reservations(2,3) [of rs n]
      unfolding I_def h pq_pop_def list.sel by (metis (no_types, lifting) subset_trans)
  qed
  have init: "I (core_heap core) (reservations core)" by (auto simp: I_def)
  obtain h rs where w: "pq_while pq_top pq_pop (\<lambda>node rs. \<not> reserved rs (node_id node)) drop_cancelled
      (length (core_heap core)) (core_heap core) (reservations core) = (h, rs)" "I h rs"
      "\<forall>n. pq_top h = Some n \<longrightarrow> \<not> \<not> reserved rs (node_id n)"
    using timer_heap.while_rule [where I = I and cond = "\<lambda>node rs. \<not> reserved rs (node_id node)"
        and step = drop_cancelled, OF _ assms init] step
    by (metis (no_types, lifting) order_refl size_mset)
  have eq: "cleanupStaleLocked core = core\<lparr>core_heap := h, reservations := rs\<rparr>"
    by (simp add: cleanupStaleLocked_def w(1))
  show ?thesis
    using that [OF eq] w(2,3) unfolding I_def by simp metis
qed

section \<open>What the operations do to the pending timers\<close>

lemma waiting_iff: "n \<in># waiting core \<longleftrightarrow> n \<in> set (core_nodes core) \<and> reserved_in core n"
  by (auto simp: waiting_def)

lemma waiting_congr:
  "mset (core_nodes c) = mset (core_nodes d) \<Longrightarrow> (\<And>n. n \<in> set (core_nodes c) \<Longrightarrow> reserved_in c n = reserved_in d n) \<Longrightarrow>
   waiting c = waiting d"
  by (metis (no_types, lifting) filter_mset_cong set_mset_mset waiting_def)

lemma fresh_unreserved:
  assumes "core_wf core"
  shows "next_id_value core \<notin> fst ` set (reservations core)" "next_id_value core \<notin> node_no ` set (core_nodes core)"
  using assms unfolding core_wf_def by (metis (no_types, lifting) imageE less_irrefl)+

lemma schedule_cases:
  assumes "core_wf core" "core_scheduleAt alive deadline sink event core = (core', res)"
  obtains (refused) "core' = core" "schedule_status res \<noteq> TimerOk" "schedule_status res \<noteq> InternalError"
      "schedule_id res = no_timer"
  | (scheduled) n where "n = \<lparr>node_deadline = deadline, node_sequence = next_sequence core,
        node_id = schedule_id res, node_sink = sink, node_event = event\<rparr>" "schedule_status res = TimerOk"
      "node_no n = next_id_value core" "core_accepting core" "next_id_value core \<noteq> - 1"
      "core' = core\<lparr>reservations := (node_no n, \<lparr>res_generation = id_generation (node_id n), res_cancelled = False\<rparr>)
                     # reservations core,
                   core_commands := core_commands core @ [Schedule n (node_id n)],
                   next_id_value := next_id_value core + 1, next_generation := next_generation core + 1,
                   next_sequence := next_sequence core + 1\<rparr>"
proof -
  have "map_of (reservations core) (next_id_value core) = None"
    using fresh_unreserved(1) [OF assms(1)] by (simp add: map_of_eq_None_iff)
  then show ?thesis
    using assms(2) refused scheduled
    by (fastforce simp: core_scheduleAt_def Let_def split: option.splits if_splits)
qed

lemma schedule_wf:
  assumes "core_wf core" "n = \<lparr>node_deadline = deadline, node_sequence = next_sequence core,
        node_id = i, node_sink = sink, node_event = event\<rparr>"
    and "node_no n = next_id_value core" "core_accepting core" "next_id_value core \<noteq> - 1"
    and "core' = core\<lparr>reservations := (node_no n, \<lparr>res_generation = id_generation (node_id n), res_cancelled = False\<rparr>)
                     # reservations core,
                   core_commands := core_commands core @ [Schedule n (node_id n)],
                   next_id_value := next_id_value core + 1, next_generation := next_generation core + 1,
                   next_sequence := next_sequence core + 1\<rparr>"
  shows "core_wf core' \<and> waiting core' = add_mset n (waiting core)"
proof -
  have nodes: "core_nodes core' = core_nodes core @ [n]" by (simp add: assms(6) core_nodes_def)
  have "node_no m \<noteq> next_id_value core" if "m \<in> set (core_nodes core)" for m
    using that fresh_unreserved(2) [OF assms(1)] by (metis image_eqI)
  then have res: "reserved_in core' m \<longleftrightarrow> reserved_in core m" if "m \<in> set (core_nodes core)" for m
    using that assms(3) by (simp add: reserved_def assms(6))
  moreover have "reserved_in core' n" by (simp add: reserved_def assms(6))
  ultimately have w: "waiting core' = add_mset n (waiting core)"
    by (auto simp: waiting_def nodes intro: filter_mset_cong)
  have "k < next_id_value core' \<longleftrightarrow> k \<le> next_id_value core" for k
    using less_next [OF assms(5)] by (simp add: assms(6))
  moreover have "stop_ok core'"
    using assms(1,4) by (auto simp: core_wf_def stop_ok_def assms(6) split: if_splits)
  ultimately show ?thesis
    using assms(1,3) fresh_unreserved [OF assms(1)] w nodes
    unfolding core_wf_def by (auto simp: assms(6) order.strict_implies_order)
qed

lemma wf_stop:
  assumes "core_wf core"
  shows "core_stopped core \<Longrightarrow> core_commands core = [] \<and> waiting core = {#}"
    and "\<not> stop_requested core \<Longrightarrow> \<not> core_stopped core \<and> Stop \<notin> set (core_commands core)"
    and "core_accepting core \<Longrightarrow> \<not> stop_requested core"
    and "stop_requested core \<Longrightarrow> \<not> core_stopped core \<Longrightarrow> \<exists>cs. core_commands core = cs @ [Stop] \<and> Stop \<notin> set cs"
  using assms by (auto simp: core_wf_def stop_ok_def split: if_splits)

lemma wf_command: "core_wf core \<Longrightarrow> Schedule n i \<in> set (core_commands core) \<Longrightarrow> i = node_id n"
  unfolding core_wf_def by blast

lemma unique_node:
  "core_wf core \<Longrightarrow> n \<in> set (core_nodes core) \<Longrightarrow> m \<in> set (core_nodes core) \<Longrightarrow> node_no n = node_no m \<Longrightarrow> n = m"
  unfolding core_wf_def distinct_map inj_on_def by blast

lemma waiting_delete:
  assumes "core_wf core" "n \<in># waiting core" "core_nodes core' = core_nodes core"
    and "reservations core' = AList.delete (node_no n) (reservations core)"
  shows "waiting core' = waiting core - {#n#}"
proof -
  have n: "n \<in> set (core_nodes core)" using assms(2) by (simp add: waiting_iff)
  have "distinct (core_nodes core)" using assms(1) by (auto simp: core_wf_def distinct_map)
  then have c: "count (mset (core_nodes core)) m = (if m \<in> set (core_nodes core) then 1 else 0)" for m
    by (rule distinct_count_atmost_1 [THEN iffD1, rule_format])
  have "reserved_in core' m \<longleftrightarrow> reserved_in core m \<and> m \<noteq> n" if "m \<in> set (core_nodes core)" for m
    using unique_node [OF assms(1) that n] by (auto simp: assms(4) reserved_delete)
  then show ?thesis
    using assms(2) c by (auto intro!: multiset_eqI simp: waiting_def assms(3))
qed

lemma wf_delete:
  assumes "core_wf core" "\<not> stop_requested core" "n \<in> set (core_nodes core)"
    and "core' = core\<lparr>core_heap := h, reservations := AList.delete (node_no n) (reservations core)\<rparr>"
    and "h = core_heap core \<or> core_heap core = n # h"
  shows "core_wf core'"
proof -
  have "core_nodes core' = core_nodes core \<or> core_nodes core = n # core_nodes core'"
    using assms(4,5) by (auto simp: core_nodes_def)
  moreover have "distinct (map node_no (core_nodes core))" "sorted (map node_key (core_heap core))"
    using assms(1) by (simp_all add: core_wf_def)
  ultimately have sub: "set (core_nodes core') \<subseteq> set (core_nodes core)"
    "set (core_nodes core) - {n} \<subseteq> set (core_nodes core')"
    "distinct (map node_no (core_nodes core'))" "sorted (map node_key h)"
    using assms(5) by auto
  have r: "set (reservations core') = {x \<in> set (reservations core). fst x \<noteq> node_no n}"
    "distinct (map fst (reservations core'))"
    using assms(1) by (auto simp: assms(4) AList.delete_eq core_wf_def distinct_map_filter)
  have "\<exists>m \<in> set (core_nodes core'). node_id m = \<lparr>id_value = k, id_generation = res_generation r\<rparr>"
    if kr: "(k, r) \<in> set (reservations core')" for k r
  proof -
    have "k \<noteq> node_no n" "(k, r) \<in> set (reservations core)" using kr by (auto simp: r)
    moreover obtain m where "m \<in> set (core_nodes core)" "node_id m = \<lparr>id_value = k, id_generation = res_generation r\<rparr>"
      using assms(1) \<open>(k, r) \<in> set (reservations core)\<close> wf_stop(2) [OF assms(1,2)] unfolding core_wf_def by auto
    ultimately show ?thesis using sub(2) by (metis DiffI TimerId.select_convs(1) empty_iff insert_iff subsetD)
  qed
  moreover have "stop_ok core'" using wf_stop(2) [OF assms(1,2)] assms(2) by (simp add: stop_ok_def assms(4))
  ultimately show ?thesis
    using assms(1) sub r unfolding core_wf_def by (auto simp: assms(4))
qed

lemma reservation_node:
  assumes "core_wf core" "\<not> core_stopped core" "(k, r) \<in> set (reservations core)"
  obtains n where "n \<in># waiting core" "node_id n = \<lparr>id_value = k, id_generation = res_generation r\<rparr>"
proof -
  obtain n where "n \<in> set (core_nodes core)" "node_id n = \<lparr>id_value = k, id_generation = res_generation r\<rparr>"
      "\<not> res_cancelled r"
    using assms unfolding core_wf_def by blast
  moreover have "map_of (reservations core) k = Some r"
    using assms(1,3) by (auto simp: core_wf_def intro: map_of_is_SomeI)
  ultimately show ?thesis using that by (simp add: waiting_iff reserved_def)
qed

definition same_frame :: "TimerCore \<Rightarrow> TimerCore \<Rightarrow> bool" where
  "same_frame c d \<longleftrightarrow> core_config c = core_config d \<and> next_id_value c = next_id_value d \<and>
     stop_requested c = stop_requested d \<and> core_accepting c = core_accepting d"

lemma cancel_cases:
  assumes "core_wf core" "core_cancel i core = (core', status)"
  obtains (refused) "core' = core" "status \<noteq> TimerOk" "core_accepting core \<Longrightarrow> core_config core \<noteq> None \<Longrightarrow> \<forall>n \<in># waiting core. node_id n \<noteq> i"
  | (cancelled) n where "status = TimerOk" "n \<in># waiting core" "node_id n = i" "core_wf core'"
      "waiting core' = waiting core - {#n#}" "same_frame core' core"
proof (cases "core_config core \<noteq> None \<and> core_accepting core \<and>
    (\<exists>r. map_of (reservations core) (id_value i) = Some r \<and> res_generation r = id_generation i)")
  case True
  then obtain r where r: "map_of (reservations core) (id_value i) = Some r" "res_generation r = id_generation i"
    by blast
  have run: "\<not> stop_requested core" "\<not> core_stopped core"
    using True wf_stop [OF assms(1)] by auto
  obtain n where n: "n \<in># waiting core" "node_id n = i"
    using reservation_node [OF assms(1) run(2) map_of_SomeD [OF r(1)]] r(2) by (metis TimerId.surjective old.unit.exhaust)
  have core': "core' = core\<lparr>core_heap := core_heap core, reservations := AList.delete (node_no n) (reservations core)\<rparr>"
    and ok: "status = TimerOk"
    using assms(2) True r n(2) by (auto simp: core_cancel_def)
  have "core_wf core'"
    using wf_delete [OF assms(1) run(1) _ core'] n(1) by (simp add: waiting_iff)
  moreover have "waiting core' = waiting core - {#n#}"
    using waiting_delete [OF assms(1) n(1)] by (simp add: core' core_nodes_def)
  moreover have "same_frame core' core" by (simp add: core' same_frame_def)
  ultimately show ?thesis using cancelled ok n by blast
next
  case False
  have "core' = core \<and> status \<noteq> TimerOk"
    using assms(2) False by (auto simp: core_cancel_def split: option.splits if_splits)
  moreover have "\<forall>n \<in># waiting core. node_id n \<noteq> i" if "core_accepting core" "core_config core \<noteq> None"
    using False that by (auto simp: waiting_iff reserved_def split: option.splits)
  ultimately show ?thesis using refused by blast
qed

lemma stop_wf:
  assumes "core_wf core" "core_requestStop core = (core', status)"
  shows "core_wf core' \<and> waiting core' = waiting core \<and> next_id_value core' = next_id_value core \<and>
    core_config core' = core_config core \<and> (core_config core \<noteq> None \<longrightarrow> stop_requested core')"
proof -
  have "core_wf (core\<lparr>core_commands := core_commands core @ [Stop], core_accepting := False, stop_requested := True\<rparr>) \<and>
      waiting (core\<lparr>core_commands := core_commands core @ [Stop], core_accepting := False, stop_requested := True\<rparr>) = waiting core"
    if "\<not> stop_requested core"
    using assms(1) that wf_stop(2) [OF assms(1) that] by (simp add: core_wf_def core_nodes_def waiting_def stop_ok_def)
  then show ?thesis using assms by (auto simp: core_requestStop_def split: if_splits)
qed

text \<open>The timers in the heap that still count, in firing order.\<close>

definition ready :: "TimerCore \<Rightarrow> HeapNode list" where
  "ready core = filter (reserved_in core) (core_heap core)"

lemma cleanup_wf:
  assumes "core_wf core"
  obtains h rs where "cleanupStaleLocked core = core\<lparr>core_heap := h, reservations := rs\<rparr>"
    "core_wf (cleanupStaleLocked core)" "waiting (cleanupStaleLocked core) = waiting core"
    "\<forall>n. pq_top h = Some n \<longrightarrow> reserved rs (node_id n)" "length h \<le> length (core_heap core)"
    "ready (cleanupStaleLocked core) = ready core"
proof -
  have sorted: "sorted (map node_key (core_heap core))" using assms by (simp add: core_wf_def)
  obtain h rs gone where c: "cleanupStaleLocked core = core\<lparr>core_heap := h, reservations := rs\<rparr>"
    "core_heap core = gone @ h" "\<forall>n \<in> set gone. \<not> reserved_in core n"
    "reserved rs = reserved (reservations core)" "fst ` set rs \<subseteq> fst ` set (reservations core)"
    "distinct (map fst (reservations core)) \<longrightarrow> distinct (map fst rs)"
    "(\<forall>(k, r) \<in> set (reservations core). \<not> res_cancelled r) \<longrightarrow> rs = reservations core"
    "\<forall>n. pq_top h = Some n \<longrightarrow> reserved_in core n"
    by (rule cleanup_spec [OF sorted])
  let ?c = "core\<lparr>core_heap := h, reservations := rs\<rparr>"
  have nodes: "core_nodes core = gone @ core_nodes ?c" by (simp add: core_nodes_def c(2))
  have w: "waiting ?c = waiting core"
    using c(3) by (simp add: waiting_def nodes c(4) filter_empty_conv flip: mset_filter)
  have keep: "\<not> core_stopped core \<longrightarrow> (\<forall>(k, r) \<in> set rs. \<not> res_cancelled r \<and>
        (\<exists>n \<in> set (core_nodes ?c). node_id n = \<lparr>id_value = k, id_generation = res_generation r\<rparr>))"
  proof (intro impI ballI, clarify)
    fix k r assume a: "\<not> core_stopped core" "(k, r) \<in> set rs"
    then have rs: "rs = reservations core" using c(7) assms unfolding core_wf_def by blast
    obtain n where "n \<in># waiting core" "node_id n = \<lparr>id_value = k, id_generation = res_generation r\<rparr>"
      using reservation_node [OF assms a(1)] a(2) rs by blast
    moreover have "\<not> res_cancelled r" using a assms rs unfolding core_wf_def by blast
    ultimately show "\<not> res_cancelled r \<and> (\<exists>n \<in> set (core_nodes ?c). node_id n = \<lparr>id_value = k, id_generation = res_generation r\<rparr>)"
      using w waiting_iff by metis
  qed
  have "\<forall>k \<in> fst ` set rs. k < next_id_value core"
    using c(5) assms unfolding core_wf_def by (meson subsetD)
  moreover have "distinct (map node_no (core_nodes ?c))" "\<forall>n \<in> set (core_nodes ?c). node_no n < next_id_value core"
    using assms unfolding core_wf_def nodes by simp_all
  moreover have "stop_ok ?c" using assms w by (simp add: core_wf_def stop_ok_def)
  ultimately have wf: "core_wf ?c"
    using assms keep c(2,6) unfolding core_wf_def by (simp add: sorted_append)
  show ?thesis
    by (rule that [of rs h]) (use c wf w in \<open>auto simp: ready_def\<close>)
qed

lemma dispatch_cases:
  assumes "core_wf core" "dispatch_next now core = (core', d)"
  obtains (break) "d = DispatchBreak" "core_wf core'" "waiting core' = waiting core" "ready core' = ready core"
      "stop_requested core \<or> ready core = [] \<or> node_deadline (hd (ready core)) > now"
      "same_frame core' core"
  | (fire) n where "d = DispatchFire n" "core_wf core'" "\<not> stop_requested core" "n \<in># waiting core"
      "waiting core' = waiting core - {#n#}" "ready core = n # ready core'" "node_deadline n \<le> now"
      "same_frame core' core" "length (core_heap core') < length (core_heap core)"
proof (cases "stop_requested core")
  case True
  then have "core' = core" "d = DispatchBreak" using assms(2) by (simp_all add: dispatch_next_def)
  then show ?thesis using assms(1) True by (intro break) (simp_all add: same_frame_def)
next
  case run: False
  obtain h rs where c: "cleanupStaleLocked core = core\<lparr>core_heap := h, reservations := rs\<rparr>"
    "core_wf (cleanupStaleLocked core)" "waiting (cleanupStaleLocked core) = waiting core"
    "\<forall>n. pq_top h = Some n \<longrightarrow> reserved rs (node_id n)" "length h \<le> length (core_heap core)"
    "ready (cleanupStaleLocked core) = ready core"
    by (rule cleanup_wf [OF assms(1)])
  let ?c = "core\<lparr>core_heap := h, reservations := rs\<rparr>"
  show ?thesis
  proof (cases h)
    case Nil
    then have "core' = ?c" "d = DispatchBreak"
      using assms(2) run c(1) by (simp_all add: dispatch_next_def pq_top_def)
    moreover have "ready ?c = []" using Nil by (simp add: ready_def)
    ultimately show ?thesis using c by (intro break) (simp_all add: same_frame_def)
  next
    case (Cons n h')
    have n: "reserved rs (node_id n)" "pq_top h = Some n" using c(4) Cons by (auto simp: pq_top_def)
    show ?thesis
    proof (cases "node_deadline n > now")
      case True
      have "hd (ready ?c) = n" using n Cons by (simp add: ready_def)
      moreover have "core' = ?c" "d = DispatchBreak"
        using assms(2) run c(1) True n by (simp_all add: dispatch_next_def)
      ultimately show ?thesis using c True by (intro break) (simp_all add: same_frame_def)
    next
      case False
      have core': "core' = ?c\<lparr>core_heap := h', reservations := AList.delete (node_no n) rs\<rparr>" "d = DispatchFire n"
        using assms(2) run c(1) False n Cons by (auto simp: dispatch_next_def pq_pop_def)
      have wf: "core_wf ?c" using c by simp
      have nn: "n \<in> set (core_nodes ?c)" "n \<in># waiting ?c"
        using n Cons by (auto simp: core_nodes_def waiting_iff)
      have wf': "core_wf core'" using wf_delete [OF wf _ nn(1), of core' h'] run Cons core' by simp
      let ?d = "?c\<lparr>reservations := AList.delete (node_no n) rs\<rparr>"
      have "waiting ?d = waiting ?c - {#n#}"
        by (rule waiting_delete [OF wf nn(2)]) (simp_all add: core_nodes_def)
      moreover have "waiting ?d = waiting core'"
        using Cons by (simp add: waiting_def core' core_nodes_def reserved_delete)
      moreover have "ready ?c = n # ready core'"
      proof -
        have "node_no m \<noteq> node_no n" if "m \<in> set h'" for m
          using wf that Cons by (auto simp: core_wf_def core_nodes_def rev_image_eqI)
        then show ?thesis using n Cons
          by (auto simp: ready_def core' reserved_delete intro: filter_cong)
      qed
      ultimately show ?thesis
        using core' wf' run c False nn Cons by (intro fire [of n]) (simp_all add: same_frame_def)
    qed
  qed
qed

lemma process_frame:
  "fold process_command cs (core\<lparr>core_commands := x\<rparr>) = (fold process_command cs core)\<lparr>core_commands := x\<rparr>"
proof (induction cs arbitrary: core)
  case (Cons c cs)
  have "process_command c (core\<lparr>core_commands := x\<rparr>) = (process_command c core)\<lparr>core_commands := x\<rparr>"
    by (cases c) simp_all
  then show ?case using Cons by simp
qed simp

lemma process_schedule:
  assumes "core_wf core" "core_commands core = Schedule n i # cs"
    and "core' = (process_command (Schedule n i) core)\<lparr>core_commands := cs\<rparr>"
  shows "core_wf core' \<and> waiting core' = waiting core"
proof -
  have i: "i = node_id n" using wf_command [OF assms(1)] assms(2) by (metis list.set_intros(1))
  have ns: "\<not> core_stopped core" using wf_stop(1) [OF assms(1)] assms(2) by auto
  have r: "reservations core' = reservations core" by (simp add: assms(3))
  have nodes: "mset (core_nodes core) = mset (core_nodes core') + (if reserved_in core n then {#} else {#n#})"
    by (simp add: core_nodes_def assms(2,3) i pq_push_def)
  then have w: "waiting core' = waiting core" by (simp add: waiting_def r)
  have mem: "set (core_nodes core) = set (core_nodes core') \<union> (if reserved_in core n then {} else {n})"
    using arg_cong [OF nodes, of set_mset] by simp
  have "mset (map node_no (core_nodes core)) =
      mset ((if reserved_in core n then [] else [node_no n]) @ map node_no (core_nodes core'))"
    using nodes by simp
  from mset_eq_imp_distinct_iff [OF this] have "distinct (map node_no (core_nodes core'))"
    using assms(1) by (simp add: core_wf_def split: if_splits)
  moreover have "\<exists>m \<in> set (core_nodes core'). node_id m = \<lparr>id_value = k, id_generation = res_generation r\<rparr>"
    if "(k, r) \<in> set (reservations core)" for k r
    using reservation_node [OF assms(1) ns that] w by (metis waiting_iff)
  moreover have "sorted (map node_key (core_heap core'))"
    using assms(1) by (simp add: assms(3) pq_push_def sorted_insort_key core_wf_def)
  moreover have "stop_ok core'"
    using assms(1,2) w ns by (auto simp: core_wf_def stop_ok_def assms(3) Cons_eq_append_conv split: if_splits)
  moreover have "\<forall>m \<in> set (core_nodes core'). node_no m < next_id_value core"
    using assms(1) mem by (simp add: core_wf_def)
  ultimately show ?thesis
    using assms(1,2) w unfolding core_wf_def by (auto simp: assms(3))
qed

lemma process_stop:
  assumes "core_wf core" "core_commands core = Stop # cs"
    and "core' = (process_command Stop core)\<lparr>core_commands := []\<rparr>"
  shows "cs = [] \<and> core_wf core' \<and> waiting core' = {#} \<and> stop_requested core"
proof -
  have st: "stop_requested core" "\<not> core_stopped core"
    using wf_stop(1,2) [OF assms(1)] assms(2) by auto
  then have cs: "cs = []"
    using wf_stop(4) [OF assms(1)] assms(2) by (auto simp: Cons_eq_append_conv)
  have "map_of (reservations core') k = map_option (\<lambda>r. r\<lparr>res_cancelled := True\<rparr>) (map_of (reservations core) k)" for k
    by (simp add: assms(3) map_of_map)
  then have r: "\<not> reserved (reservations core') i" for i
    by (auto simp: reserved_def split: option.splits)
  then have w: "waiting core' = {#}" by (simp add: waiting_def)
  have nodes: "core_nodes core' = core_nodes core" by (simp add: core_nodes_def assms(2,3) cs)
  have keys: "map fst (reservations core') = map fst (reservations core)"
    by (simp add: assms(3) comp_def case_prod_beta)
  then have ks: "fst ` set (reservations core') = fst ` set (reservations core)" by (metis set_map)
  have "stop_ok core'"
    using assms(1) st w by (simp add: core_wf_def stop_ok_def assms(3))
  moreover have "core_heap core' = core_heap core" "next_id_value core' = next_id_value core" "core_stopped core'"
      "core_commands core' = []" by (simp_all add: assms(3))
  ultimately have "core_wf core'"
    using assms(1) unfolding core_wf_def nodes keys ks by simp
  then show ?thesis using cs w st by simp
qed

lemma process_all:
  assumes "core_wf core"
    and "core' = (fold process_command (core_commands core) core)\<lparr>core_commands := []\<rparr>"
  shows "core_wf core' \<and> waiting core' = (if stop_requested core then {#} else waiting core) \<and>
    core_stopped core' = stop_requested core \<and> same_frame core' core"
  using assms
proof (induction "core_commands core" arbitrary: core)
  case Nil
  then have eq: "core' = core" by simp
  have "core_commands core = []" using Nil(1) by simp
  then show ?case unfolding eq using Nil(2) wf_stop(1,2,4) [OF Nil(2)] by (auto simp: same_frame_def)
next
  case (Cons c cs)
  show ?case
  proof (cases c)
    case (Schedule n i)
    define c1 where "c1 = (process_command c core)\<lparr>core_commands := cs\<rparr>"
    have "core_wf c1 \<and> waiting c1 = waiting core"
      using process_schedule [OF Cons.prems(1), of n i cs c1] Cons.hyps(2) Schedule by (simp add: c1_def)
    moreover have "core' = (fold process_command (core_commands c1) c1)\<lparr>core_commands := []\<rparr>"
      by (simp add: Cons.prems(2) Cons.hyps(2) [symmetric] c1_def process_frame)
    moreover have "same_frame c1 core" by (simp add: c1_def Schedule same_frame_def)
    ultimately show ?thesis
      using Cons.hyps(1) [of c1] by (simp add: c1_def same_frame_def)
  next
    case Stop
    note s = process_stop [OF Cons.prems(1) Cons.hyps(2) [unfolded Stop, symmetric] refl]
    then have "core' = (process_command Stop core)\<lparr>core_commands := []\<rparr>"
      unfolding Cons.prems(2) Cons.hyps(2) [symmetric] Stop by simp
    then show ?thesis using s by (simp add: same_frame_def)
  qed
qed

lemma process_wf:
  assumes "core_wf core" "core_config core \<noteq> None" "processCommands core = (core', res)"
  shows "core_wf core' \<and> waiting core' = (if stop_requested core then {#} else waiting core) \<and>
    core_stopped core' = stop_requested core \<and> same_frame core' core \<and> core_commands core' = [] \<and>
    cycle_status res = TimerOk \<and> commands_processed res = length (core_commands core)"
proof -
  define c where "c = (fold process_command (core_commands core) core)\<lparr>core_commands := []\<rparr>"
  note p = process_all [OF assms(1) c_def]
  obtain h rs where cl: "cleanupStaleLocked c = c\<lparr>core_heap := h, reservations := rs\<rparr>"
    "core_wf (cleanupStaleLocked c)" "waiting (cleanupStaleLocked c) = waiting c"
    by (rule cleanup_wf [OF conjunct1 [OF p]])
  have res: "core' = cleanupStaleLocked c" "cycle_status res = TimerOk"
      "commands_processed res = length (core_commands core)"
    using assms(2,3) by (auto simp: processCommands_def Let_def c_def)
  have "core_stopped (cleanupStaleLocked c) = core_stopped c \<and> same_frame (cleanupStaleLocked c) c \<and>
      core_commands (cleanupStaleLocked c) = []"
    unfolding cl(1) by (simp add: same_frame_def c_def)
  then show ?thesis unfolding res(1) using p cl(2,3) res(2,3) by (simp add: same_frame_def)
qed

lemma reservations_size:
  assumes "core_wf core" "\<not> core_stopped core"
  shows "length (reservations core) = size (waiting core)"
proof -
  have d: "distinct (map node_no (filter (reserved_in core) (core_nodes core)))"
    using assms(1) by (auto simp: core_wf_def intro: distinct_map_filter)
  have "fst ` set (reservations core) = node_no ` set_mset (waiting core)"
  proof
    show "fst ` set (reservations core) \<subseteq> node_no ` set_mset (waiting core)"
      by (auto elim!: reservation_node [OF assms] intro: rev_image_eqI)
    show "node_no ` set_mset (waiting core) \<subseteq> fst ` set (reservations core)"
      by (auto simp: waiting_iff reserved_def split: option.splits) (metis map_of_eq_None_iff option.distinct(1))
  qed
  also have "\<dots> = set (map node_no (filter (reserved_in core) (core_nodes core)))" by (auto simp: waiting_def)
  finally have "set (map fst (reservations core)) = set (map node_no (filter (reserved_in core) (core_nodes core)))"
    by simp
  moreover have "distinct (map fst (reservations core))" using assms(1) by (simp add: core_wf_def)
  ultimately have "length (map fst (reservations core)) = length (map node_no (filter (reserved_in core) (core_nodes core)))"
    using d distinct_card by metis
  then show ?thesis by (simp add: waiting_def flip: mset_filter)
qed

end
