(* ===== verification/Timer_Run.thy ===== *)
theory Timer_Run
  imports Timer_Core
begin

text \<open>
  Runs of the timer core: any interleaving of its critical sections, with a log of the calls that
  had an effect, and the whole cycle of the timer thread (\<open>runReady\<close>).  The properties
  say that a timer ends once, that due timers fire in order, and that the core never leaks
  capacity.
\<close>

section \<open>Histories\<close>

text \<open>Any interleaving of the critical sections of the core, with the calls that had an effect.\<close>

datatype timer_event = TimerSet HeapNode | TimerCancelled TimerId | StopAsked | TimerFired steady_time HeapNode

inductive timer_run :: "TimerCore \<Rightarrow> timer_event list \<Rightarrow> TimerCore \<Rightarrow> bool" where
  timer_start: "timer_run c [] c"
| timer_schedule: "timer_run c es d \<Longrightarrow> core_scheduleAt alive deadline sink event d = (d', res) \<Longrightarrow>
     timer_run c (es @ (if schedule_status res = TimerOk
       then [TimerSet \<lparr>node_deadline = deadline, node_sequence = next_sequence d, node_id = schedule_id res,
                       node_sink = sink, node_event = event\<rparr>] else [])) d'"
| timer_cancel: "timer_run c es d \<Longrightarrow> core_cancel i d = (d', status) \<Longrightarrow>
     timer_run c (es @ (if status = TimerOk then [TimerCancelled i] else [])) d'"
| timer_stop: "timer_run c es d \<Longrightarrow> core_requestStop d = (d', status) \<Longrightarrow> timer_run c (es @ [StopAsked]) d'"
| timer_process: "timer_run c es d \<Longrightarrow> processCommands d = (d', res) \<Longrightarrow> timer_run c es d'"
| timer_dispatch: "timer_run c es d \<Longrightarrow> dispatch_next now d = (d', r) \<Longrightarrow>
     timer_run c (es @ (case r of DispatchFire n \<Rightarrow> [TimerFired now n] | _ \<Rightarrow> [])) d'"

fun timers_set :: "timer_event list \<Rightarrow> HeapNode list" where
  "timers_set [] = []"
| "timers_set (TimerSet n # es) = n # timers_set es"
| "timers_set (_ # es) = timers_set es"

fun timers_ended :: "timer_event list \<Rightarrow> TimerId list" where
  "timers_ended [] = []"
| "timers_ended (TimerCancelled i # es) = i # timers_ended es"
| "timers_ended (TimerFired now n # es) = node_id n # timers_ended es"
| "timers_ended (_ # es) = timers_ended es"

lemma timers_append [simp]:
  "timers_set (es @ fs) = timers_set es @ timers_set fs"
  "timers_ended (es @ fs) = timers_ended es @ timers_ended fs"
proof -
  show "timers_set (es @ fs) = timers_set es @ timers_set fs" by (induction es rule: timers_set.induct) simp_all
  show "timers_ended (es @ fs) = timers_ended es @ timers_ended fs" by (induction es rule: timers_ended.induct) simp_all
qed

definition log_ok :: "timer_event list \<Rightarrow> TimerCore \<Rightarrow> bool" where
  "log_ok es core \<longleftrightarrow>
     distinct (map node_no (timers_set es)) \<and>
     (\<forall>n \<in> set (timers_set es). node_no n < next_id_value core) \<and>
     distinct (timers_ended es) \<and>
     (\<forall>now n. TimerFired now n \<in> set es \<longrightarrow> node_deadline n \<le> now \<and> n \<in> set (timers_set es)) \<and>
     set (timers_ended es) \<subseteq> node_id ` set (timers_set es) \<and>
     set_mset (waiting core) \<subseteq> set (timers_set es) \<and>
     node_id ` set_mset (waiting core) \<inter> set (timers_ended es) = {} \<and>
     (\<not> stop_requested core \<longrightarrow>
        node_id ` set (timers_set es) \<subseteq> set (timers_ended es) \<union> node_id ` set_mset (waiting core)) \<and>
     (StopAsked \<in> set es \<longleftrightarrow> stop_requested core)"

lemma waiting_minus:
  assumes "core_wf core" "n \<in># waiting core"
  shows "set_mset (waiting core - {#n#}) = set_mset (waiting core) - {n}"
    "m \<in># waiting core \<Longrightarrow> node_id m = node_id n \<Longrightarrow> m = n"
proof -
  have "distinct (filter (reserved_in core) (core_nodes core))"
    using assms(1) by (auto simp: core_wf_def distinct_map)
  then have "count (waiting core) n \<le> 1"
    unfolding waiting_def mset_filter [symmetric] by (metis distinct_count_atmost_1 le_refl zero_le)
  then have "x \<in># waiting core - {#n#} \<longleftrightarrow> x \<in># waiting core \<and> x \<noteq> n" for x
    using assms(2) by (cases "x = n") (simp_all add: in_diff_count)
  then show "set_mset (waiting core - {#n#}) = set_mset (waiting core) - {n}" by blast
  show "m \<in># waiting core \<Longrightarrow> node_id m = node_id n \<Longrightarrow> m = n"
    using unique_node [OF assms(1), of m n] assms(2) by (simp add: waiting_iff)
qed

lemma log_set:
  assumes "log_ok es core" "\<not> stop_requested core" "node_no n = next_id_value core" "next_id_value core \<noteq> - 1"
    and "next_id_value core' = next_id_value core + 1" "waiting core' = add_mset n (waiting core)" "\<not> stop_requested core'"
  shows "log_ok (es @ [TimerSet n]) core'"
proof -
  have n: "node_no m \<noteq> node_no n" if "m \<in> set (timers_set es)" for m
    using assms(1,3) that by (auto simp: log_ok_def)
  have "\<forall>m \<in> insert n (set (timers_set es)). node_no m < next_id_value core'"
    using assms(1,3) less_next [OF assms(4)] by (auto simp: log_ok_def assms(5))
  moreover have "node_no n \<notin> node_no ` set (timers_set es)" using n by (metis imageE)
  then have "distinct (map node_no (timers_set es @ [n]))" using assms(1) by (simp add: log_ok_def)
  moreover have "node_id n \<notin> set (timers_ended es)" using assms(1) n unfolding log_ok_def by (metis imageE subsetD)
  ultimately show ?thesis
    using assms(1,2,7) unfolding log_ok_def assms(6) by (auto simp del: distinct_map)
qed

lemma log_end:
  assumes "log_ok es core" "core_wf core" "n \<in># waiting core" "waiting core' = waiting core - {#n#}"
    and "same_frame core' core" "e = TimerCancelled (node_id n) \<or> (\<exists>now. e = TimerFired now n \<and> node_deadline n \<le> now)"
  shows "log_ok (es @ [e]) core'"
proof -
  note w = waiting_minus [OF assms(2,3)]
  have n: "n \<in> set (timers_set es)" "node_id n \<notin> set (timers_ended es)"
    using assms(1,3) by (auto simp: log_ok_def)
  have "node_id ` (set_mset (waiting core) - {n}) = node_id ` set_mset (waiting core) - {node_id n}"
    using w(2) assms(3) by auto
  moreover have "timers_set [e] = []" "timers_ended [e] = [node_id n]" "e \<noteq> StopAsked"
    using assms(6) by auto
  moreover have "\<forall>now m. TimerFired now m \<in> set (es @ [e]) \<longrightarrow> node_deadline m \<le> now \<and> m \<in> set (timers_set es)"
    using assms(1,6) n(1) by (auto simp: log_ok_def)
  ultimately show ?thesis
    using assms(1,5) n unfolding log_ok_def same_frame_def assms(4) w(1) timers_append
    by (elim conjE, intro conjI) (simp_all, blast+)
qed

lemma log_same:
  assumes "log_ok es core" "same_frame core' core"
    and "waiting core' = waiting core \<or> stop_requested core \<and> waiting core' = {#}"
  shows "log_ok es core'"
  using assms(3) by (elim disjE) (use assms(1,2) in \<open>simp_all add: log_ok_def same_frame_def\<close>)

definition run_ok :: "TimerCoreConfig \<Rightarrow> timer_event list \<Rightarrow> TimerCore \<Rightarrow> bool" where
  "run_ok cfg es core \<longleftrightarrow> core_wf core \<and> core_config core = Some cfg \<and> log_ok es core \<and>
     size (waiting core) \<le> timer_capacity cfg"

lemma run_start:
  assumes "core_init cfg core_new = (core, TimerOk)"
  shows "run_ok cfg [] core"
proof -
  have "core = core_new\<lparr>core_config := Some cfg, core_accepting := True\<rparr>"
    using assms by (auto simp: core_init_def core_new_def split: if_splits)
  then show ?thesis
    by (simp add: run_ok_def core_wf_def stop_ok_def log_ok_def core_nodes_def waiting_def core_new_def)
qed

lemma run_schedule:
  assumes "run_ok cfg es d" "core_scheduleAt alive deadline sink event d = (d', res)"
  shows "run_ok cfg (es @ (if schedule_status res = TimerOk
       then [TimerSet \<lparr>node_deadline = deadline, node_sequence = next_sequence d, node_id = schedule_id res,
                       node_sink = sink, node_event = event\<rparr>] else [])) d'"
proof -
  have wf: "core_wf d" and cfg: "core_config d = Some cfg" using assms(1) by (auto simp: run_ok_def)
  from wf assms(2) show ?thesis
  proof (cases rule: schedule_cases)
    case refused
    then show ?thesis using assms(1) by simp
  next
    case (scheduled n)
    have st: "\<not> stop_requested d" using wf_stop(3) [OF wf scheduled(4)] .
    have room: "length (reservations d) < timer_capacity cfg"
      using assms(2) scheduled(2) cfg by (auto simp: core_scheduleAt_def Let_def split: if_splits)
    note s = schedule_wf [OF wf scheduled(1,3-6)]
    have "log_ok (es @ [TimerSet n]) d'"
      using log_set [of es d n d'] assms(1) st s scheduled by (simp add: run_ok_def)
    moreover have "size (waiting d') \<le> timer_capacity cfg"
      using room s reservations_size [OF wf] wf_stop(2) [OF wf st] by simp
    ultimately show ?thesis using s scheduled(1,2,6) cfg by (simp add: run_ok_def)
  qed
qed

lemma run_cancel:
  assumes "run_ok cfg es d" "core_cancel i d = (d', status)"
  shows "run_ok cfg (es @ (if status = TimerOk then [TimerCancelled i] else [])) d'"
proof -
  have wf: "core_wf d" using assms(1) by (auto simp: run_ok_def)
  from wf assms(2) show ?thesis
  proof (cases rule: cancel_cases)
    case refused
    then show ?thesis using assms(1) by simp
  next
    case (cancelled n)
    then have "log_ok (es @ [TimerCancelled i]) d'"
      using log_end [of es d n d' "TimerCancelled i"] assms(1) by (simp add: run_ok_def)
    then show ?thesis
      using cancelled assms(1) size_mset_mono [OF diff_subset_eq_self, of "waiting d" "{#n#}"]
      by (simp add: run_ok_def same_frame_def)
  qed
qed

lemma run_stop:
  assumes "run_ok cfg es d" "core_requestStop d = (d', status)"
  shows "run_ok cfg (es @ [StopAsked]) d'"
  using assms stop_wf [of d d' status] by (simp add: run_ok_def log_ok_def)

lemma run_process:
  assumes "run_ok cfg es d" "processCommands d = (d', res)"
  shows "run_ok cfg es d'"
  using assms process_wf [of d d' res] log_same [of es d d'] by (auto simp: run_ok_def same_frame_def split: if_splits)

lemma run_dispatch:
  assumes "run_ok cfg es d" "dispatch_next now d = (d', r)"
  shows "run_ok cfg (es @ (case r of DispatchFire n \<Rightarrow> [TimerFired now n] | _ \<Rightarrow> [])) d'"
proof -
  have wf: "core_wf d" using assms(1) by (auto simp: run_ok_def)
  from wf assms(2) show ?thesis
  proof (cases rule: dispatch_cases)
    case break
    then show ?thesis using assms(1) log_same [of es d d'] by (simp add: run_ok_def same_frame_def)
  next
    case (fire n)
    then have "log_ok (es @ [TimerFired now n]) d'"
      using log_end [of es d n d' "TimerFired now n"] assms(1) by (simp add: run_ok_def)
    then show ?thesis
      using fire assms(1) size_mset_mono [OF diff_subset_eq_self, of "waiting d" "{#n#}"]
      by (simp add: run_ok_def same_frame_def)
  qed
qed

lemma timer_run_ok:
  assumes "timer_run c es d" "core_init cfg core_new = (c, TimerOk)"
  shows "run_ok cfg es d"
  using assms
proof (induction rule: timer_run.induct)
  case timer_start
  then show ?case by (rule run_start)
qed (blast intro: run_schedule run_cancel run_stop run_process run_dispatch)+

fun is_fired :: "timer_event \<Rightarrow> bool" where
  "is_fired (TimerFired now n) = True"
| "is_fired _ = False"

definition after_stop :: "timer_event list \<Rightarrow> timer_event list" where
  "after_stop es = dropWhile (\<lambda>e. e \<noteq> StopAsked) es"

definition quiet :: "timer_event list \<Rightarrow> bool" where
  "quiet es \<longleftrightarrow> (\<forall>e \<in> set (after_stop es). \<not> is_fired e)"

lemma quiet_snoc:
  assumes "quiet es" "is_fired e \<longrightarrow> StopAsked \<notin> set es"
  shows "quiet (es @ [e])"
proof (cases "StopAsked \<in> set es")
  case True
  then have "after_stop (es @ [e]) = after_stop es @ [e]" by (auto simp: after_stop_def)
  then show ?thesis using assms True by (auto simp: quiet_def)
next
  case False
  then have "after_stop (es @ [e]) = after_stop [e]"
    using dropWhile_append2 [of es "\<lambda>e. e \<noteq> StopAsked" "[e]"] unfolding after_stop_def by metis
  then show ?thesis by (cases e) (simp_all add: quiet_def after_stop_def)
qed

lemma timer_run_quiet:
  assumes "timer_run c es d" "core_init cfg core_new = (c, TimerOk)"
  shows "quiet es"
  using assms
proof (induction rule: timer_run.induct)
  case (timer_dispatch c es d now d' r)
  have ok: "run_ok cfg es d" using timer_run_ok timer_dispatch.hyps(1) timer_dispatch.prems .
  have "StopAsked \<notin> set es" if "r = DispatchFire n" for n
    using that timer_dispatch.hyps(2) ok
    by (auto simp: dispatch_next_def run_ok_def log_ok_def split: if_splits)
  then show ?case
    using timer_dispatch.IH [OF timer_dispatch.prems]
    by (cases r) (simp_all add: quiet_snoc)
next
  case timer_start
  then show ?case by (simp add: quiet_def after_stop_def)
qed (simp_all add: quiet_snoc)

section \<open>A whole cycle\<close>

text \<open>What may happen while an event is posted: sinks schedule further timers.\<close>

definition only_schedules :: "(HeapNode \<Rightarrow> TimerCore \<Rightarrow> TimerCore) \<Rightarrow> bool" where
  "only_schedules post \<longleftrightarrow> (\<forall>n c. \<exists>calls. post n c =
     fold (\<lambda>(alive, deadline, sink, event) c. fst (core_scheduleAt alive deadline sink event c)) calls c)"

definition grows :: "TimerCore \<Rightarrow> TimerCore \<Rightarrow> bool" where
  "grows d c \<longleftrightarrow> core_wf d \<and> ready d = ready c \<and> length (core_heap d) = length (core_heap c) \<and>
     waiting c \<subseteq># waiting d \<and> stop_requested d = stop_requested c \<and> core_stopped d = core_stopped c"

lemma schedule_grows:
  assumes "core_wf c"
  shows "grows (fst (core_scheduleAt alive deadline sink event c)) c"
proof -
  obtain d res where d: "core_scheduleAt alive deadline sink event c = (d, res)" by fastforce
  from assms d show ?thesis
  proof (cases rule: schedule_cases)
    case refused
    then show ?thesis using assms d by (simp add: grows_def)
  next
    case (scheduled n)
    note s = schedule_wf [OF assms scheduled(1,3-6)]
    have "node_no m \<noteq> next_id_value c" if "m \<in> set (core_heap c)" for m
      using that fresh_unreserved(2) [OF assms] by (metis Un_iff core_nodes_def imageI set_append)
    then have "ready d = ready c"
      unfolding ready_def scheduled(6) using scheduled(3) by (auto simp: reserved_def intro: filter_cong)
    then show ?thesis using s scheduled(6) d by (simp add: grows_def)
  qed
qed

lemma grows_trans: "grows d c \<Longrightarrow> grows e d \<Longrightarrow> grows e c"
  by (auto simp: grows_def intro: subset_mset.trans)

lemma post_grows:
  assumes "only_schedules post" "core_wf c"
  shows "grows (post n c) c"
proof -
  obtain calls where p: "post n c =
      fold (\<lambda>(alive, deadline, sink, event) c. fst (core_scheduleAt alive deadline sink event c)) calls c"
    using assms(1) unfolding only_schedules_def by blast
  have "grows (fold (\<lambda>(alive, deadline, sink, event) c. fst (core_scheduleAt alive deadline sink event c)) calls d) d"
    if "core_wf d" for d
    using that
  proof (induction calls arbitrary: d)
    case (Cons call calls)
    obtain alive deadline sink event where call: "call = (alive, deadline, sink, event)" by (cases call) auto
    note g = schedule_grows [OF Cons.prems, of alive deadline sink event]
    have "core_wf (fst (core_scheduleAt alive deadline sink event d))" using g by (simp add: grows_def)
    from grows_trans [OF g Cons.IH [OF this]] show ?case by (simp add: call)
  qed (simp add: grows_def)
  then show ?thesis unfolding p using assms(2) .
qed

lemma ready_loop_spec:
  assumes "only_schedules post" "core_wf core" "\<not> stop_requested core" "length (core_heap core) < fuel"
  shows "\<exists>core'. ready_loop post now fuel core = (core', takeWhile (\<lambda>n. node_deadline n \<le> now) (ready core)) \<and>
    core_wf core' \<and> ready core' = dropWhile (\<lambda>n. node_deadline n \<le> now) (ready core) \<and>
    waiting core - mset (takeWhile (\<lambda>n. node_deadline n \<le> now) (ready core)) \<subseteq># waiting core' \<and>
    core_stopped core' = core_stopped core"
  using assms(2-)
proof (induction fuel arbitrary: core)
  case (Suc fuel)
  obtain c r where d: "dispatch_next now core = (c, r)" by fastforce
  have cs: "core_stopped c = core_stopped core"
    using d by (auto simp: dispatch_next_def cleanupStaleLocked_def Let_def split: if_splits option.splits prod.splits)
  from Suc.prems(1) d show ?case
  proof (cases rule: dispatch_cases)
    case break
    then have "takeWhile (\<lambda>n. node_deadline n \<le> now) (ready core) = []"
      "dropWhile (\<lambda>n. node_deadline n \<le> now) (ready core) = ready core"
      using Suc.prems(2) by (cases "ready core"; auto)+
    then show ?thesis using break d cs by simp
  next
    case (fire n)
    define c' where "c' = post n c"
    have g: "grows c' c" unfolding c'_def by (rule post_grows [OF assms(1) fire(2)])
    have "core_wf c'" "\<not> stop_requested c'" "length (core_heap c') < fuel" "core_stopped c' = core_stopped c"
      using g fire Suc.prems by (auto simp: grows_def same_frame_def)
    then obtain e where e: "ready_loop post now fuel c' = (e, takeWhile (\<lambda>n. node_deadline n \<le> now) (ready c'))"
      "core_wf e" "ready e = dropWhile (\<lambda>n. node_deadline n \<le> now) (ready c')"
      "waiting c' - mset (takeWhile (\<lambda>n. node_deadline n \<le> now) (ready c')) \<subseteq># waiting e"
      "core_stopped e = core_stopped core"
      using Suc.IH [of c'] cs by metis
    have r: "ready c' = ready c" using g by (simp add: grows_def)
    have "waiting c - mset (takeWhile (\<lambda>n. node_deadline n \<le> now) (ready c)) \<subseteq># waiting e"
      using e(4) g unfolding r grows_def subseteq_mset_def count_diff by (meson diff_le_mono le_trans)
    then show ?thesis
      using e fire d unfolding r by (simp add: c'_def [symmetric] fire(5,6) diff_diff_add)
  qed
qed simp

section \<open>Properties\<close>

text \<open>
  C3.  A timer ends once.  Under any interleaving of scheduling, cancelling, stopping and the timer
  thread, identifiers are never reused; each timer is fired or cancelled at most once and never
  both; it fires only with the event, sink and deadline it was set with, and not before the
  deadline; until a stop every timer that was set has fired, was cancelled or is still pending; and
  nothing fires after a stop was requested.
\<close>

theorem timers_end_once:
  assumes "core_init cfg core_new = (c, TimerOk)" "timer_run c es core"
  shows "distinct (map node_id (timers_set es)) \<and> distinct (timers_ended es) \<and>
    (\<forall>now n. TimerFired now n \<in> set es \<longrightarrow> node_deadline n \<le> now \<and> TimerSet n \<in> set es) \<and>
    (StopAsked \<notin> set es \<longrightarrow>
       node_id ` set (timers_set es) = set (timers_ended es) \<union> node_id ` set_mset (waiting core) \<and>
       set (timers_ended es) \<inter> node_id ` set_mset (waiting core) = {}) \<and> quiet es"
proof -
  have ok: "run_ok cfg es core" using timer_run_ok assms by blast
  have set: "TimerSet n \<in> set es" if "n \<in> set (timers_set es)" for n
    using that by (induction es rule: timers_set.induct) auto
  have log: "log_ok es core" using ok by (simp add: run_ok_def)
  have "distinct (map id_value (map node_id (timers_set es)))" using log by (simp add: log_ok_def comp_def)
  then have "distinct (map node_id (timers_set es))" unfolding distinct_map by simp
  moreover have "distinct (timers_ended es)" "\<forall>now n. TimerFired now n \<in> set es \<longrightarrow> node_deadline n \<le> now \<and> TimerSet n \<in> set es"
    using log set by (simp_all add: log_ok_def)
  moreover have "node_id ` set (timers_set es) = set (timers_ended es) \<union> node_id ` set_mset (waiting core) \<and>
       set (timers_ended es) \<inter> node_id ` set_mset (waiting core) = {}" if "StopAsked \<notin> set es"
  proof -
    have "set (timers_ended es) \<subseteq> node_id ` set (timers_set es)" "set_mset (waiting core) \<subseteq> set (timers_set es)"
      "node_id ` set_mset (waiting core) \<inter> set (timers_ended es) = {}"
      "node_id ` set (timers_set es) \<subseteq> set (timers_ended es) \<union> node_id ` set_mset (waiting core)"
      using log that by (simp_all add: log_ok_def)
    then show ?thesis by blast
  qed
  ultimately show ?thesis using timer_run_quiet [OF assms(2,1)] by simp
qed

definition example_core :: "TimerCore \<times> TimerStatus" where
  "example_core = core_init \<lparr>command_capacity = 2, timer_capacity = 2\<rparr> core_new"

definition example_event :: TimerEvent where
  "example_event = \<lparr>event_kind = CleanupTick, target_id = 1, target_loop_id = 0, target_fd = -1,
     target_generation = 0, target_sequence = 1\<rparr>"

lemma example_core_ok: "example_core = (fst example_core, TimerOk)"
  by (simp add: example_core_def core_init_def core_validConfig_def core_new_def)

definition example_scheduled :: TimerCore where
  "example_scheduled = fst (core_scheduleAt (\<lambda>_. True) 10 0 example_event (fst example_core))"

lemma example_schedule:
  "core_scheduleAt (\<lambda>_. True) 10 0 example_event (fst example_core) =
     (example_scheduled, \<lparr>schedule_status = TimerOk, schedule_id = \<lparr>id_value = 1, id_generation = 1\<rparr>\<rparr>)"
  by (simp add: example_scheduled_def example_core_def core_init_def core_validConfig_def core_new_def
      core_scheduleAt_def example_event_def Let_def)

lemma example_timer_run: "\<exists>n. timer_run (fst example_core) [TimerSet n] example_scheduled \<and> node_deadline n = 10"
  using timer_schedule [OF timer_start example_schedule] by force

theorem timers_end_once_witness:
  "\<exists>n core. core_init \<lparr>command_capacity = 2, timer_capacity = 2\<rparr> core_new = (fst example_core, TimerOk) \<and>
     timer_run (fst example_core) [TimerSet n] core \<and> node_id n \<in> node_id ` set_mset (waiting core)"
proof -
  obtain n where n: "timer_run (fst example_core) [TimerSet n] example_scheduled" using example_timer_run by blast
  have "core_init \<lparr>command_capacity = 2, timer_capacity = 2\<rparr> core_new = (fst example_core, TimerOk)"
    using example_core_ok by (simp add: example_core_def)
  then show ?thesis using n timers_end_once [OF _ n] by fastforce
qed

lemma sorted_due:
  "sorted (map node_key xs) \<Longrightarrow> takeWhile (\<lambda>n. node_deadline n \<le> now) xs = filter (\<lambda>n. node_deadline n \<le> now) xs \<and>
     dropWhile (\<lambda>n. node_deadline n \<le> now) xs = filter (\<lambda>n. \<not> node_deadline n \<le> now) xs"
proof (induction xs)
  case (Cons x xs)
  have "node_deadline x \<le> node_deadline y" if "y \<in> set xs" for y
    using Cons.prems that by (auto simp: node_key_def less_eq_prod_def)
  then have "filter (\<lambda>n. node_deadline n \<le> now) xs = []" "filter (\<lambda>n. \<not> node_deadline n \<le> now) xs = xs"
    if "\<not> node_deadline x \<le> now"
    using that by (force simp: filter_empty_conv filter_id_conv)+
  then show ?case using Cons by auto
qed simp

lemma first_deadline:
  assumes "sorted (map node_key xs)" "xs \<noteq> []"
  shows "node_deadline (hd xs) = Min (node_deadline ` set xs)"
proof (rule Min_eqI [symmetric])
  show "node_deadline (hd xs) \<le> y" if "y \<in> node_deadline ` set xs" for y
    using assms that by (cases xs) (auto simp: node_key_def less_eq_prod_def)
qed (use assms(2) in auto)

lemma next_deadline_ready:
  assumes "core_wf core"
  shows "nextDeadlineLocked (cleanupStaleLocked core) =
      (case ready core of [] \<Rightarrow> None | n # _ \<Rightarrow> Some (node_deadline n))"
    "waiting (cleanupStaleLocked core) = waiting core" "core_stopped (cleanupStaleLocked core) = core_stopped core"
proof -
  obtain h rs where c: "cleanupStaleLocked core = core\<lparr>core_heap := h, reservations := rs\<rparr>"
    "core_wf (cleanupStaleLocked core)" "waiting (cleanupStaleLocked core) = waiting core"
    "\<forall>n. pq_top h = Some n \<longrightarrow> reserved rs (node_id n)" "length h \<le> length (core_heap core)"
    "ready (cleanupStaleLocked core) = ready core"
    by (rule cleanup_wf [OF assms])
  show "nextDeadlineLocked (cleanupStaleLocked core) =
      (case ready core of [] \<Rightarrow> None | n # _ \<Rightarrow> Some (node_deadline n))"
    using c(4) unfolding c(6) [symmetric] unfolding c(1)
    by (cases h) (auto simp: nextDeadlineLocked_def ready_def pq_top_def)
  show "waiting (cleanupStaleLocked core) = waiting core" by (rule c(3))
  show "core_stopped (cleanupStaleLocked core) = core_stopped core" unfolding c(1) by simp
qed

text \<open>
  C4.  Due timers fire, in order, and the worker is told when to wake up.  A cycle of the timer
  thread on any reachable core that was not stopped, during which sinks may schedule further
  timers, returns with success; it fires exactly the pending timers whose deadline has come, by
  deadline and then by order of scheduling; the others stay pending; and the next deadline it
  reports is the earliest of those.
\<close>

theorem due_timers_fire:
  assumes "core_init cfg core_new = (c, TimerOk)" "timer_run c es core" "StopAsked \<notin> set es"
    and "only_schedules post" "runReady post now core = (core', fired, result)"
  shows "cycle_status result = TimerOk \<and> \<not> cycle_stopped result \<and>
    mset fired = {#n \<in># waiting core. node_deadline n \<le> now#} \<and> sorted (map node_key fired) \<and>
    timers_dispatched result = length fired \<and> commands_processed result = length (core_commands core) \<and>
    {#n \<in># waiting core. \<not> node_deadline n \<le> now#} \<subseteq># waiting core' \<and>
    next_deadline result = (if {#n \<in># waiting core. \<not> node_deadline n \<le> now#} = {#} then None
       else Some (Min (node_deadline ` {n. n \<in># waiting core \<and> \<not> node_deadline n \<le> now})))"
proof -
  have ok: "run_ok cfg es core" using timer_run_ok assms(1,2) by blast
  then have wf: "core_wf core" and run: "\<not> stop_requested core" and cfg: "core_config core \<noteq> None"
    using assms(3) by (auto simp: run_ok_def log_ok_def)
  obtain c1 r1 where p: "processCommands core = (c1, r1)" by fastforce
  note pw = process_wf [OF wf cfg p]
  have c1: "core_wf c1" "waiting c1 = waiting core" "\<not> stop_requested c1" "\<not> core_stopped c1" "core_commands c1 = []"
    using pw run by (auto simp: same_frame_def)
  obtain c2 where l: "ready_loop post now (Suc (length (core_heap c1))) c1 =
      (c2, takeWhile (\<lambda>n. node_deadline n \<le> now) (ready c1))" "core_wf c2"
    "ready c2 = dropWhile (\<lambda>n. node_deadline n \<le> now) (ready c1)"
    "waiting c1 - mset (takeWhile (\<lambda>n. node_deadline n \<le> now) (ready c1)) \<subseteq># waiting c2"
    "core_stopped c2 = core_stopped c1"
    using ready_loop_spec [OF assms(4) c1(1,3) lessI] by blast
  have ready: "mset (ready c1) = waiting core" "sorted (map node_key (ready c1))"
    using c1 by (auto simp: ready_def waiting_def core_nodes_def core_wf_def intro: sorted_filter)
  note due = sorted_due [OF ready(2), of now]
  have fired: "fired = filter (\<lambda>n. node_deadline n \<le> now) (ready c1)" "core' = cleanupStaleLocked c2"
    "result = r1\<lparr>timers_dispatched := length fired, next_deadline := nextDeadlineLocked (cleanupStaleLocked c2),
       cycle_stopped := core_stopped (cleanupStaleLocked c2)\<rparr>"
    using assms(5) p pw l(1) due by (auto simp: runReady_def Let_def)
  have rest: "ready c2 = filter (\<lambda>n. \<not> node_deadline n \<le> now) (ready c1)" using l(3) due by simp
  have late: "mset (ready c2) = {#n \<in># waiting core. \<not> node_deadline n \<le> now#}"
    "mset fired = {#n \<in># waiting core. node_deadline n \<le> now#}" by (simp_all add: rest fired ready(1))
  then have "{#n \<in># waiting core. \<not> node_deadline n \<le> now#} = waiting core - mset fired"
    by (metis add_diff_cancel_right' multiset_partition add.commute)
  then have sub: "{#n \<in># waiting core. \<not> node_deadline n \<le> now#} \<subseteq># waiting c2"
    using l(4) c1(2) due fired(1) by simp
  have "set (ready c2) = {n. n \<in># waiting core \<and> \<not> node_deadline n \<le> now}"
    using arg_cong [OF late(1), of set_mset] by simp
  moreover have "sorted (map node_key (ready c2))" using ready(2) rest by (simp add: sorted_filter)
  ultimately have "next_deadline result = (if {#n \<in># waiting core. \<not> node_deadline n \<le> now#} = {#} then None
       else Some (Min (node_deadline ` {n. n \<in># waiting core \<and> \<not> node_deadline n \<le> now})))"
    using first_deadline [of "ready c2"] late(1) next_deadline_ready(1) [OF l(2)]
    by (cases "ready c2") (auto simp: fired(3))
  then show ?thesis
    using pw late sub next_deadline_ready(2,3) [OF l(2)] l(5) c1 ready(2)
    by (simp add: fired sorted_filter)
qed

lemma example_waiting: "\<exists>n. waiting example_scheduled = {#n#} \<and> node_deadline n = 10"
  by (simp add: example_scheduled_def example_core_def core_init_def core_validConfig_def core_new_def
      core_scheduleAt_def example_event_def Let_def waiting_def core_nodes_def reserved_def)

theorem due_timers_fire_witness:
  "\<exists>core' fired result.
     runReady (\<lambda>n c. fst (core_scheduleAt (\<lambda>_. True) 99 0 example_event c)) 12 example_scheduled = (core', fired, result) \<and>
     length fired = 1 \<and> next_deadline result = None"
proof -
  let ?post = "\<lambda>n c. fst (core_scheduleAt (\<lambda>_. True) 99 0 example_event c)"
  obtain n where n: "timer_run (fst example_core) [TimerSet n] example_scheduled" using example_timer_run by blast
  obtain m where m: "waiting example_scheduled = {#m#}" "node_deadline m = 10" using example_waiting by blast
  have init: "core_init \<lparr>command_capacity = 2, timer_capacity = 2\<rparr> core_new = (fst example_core, TimerOk)"
    using example_core_ok by (simp add: example_core_def)
  have post: "only_schedules ?post"
    unfolding only_schedules_def by (intro allI exI [of _ "[(\<lambda>_. True, 99, 0, example_event)]"]) simp
  obtain core' fired result where r: "runReady ?post 12 example_scheduled = (core', fired, result)"
    by (metis prod_cases3)
  have "mset fired = {#m#}" "next_deadline result = None"
    using due_timers_fire [OF init n _ post r] m by simp_all
  then show ?thesis using r by (metis One_nat_def mset_single_iff_right length_Cons list.size(3))
qed

lemma timer_run_commands:
  assumes "timer_run c es d" "core_init cfg core_new = (c, TimerOk)"
  shows "length (core_commands d) \<le> command_capacity cfg + (if stop_requested d then 1 else 0) \<and>
    (\<not> stop_requested d \<longrightarrow> core_accepting d)"
  using assms
proof (induction rule: timer_run.induct)
  case (timer_start c)
  then show ?case by (auto simp: core_init_def core_new_def split: if_splits)
next
  case (timer_schedule c es d alive deadline sink event d' res)
  have "core_config d = Some cfg" using timer_run_ok timer_schedule.hyps(1) timer_schedule.prems by (auto simp: run_ok_def)
  then show ?case
    using timer_schedule by (auto simp: core_scheduleAt_def Let_def split: if_splits)
next
  case (timer_cancel c es d i d' status)
  then show ?case by (auto simp: core_cancel_def split: if_splits option.splits)
next
  case (timer_stop c es d d' status)
  then show ?case by (auto simp: core_requestStop_def split: if_splits)
next
  case (timer_process c es d d' res)
  have "core_wf d" "core_config d \<noteq> None"
    using timer_run_ok timer_process.hyps(1) timer_process.prems by (auto simp: run_ok_def)
  then show ?case using process_wf [OF _ _ timer_process.hyps(2)] timer_process by (simp add: same_frame_def)
next
  case (timer_dispatch c es d now d' r)
  have "core_commands d' = core_commands d \<and> stop_requested d' = stop_requested d \<and> core_accepting d' = core_accepting d"
    using timer_dispatch.hyps(2)
    by (auto simp: dispatch_next_def cleanupStaleLocked_def Let_def split: if_splits option.splits prod.splits)
  then show ?case using timer_dispatch by simp
qed

text \<open>
  C5.  Capacity is exact and never leaks.  In every reachable core the pending timers are within the
  configured limit and the command queue exceeds its limit by at most the stop command; before a stop
  exactly one table entry is held per pending timer, so scheduling is refused for exactly the
  documented reasons, in their order: a stop, a dead sink, a full command queue, as many pending
  timers as the limit, or exhausted identifiers.  After a stop the next command round ends every
  pending timer.
\<close>

theorem timer_capacity_exact:
  assumes "core_init cfg core_new = (c, TimerOk)" "timer_run c es core"
  shows "size (waiting core) \<le> timer_capacity cfg \<and> length (core_commands core) \<le> Suc (command_capacity cfg) \<and>
    (StopAsked \<notin> set es \<longrightarrow> length (reservations core) = size (waiting core)) \<and>
    schedule_status (snd (core_scheduleAt alive deadline sink event core)) =
      (if StopAsked \<in> set es then TimerStopped
       else if \<not> alive sink then SinkExpired
       else if length (core_commands core) \<ge> command_capacity cfg then QueueFull
       else if size (waiting core) \<ge> timer_capacity cfg then TimerLimit
       else if next_id_value core = - 1 \<or> next_generation core = - 1 \<or> next_sequence core = - 1 then IdExhausted
       else TimerOk) \<and>
    (StopAsked \<in> set es \<longrightarrow> waiting (fst (processCommands core)) = {#})"
proof -
  have ok: "core_wf core" "core_config core = Some cfg" "size (waiting core) \<le> timer_capacity cfg"
    "StopAsked \<in> set es \<longleftrightarrow> stop_requested core"
    using timer_run_ok [OF assms(2,1)] by (auto simp: run_ok_def log_ok_def)
  note cmd = timer_run_commands [OF assms(2,1)]
  have size: "length (reservations core) = size (waiting core)" if "\<not> stop_requested core"
    using reservations_size [OF ok(1)] wf_stop(2) [OF ok(1) that] by simp
  have kind: "validEventKind k" for k by (cases k) simp_all
  have fresh: "map_of (reservations core) (next_id_value core) = None"
    using fresh_unreserved(1) [OF ok(1)] by (simp add: map_of_eq_None_iff)
  have "core_accepting core \<longleftrightarrow> \<not> stop_requested core" using cmd wf_stop(3) [OF ok(1)] by blast
  moreover obtain d res where d: "processCommands core = (d, res)" by fastforce
  ultimately show ?thesis
    using ok cmd size fresh kind process_wf [OF ok(1) _ d]
    by (simp add: core_scheduleAt_def Let_def split: if_splits)
qed

theorem timer_capacity_exact_witness:
  "core_init \<lparr>command_capacity = 2, timer_capacity = 2\<rparr> core_new = (fst example_core, TimerOk) \<and>
   schedule_status (snd (core_scheduleAt (\<lambda>_. False) 3 0 example_event (fst example_core))) = SinkExpired"
proof -
  have init: "core_init \<lparr>command_capacity = 2, timer_capacity = 2\<rparr> core_new = (fst example_core, TimerOk)"
    using example_core_ok by (simp add: example_core_def)
  then show ?thesis
    using timer_capacity_exact [OF init timer_start, of "\<lambda>_. False" 3 0 example_event] by simp
qed

end
