(* ===== verification/Decimal.thy ===== *)
theory Decimal
  imports Prelude
begin

text \<open>
  Decimal text of unsigned integers as the C++ standard library prints and reads it:
  \<open>std::to_string\<close> and \<open>std::from_chars\<close>.  \<open>from_chars\<close> reads the longest prefix of digits, fails
  when there is none or when the value does not fit, and returns what it left unread.
\<close>

definition digit_char :: "nat \<Rightarrow> char" where
  "digit_char d = char_of (48 + d)"

definition is_digit :: "char \<Rightarrow> bool" where
  "is_digit c \<longleftrightarrow> 48 \<le> (of_char c :: nat) \<and> (of_char c :: nat) \<le> 57"

definition digit_value :: "char \<Rightarrow> nat" where
  "digit_value c = of_char c - 48"

fun to_string :: "nat \<Rightarrow> string" where
  "to_string n = (if n < 10 then [digit_char n] else to_string (n div 10) @ [digit_char (n mod 10)])"

declare to_string.simps [simp del]

definition digits_value :: "string \<Rightarrow> nat" where
  "digits_value ds = foldl (\<lambda>v c. 10 * v + digit_value c) 0 ds"

definition from_chars :: "nat \<Rightarrow> string \<Rightarrow> (nat \<times> string) option" where
  "from_chars bound tx =
     (let ds = takeWhile is_digit tx
      in if ds = [] \<or> digits_value ds \<ge> bound then None
         else Some (digits_value ds, dropWhile is_digit tx))"

lemma of_char_digit: "d < 10 \<Longrightarrow> (of_char (digit_char d) :: nat) = 48 + d"
  by (simp add: digit_char_def)

lemma digit_char_props [simp]:
  "d < 10 \<Longrightarrow> is_digit (digit_char d)" "d < 10 \<Longrightarrow> digit_value (digit_char d) = d"
  by (simp_all add: is_digit_def digit_value_def of_char_digit)

lemma digits_value_snoc [simp]: "digits_value (ds @ [c]) = 10 * digits_value ds + digit_value c"
  by (simp add: digits_value_def)

lemma to_string_digits [simp]: "list_all is_digit (to_string n)"
proof (induction n rule: to_string.induct)
  case (1 n)
  then show ?case by (subst to_string.simps) simp
qed

lemma to_string_value [simp]: "digits_value (to_string n) = n"
proof (induction n rule: to_string.induct)
  case (1 n)
  show ?case
  proof (cases "n < 10")
    case True
    then show ?thesis by (subst to_string.simps) (simp add: digits_value_def)
  next
    case False
    then show ?thesis using 1 by (subst to_string.simps) simp
  qed
qed

lemma to_string_nonempty [simp]: "to_string n \<noteq> []"
  by (subst to_string.simps) simp

lemma to_string_inj: "to_string m = to_string n \<longleftrightarrow> m = n"
  using to_string_value by metis

text \<open>No leading zero, except for zero itself.\<close>

lemma to_string_hd: "0 < n \<Longrightarrow> hd (to_string n) \<noteq> CHR ''0''"
proof (induction n rule: to_string.induct)
  case (1 n)
  show ?case
  proof (cases "n < 10")
    case True
    then have "(of_char (hd (to_string n)) :: nat) = 48 + n"
      by (subst to_string.simps) (simp add: of_char_digit)
    then show ?thesis using 1(2) by force
  next
    case False
    then have "hd (to_string n) = hd (to_string (n div 10))"
      by (subst to_string.simps) (simp add: hd_append)
    then show ?thesis using 1(1) False by simp
  qed
qed

lemma digit_char_zero: "digit_char 0 = CHR ''0''"
  by code_simp

lemma to_string_zero: "to_string 0 = ''0''"
  by (subst to_string.simps) (simp add: digit_char_zero)

lemma to_string_single: "hd (to_string n) = CHR ''0'' \<Longrightarrow> length (to_string n) = 1"
  using to_string_hd [of n] by (cases "n = 0") (auto simp: to_string_zero)

lemma from_chars_to_string: "n < bound \<Longrightarrow> from_chars bound (to_string n) = Some (n, [])"
proof -
  assume n: "n < bound"
  have t: "takeWhile is_digit (to_string n) = to_string n" "dropWhile is_digit (to_string n) = []"
    using to_string_digits [of n] by (auto simp: list_all_iff)
  show ?thesis unfolding from_chars_def Let_def t using n by simp
qed

text \<open>Text in canonical form is the printed form of the number it denotes.\<close>

lemma digits_value_bound: "digits_value ds < 10 ^ length ds \<or> \<not> list_all is_digit ds"
proof (induction ds rule: rev_induct)
  case (snoc c ds)
  have "digit_value c < 10" if "is_digit c" using that by (auto simp: is_digit_def digit_value_def)
  then show ?case using snoc by (auto simp: algebra_simps)
qed (simp add: digits_value_def)

lemma digit_char_value: "is_digit c \<Longrightarrow> digit_char (digit_value c) = c"
  by (simp add: digit_char_def digit_value_def is_digit_def)

lemma canonical_to_string:
  assumes "list_all is_digit ds" "ds \<noteq> []" "hd ds \<noteq> CHR ''0'' \<or> length ds = 1"
  shows "to_string (digits_value ds) = ds"
  using assms
proof (induction ds rule: rev_induct)
  case (snoc c ds)
  have c: "digit_value c < 10" "is_digit c" using snoc.prems(1) by (auto simp: is_digit_def digit_value_def)
  show ?case
  proof (cases ds)
    case Nil
    then show ?thesis using c by (subst to_string.simps) (simp add: digits_value_def digit_char_value)
  next
    case (Cons d ds')
    then have h: "hd ds \<noteq> CHR ''0''" "ds \<noteq> []" "list_all is_digit ds" using snoc.prems by auto
    then have ih: "to_string (digits_value ds) = ds" using snoc.IH by blast
    have "digits_value ds \<noteq> 0" using ih h(1) by (metis to_string_zero list.sel(1))
    then have "\<not> digits_value (ds @ [c]) < 10" by simp
    then show ?thesis using c ih by (subst to_string.simps) (simp add: digit_char_value)
  qed
qed simp

end
