(* ===== verification/Redis_Codec.thy ===== *)
theory Redis_Codec
  imports Blacklist Decimal "HOL-Library.List_Lexorder" "HOL-Library.Char_ord"
begin

text \<open>
  Redis replies and their text formats (\<open>include/aegisflow/storage/redis_connection.hpp\<close>,
  the local functions of \<open>src/storage/blacklist_redis_store.cpp\<close>): reply values, the
  decimal, stream and hash formats the store writes and reads back, and the key names.
  Strings are compared byte by byte, which is the lexicographic order of lists.
\<close>

section \<open>Replies\<close>

datatype RedisValueKind = KindStatus | KindString | KindInteger | KindNil | KindError | KindArray

datatype RedisValue = RedisValue
  (value_kind: RedisValueKind) (value_text: string) (value_integer: int) (value_elements: "RedisValue list")

datatype RedisCommandStatus = CommandOk | CommandDeadlineExceeded | CommandIoError | CommandProtocolError

record RedisCommandResult =
  command_status :: RedisCommandStatus
  command_value :: RedisValue

datatype StoreStatus =
    StoreOk | WatchConflict | NotReady | InvalidRemoteState | DeadlineExceeded | IoError | CommitUnknown
  | TransactionError | ProtocolError

record StoreResult =
  store_status :: StoreStatus
  store_revision :: "nat option"

definition kMaxRedisInteger :: nat where "kMaxRedisInteger = 2 ^ 63 - 1"

fun commandStatus :: "RedisCommandResult \<Rightarrow> StoreStatus" where
  "commandStatus r = (case command_status r of
      CommandOk \<Rightarrow> StoreOk
    | CommandDeadlineExceeded \<Rightarrow> DeadlineExceeded
    | CommandIoError \<Rightarrow> IoError
    | CommandProtocolError \<Rightarrow> ProtocolError)"

definition statusIs :: "RedisCommandResult \<Rightarrow> string \<Rightarrow> bool" where
  "statusIs r expected \<longleftrightarrow> command_status r = CommandOk \<and> value_kind (command_value r) = KindStatus \<and>
     value_text (command_value r) = expected"

definition execBaseStatus :: "RedisCommandResult \<Rightarrow> StoreStatus" where
  "execBaseStatus r =
     (if command_status r = CommandDeadlineExceeded then DeadlineExceeded
      else if command_status r = CommandIoError then CommitUnknown
      else if command_status r = CommandProtocolError then ProtocolError
      else if value_kind (command_value r) = KindNil then WatchConflict
      else if value_kind (command_value r) = KindError then TransactionError
      else if value_kind (command_value r) \<noteq> KindArray then ProtocolError
      else if list_ex (\<lambda>v. value_kind v = KindError) (value_elements (command_value r)) then TransactionError
      else StoreOk)"

definition storeResult :: "StoreStatus \<Rightarrow> nat option \<Rightarrow> StoreResult" where
  "storeResult status revision = \<lparr>store_status = status, store_revision = revision\<rparr>"

section \<open>Numbers and identifiers\<close>

definition parseUnsigned :: "string \<Rightarrow> nat \<Rightarrow> nat option" where
  "parseUnsigned tx maximum =
     (if tx = [] \<or> (length tx > 1 \<and> hd tx = CHR ''0'') then None
      else case from_chars (2 ^ 64) tx of
          None \<Rightarrow> None
        | Some (v, rest) \<Rightarrow> if rest \<noteq> [] \<or> v > maximum then None else Some v)"

definition isStreamId :: "string \<Rightarrow> bool" where
  "isStreamId v =
     (let first = takeWhile (\<lambda>c. c \<noteq> CHR ''-'') v; rest = drop (length first) v
      in if rest = [] \<or> first = [] \<or> tl rest = [] \<or> CHR ''-'' \<in> set (tl rest) then False
         else parseUnsigned first kMaxRedisInteger \<noteq> None \<and> parseUnsigned (tl rest) kMaxRedisInteger \<noteq> None)"

fun entityTypeText :: "EntityType \<Rightarrow> string" where
  "entityTypeText EntityUser = ''USER''"
| "entityTypeText EntityIp = ''IP''"
| "entityTypeText EntityDevice = ''DEVICE''"

definition parseEntityType :: "string \<Rightarrow> EntityType option" where
  "parseEntityType tx =
     (if tx = ''USER'' then Some EntityUser
      else if tx = ''IP'' then Some EntityIp
      else if tx = ''DEVICE'' then Some EntityDevice
      else None)"

section \<open>Keys\<close>

record RedisKeySet =
  key_users :: string
  key_ips :: string
  key_devices :: string
  key_pending :: string
  key_revision :: string
  key_cache_ready :: string
  key_published_revision :: string
  key_reset_barrier :: string

definition fromPrefix :: "string \<Rightarrow> RedisKeySet" where
  "fromPrefix prefix = \<lparr>key_users = prefix @ '':user'', key_ips = prefix @ '':ip'', key_devices = prefix @ '':device'',
     key_pending = prefix @ '':pending'', key_revision = prefix @ '':revision'',
     key_cache_ready = prefix @ '':cache_ready'', key_published_revision = prefix @ '':published_revision'',
     key_reset_barrier = prefix @ '':reset_barrier''\<rparr>"

definition all_keys :: "RedisKeySet \<Rightarrow> string list" where
  "all_keys k = [key_users k, key_ips k, key_devices k, key_pending k, key_revision k, key_cache_ready k,
     key_published_revision k, key_reset_barrier k]"

fun hashKey :: "RedisKeySet \<Rightarrow> EntityType \<Rightarrow> string" where
  "hashKey keys EntityUser = key_users keys"
| "hashKey keys EntityIp = key_ips keys"
| "hashKey keys EntityDevice = key_devices keys"

section \<open>The pending stream\<close>

definition streamFields :: "BlacklistMutation \<Rightarrow> string list" where
  "streamFields m = (case mut_operation m of
      OpUpsert \<Rightarrow> [''operation'', ''UPSERT'', ''type'', entityTypeText (the (mut_entity_type m)), ''id'', mut_id m,
                   ''reason'', mut_reason m, ''expire_at_ms'', to_string (mut_expire_at_ms m)]
    | OpDisable \<Rightarrow> [''operation'', ''DISABLE'', ''type'', entityTypeText (the (mut_entity_type m)), ''id'', mut_id m]
    | OpClearAll \<Rightarrow> [''operation'', ''CLEAR_ALL''])"

text \<open>The fs of a stream record as a map; a wrong kind or a repeated name is an error.\<close>

fun stream_values :: "RedisValue list \<Rightarrow> (string \<times> string) list \<Rightarrow> (string \<times> string) list option" where
  "stream_values (k # v # rest) values =
     (if value_kind k \<noteq> KindString \<or> value_kind v \<noteq> KindString \<or> map_of values (value_text k) \<noteq> None then None
      else stream_values rest ((value_text k, value_text v) # values))"
| "stream_values _ values = Some values"

definition parse_upsert :: "pton \<Rightarrow> ntop \<Rightarrow> EntityType \<Rightarrow> string \<Rightarrow> (string \<times> string) list \<Rightarrow> string + BlacklistMutation" where
  "parse_upsert pt nt ty i values =
     (case (map_of values ''reason'', map_of values ''expire_at_ms'') of
        (Some reason, Some expiry) \<Rightarrow>
          (case parseUnsigned expiry kMaxExpireAtMs of
             None \<Rightarrow> Inl ''UPSERT expiry invalid''
           | Some expire \<Rightarrow>
               (case mutation_upsert pt nt ty i reason expire of
                  None \<Rightarrow> Inl ''UPSERT entity or reason invalid''
                | Some m \<Rightarrow> Inr m))
      | _ \<Rightarrow> Inl ''UPSERT reason or expiry missing'')"

definition parse_entity_mutation ::
  "pton \<Rightarrow> ntop \<Rightarrow> string \<Rightarrow> EntityType \<Rightarrow> string \<Rightarrow> (string \<times> string) list \<Rightarrow> string + BlacklistMutation" where
  "parse_entity_mutation pt nt operation ty i values =
     (if operation = ''DISABLE''
      then if length values \<noteq> 3 then Inl ''DISABLE contains unknown or extra fields''
           else (case mutation_disable pt nt ty i of
                   None \<Rightarrow> Inl ''DISABLE entity invalid''
                 | Some m \<Rightarrow> Inr m)
      else if operation \<noteq> ''UPSERT'' \<or> length values \<noteq> 5
      then Inl ''operation invalid or UPSERT fields incomplete''
      else parse_upsert pt nt ty i values)"

definition parseStreamMutation :: "pton \<Rightarrow> ntop \<Rightarrow> RedisValue \<Rightarrow> string + BlacklistMutation" where
  "parseStreamMutation pt nt fs =
     (if value_kind fs \<noteq> KindArray \<or> length (value_elements fs) mod 2 \<noteq> 0
      then Inl ''field array must contain pairs''
      else case stream_values (value_elements fs) [] of
          None \<Rightarrow> Inl ''field name/value invalid or duplicated''
        | Some values \<Rightarrow>
            (case map_of values ''operation'' of
               None \<Rightarrow> Inl ''operation missing''
             | Some operation \<Rightarrow>
                 if operation = ''CLEAR_ALL''
                 then if length values \<noteq> 1 then Inl ''CLEAR_ALL contains extra fields'' else Inr mutation_clearAll
                 else case (map_of values ''type'', map_of values ''id'') of
                     (Some type_value, Some i) \<Rightarrow>
                       (case parseEntityType type_value of
                          None \<Rightarrow> Inl ''entity type invalid''
                        | Some ty \<Rightarrow> parse_entity_mutation pt nt operation ty i values)
                   | _ \<Rightarrow> Inl ''type or id missing''))"

section \<open>Hash scans\<close>

fun scan_entries :: "pton \<Rightarrow> ntop \<Rightarrow> EntityType \<Rightarrow> RedisValue list \<Rightarrow> BlacklistEntry list \<Rightarrow> StoreStatus \<times> BlacklistEntry list" where
  "scan_entries pt nt ty (f # v # rest) entries =
     (if value_kind f \<noteq> KindString \<or> value_kind v \<noteq> KindString then (ProtocolError, entries)
      else let i = value_text f
           in if (if ty = EntityIp
                  then (case ip_parse pt nt i of None \<Rightarrow> True | Some a \<Rightarrow> canonicalText a \<noteq> i)
                  else i = [] \<or> length i > kMaxEntityIdBytes \<or> containsNull i)
              then (InvalidRemoteState, entries)
              else case parseUnsigned (value_text v) kMaxExpireAtMs of
                  None \<Rightarrow> (InvalidRemoteState, entries)
                | Some expiry \<Rightarrow>
                    scan_entries pt nt ty rest (entries @ [\<lparr>entry_type = ty, entry_id = i, expire_at_ms = expiry\<rparr>]))"
| "scan_entries pt nt ty _ entries = (StoreOk, entries)"

text \<open>The result is the status, the next cursor and the entries collected so far.\<close>

definition parseHashScan ::
  "pton \<Rightarrow> ntop \<Rightarrow> RedisCommandResult \<Rightarrow> EntityType \<Rightarrow> string \<Rightarrow> BlacklistEntry list \<Rightarrow>
   StoreStatus \<times> string \<times> BlacklistEntry list" where
  "parseHashScan pt nt r ty cursor entries =
     (let v = command_value r
      in if commandStatus r \<noteq> StoreOk then (commandStatus r, cursor, entries)
         else if value_kind v = KindError then (InvalidRemoteState, cursor, entries)
         else case value_elements v of
             [c, vs] \<Rightarrow>
               if value_kind v \<noteq> KindArray \<or> value_kind c \<noteq> KindString \<or> value_kind vs \<noteq> KindArray \<or>
                  length (value_elements vs) mod 2 \<noteq> 0
               then (ProtocolError, cursor, entries)
               else if parseUnsigned (value_text c) kMaxRedisInteger = None then (ProtocolError, value_text c, entries)
               else (case scan_entries pt nt ty (value_elements vs) entries of
                       (status, entries) \<Rightarrow> (status, value_text c, entries))
           | _ \<Rightarrow> (ProtocolError, cursor, entries))"

section \<open>Facts\<close>

lemma parse_to_string: "n \<le> maximum \<Longrightarrow> n < 2 ^ 64 \<Longrightarrow> parseUnsigned (to_string n) maximum = Some n"
  using to_string_single [of n] by (auto simp: parseUnsigned_def from_chars_to_string)

lemma parseUnsigned_Some:
  "parseUnsigned tx maximum = Some n \<longleftrightarrow> tx = to_string n \<and> n \<le> maximum \<and> n < 2 ^ 64"
proof
  assume a: "parseUnsigned tx maximum = Some n"
  then have s: "tx \<noteq> []" "\<not> (length tx > 1 \<and> hd tx = CHR ''0'')" "from_chars (2 ^ 64) tx = Some (n, [])" "n \<le> maximum"
    by (auto simp: parseUnsigned_def split: if_splits option.splits)
  then have d: "dropWhile is_digit tx = []" "n = digits_value (takeWhile is_digit tx)" "n < 2 ^ 64"
    by (auto simp: from_chars_def Let_def split: if_splits)
  have all: "list_all is_digit tx" "takeWhile is_digit tx = tx"
    using d(1) by (auto simp: dropWhile_eq_Nil_conv list_all_iff takeWhile_eq_all_conv)
  have "hd tx \<noteq> CHR ''0'' \<or> length tx = 1" using s(1,2) by (cases tx) auto
  then have "to_string n = tx" using canonical_to_string [OF all(1) s(1)] d(2) all(2) by simp
  then show "tx = to_string n \<and> n \<le> maximum \<and> n < 2 ^ 64" using s(4) d(3) by simp
next
  assume "tx = to_string n \<and> n \<le> maximum \<and> n < 2 ^ 64"
  then show "parseUnsigned tx maximum = Some n" using parse_to_string by blast
qed

lemma type_roundtrip [simp]: "parseEntityType (entityTypeText ty) = Some ty"
  by (cases ty) (simp_all add: parseEntityType_def)

definition text_value :: "string \<Rightarrow> RedisValue" where
  "text_value tx = RedisValue KindString tx 0 []"

text \<open>Every string the factories accept survives normalisation, so parsing repeats the factory call.\<close>

lemma normal_normalizeId: "normal_id pt nt ty i \<Longrightarrow> normalizeId pt nt ty i = Some i"
  by (auto simp: normal_id_def normalizeId_def split: if_splits)

lemma expiry_roundtrip: "e \<le> kMaxExpireAtMs \<Longrightarrow> parseUnsigned (to_string e) kMaxExpireAtMs = Some e"
  by (rule parse_to_string) (simp_all add: kMaxExpireAtMs_def)

lemma parse_stream_fields:
  assumes "mutation_valid pt nt m"
  shows "parseStreamMutation pt nt (RedisValue KindArray tx k (map text_value (streamFields m))) = Inr m"
proof (cases "mut_operation m")
  case OpUpsert
  then obtain ty where t: "mut_entity_type m = Some ty" "normalizeId pt nt ty (mut_id m) = Some (mut_id m)"
      "validText (mut_reason m) kMaxReasonBytes" "mut_expire_at_ms m \<le> kMaxExpireAtMs"
    using assms normal_normalizeId by (auto simp: mutation_valid_def)
  then have "mutation_upsert pt nt ty (mut_id m) (mut_reason m) (mut_expire_at_ms m) = Some m"
    using OpUpsert by (simp add: mutation_upsert_def)
  then show ?thesis using OpUpsert t expiry_roundtrip [OF t(4)]
    by (simp add: parseStreamMutation_def streamFields_def text_value_def parse_upsert_def
        parse_entity_mutation_def)
next
  case OpDisable
  then obtain ty where t: "mut_entity_type m = Some ty" "normalizeId pt nt ty (mut_id m) = Some (mut_id m)"
      "mut_reason m = []" "mut_expire_at_ms m = 0"
    using assms normal_normalizeId by (auto simp: mutation_valid_def)
  then have "mutation_disable pt nt ty (mut_id m) = Some m"
    using OpDisable by (simp add: mutation_disable_def)
  then show ?thesis using OpDisable t
    by (simp add: parseStreamMutation_def streamFields_def text_value_def parse_entity_mutation_def)
next
  case OpClearAll
  then have "m = mutation_clearAll" using assms by (simp add: mutation_valid_def mutation_clearAll_def)
  then show ?thesis by (simp add: parseStreamMutation_def streamFields_def text_value_def mutation_clearAll_def)
qed

lemma disable_valid:
  assumes "inet_laws pt nt" "mutation_disable pt nt ty i = Some m"
  shows "mutation_valid pt nt m"
  using normalizeId_normal [OF assms(1), of ty i] assms(2) by (auto simp: mutation_disable_def mutation_valid_def)

lemma upsert_valid:
  assumes "inet_laws pt nt" "mutation_upsert pt nt ty i reason e = Some m"
  shows "mutation_valid pt nt m"
  using normalizeId_normal(1) [OF assms(1), of ty i] assms(2)
  by (auto simp: mutation_upsert_def mutation_valid_def split: option.splits if_splits)

lemma parse_upsert_valid: "inet_laws pt nt \<Longrightarrow> parse_upsert pt nt ty i values = Inr m \<Longrightarrow> mutation_valid pt nt m"
  by (auto simp: parse_upsert_def split: option.splits intro: upsert_valid)

lemma parse_entity_valid:
  "inet_laws pt nt \<Longrightarrow> parse_entity_mutation pt nt operation ty i values = Inr m \<Longrightarrow> mutation_valid pt nt m"
  unfolding parse_entity_mutation_def
  by (split if_split_asm; split if_split_asm) (auto split: option.splits intro: disable_valid parse_upsert_valid)

lemma parsed_stream_valid:
  assumes "inet_laws pt nt" "parseStreamMutation pt nt fs = Inr m"
  shows "mutation_valid pt nt m"
proof -
  have c: "mutation_valid pt nt mutation_clearAll" by (simp add: mutation_clearAll_def mutation_valid_def)
  obtain vs where v: "stream_values (value_elements fs) [] = Some vs"
    using assms(2) unfolding parseStreamMutation_def by (fastforce split: if_split_asm option.split_asm)
  obtain operation where o: "map_of vs ''operation'' = Some operation"
    using assms(2) v unfolding parseStreamMutation_def by (fastforce split: if_split_asm option.split_asm)
  show ?thesis
  proof (cases "operation = ''CLEAR_ALL''")
    case True
    then show ?thesis using assms(2) v o c unfolding parseStreamMutation_def by (simp split: if_split_asm)
  next
    case False
    then obtain ty i where "parse_entity_mutation pt nt operation ty i vs = Inr m"
      using assms(2) v o unfolding parseStreamMutation_def by (auto split: if_split_asm option.split_asm)
    then show ?thesis using parse_entity_valid [OF assms(1)] by blast
  qed
qed

section \<open>Properties\<close>

text \<open>
  C11.  What is queued for MySQL is read back unchanged.  The stream record the store writes for a
  valid mutation, echoed back as an array of strings, parses to exactly that mutation; and every
  record that parses gives a valid mutation, so a corrupted record is reported and never executed.
\<close>

theorem stream_roundtrip:
  assumes "inet_laws pt nt"
  shows "(mutation_valid pt nt m \<longrightarrow>
      parseStreamMutation pt nt (RedisValue KindArray tx k (map text_value (streamFields m))) = Inr m) \<and>
    (parseStreamMutation pt nt fs = Inr m' \<longrightarrow> mutation_valid pt nt m')"
  using parse_stream_fields [of pt nt m] parsed_stream_valid [OF assms, of fs m'] by blast

theorem stream_roundtrip_witness:
  "parseStreamMutation example_pton example_ntop
     (RedisValue KindArray [] 0 (map text_value (streamFields
       \<lparr>mut_operation = OpDisable, mut_entity_type = Some EntityUser, mut_id = ''mallory'', mut_reason = [],
        mut_expire_at_ms = 0\<rparr>))) =
   Inr \<lparr>mut_operation = OpDisable, mut_entity_type = Some EntityUser, mut_id = ''mallory'', mut_reason = [],
        mut_expire_at_ms = 0\<rparr>"
proof -
  have "mutation_valid example_pton example_ntop \<lparr>mut_operation = OpDisable, mut_entity_type = Some EntityUser,
      mut_id = ''mallory'', mut_reason = [], mut_expire_at_ms = 0\<rparr>"
    by (simp add: mutation_valid_def normal_id_def validText_def kMaxEntityIdBytes_def)
  then show ?thesis by (rule stream_roundtrip [OF example_inet_laws, THEN conjunct1, THEN mp])
qed

end
