(* ===== verification/Effect_Rules.thy ===== *)
theory Effect_Rules
  imports Prelude "HOL-Library.State_Monad"
begin

text \<open>
  Weakest preconditions for the state monad.  The storage code talks to external services through
  calls that change their state; a state-monad action models such a call, and \<open>wp\<close> states what
  holds of its result and of the state it leaves.  The rules in \<open>wp_rules\<close> take an action apart
  from its first step on.
\<close>

named_theorems wp_rules "introduction rules for weakest preconditions"

definition wp :: "('s, 'a) state \<Rightarrow> ('a \<Rightarrow> 's \<Rightarrow> bool) \<Rightarrow> 's \<Rightarrow> bool" where
  "wp m Q s \<longleftrightarrow> (case run_state m s of (r, s') \<Rightarrow> Q r s')"

lemma wp_return [wp_rules]: "Q x s \<Longrightarrow> wp (State_Monad.return x) Q s"
  by (simp add: wp_def)

lemma wp_bind [wp_rules]: "wp m (\<lambda>x. wp (f x) Q) s \<Longrightarrow> wp (State_Monad.bind m f) Q s"
  by (simp add: wp_def split: prod.splits)

lemma wp_if [wp_rules]: "(b \<Longrightarrow> wp m Q s) \<Longrightarrow> (\<not> b \<Longrightarrow> wp n Q s) \<Longrightarrow> wp (if b then m else n) Q s"
  by simp

lemma wp_option [wp_rules]:
  "(x = None \<Longrightarrow> wp m Q s) \<Longrightarrow> (\<And>a. x = Some a \<Longrightarrow> wp (f a) Q s) \<Longrightarrow>
   wp (case x of None \<Rightarrow> m | Some a \<Rightarrow> f a) Q s"
  by (simp split: option.splits)

lemma wp_prod [wp_rules]: "(\<And>a b. x = (a, b) \<Longrightarrow> wp (f a b) Q s) \<Longrightarrow> wp (case x of (a, b) \<Rightarrow> f a b) Q s"
  by (simp split: prod.splits)

lemma wp_let [wp_rules]: "wp (f x) Q s \<Longrightarrow> wp (let y = x in f y) Q s"
  by simp

lemma wp_mono: "wp m P s \<Longrightarrow> (\<And>r s'. P r s' \<Longrightarrow> Q r s') \<Longrightarrow> wp m Q s"
  by (simp add: wp_def split: prod.splits)

lemma wp_conj: "wp m P s \<Longrightarrow> wp m Q s \<Longrightarrow> wp m (\<lambda>r s'. P r s' \<and> Q r s') s"
  by (simp add: wp_def split: prod.splits)

lemma wp_run: "wp m Q s \<Longrightarrow> run_state m s = (r, s') \<Longrightarrow> Q r s'"
  by (simp add: wp_def)

lemma wpI: "(\<And>r s'. run_state m s = (r, s') \<Longrightarrow> Q r s') \<Longrightarrow> wp m Q s"
  by (simp add: wp_def split: prod.splits)

text \<open>An action on one component of the state.\<close>

definition zoom :: "('s \<Rightarrow> 'w) \<Rightarrow> ('w \<Rightarrow> 's \<Rightarrow> 's) \<Rightarrow> ('w, 'a) state \<Rightarrow> ('s, 'a) state" where
  "zoom sel upd m = State (\<lambda>s. case run_state m (sel s) of (a, w) \<Rightarrow> (a, upd w s))"

definition modify :: "('s \<Rightarrow> 's) \<Rightarrow> ('s, unit) state" where
  "modify f = State (\<lambda>s. ((), f s))"

lemma wp_zoom [wp_rules]: "(\<And>a w. run_state m (sel s) = (a, w) \<Longrightarrow> Q a (upd w s)) \<Longrightarrow> wp (zoom sel upd m) Q s"
  by (simp add: wp_def zoom_def split: prod.splits)

lemma wp_modify [wp_rules]: "Q () (f s) \<Longrightarrow> wp (modify f) Q s"
  by (simp add: wp_def modify_def)

lemma wp_get [wp_rules]: "Q s s \<Longrightarrow> wp State_Monad.get Q s"
  by (simp add: wp_def)

lemma run_zoom [simp]: "run_state (zoom sel upd m) s = (case run_state m (sel s) of (a, w) \<Rightarrow> (a, upd w s))"
  by (simp add: zoom_def)

lemma run_modify [simp]: "run_state (modify f) s = ((), f s)"
  by (simp add: modify_def)

end
