(* ===== verification/Redis_Connection.thy ===== *)
theory Redis_Connection
  imports Redis_Codec Effect_Rules
begin

text \<open>
  The Redis connection (\<open>src/storage/redis_connection.cpp\<close>): copying replies, deadlines,
  commands and the connection handshake.  The functions of hiredis and the steady clock are
  parameters acting on a world of any type.  \<open>conn_journal\<close> is a history variable: the commands
  handed to hiredis on the current connection with their outcome.
\<close>

section \<open>hiredis\<close>

datatype ReplyType = ReplyStatus | ReplyString | ReplyInteger | ReplyNil | ReplyError | ReplyArray | ReplyOther

datatype redisReply = Reply
  (reply_type: ReplyType) (reply_integer: int) (reply_str: "string option") (reply_len: nat)
  (reply_elements: "redisReply option list")

type_synonym timeval = "int \<times> int"

record 'w Hiredis =
  hi_now :: "('w, int) state"
  hi_connect :: "string \<Rightarrow> nat \<Rightarrow> timeval \<Rightarrow> timeval \<Rightarrow> ('w, int option) state"
  hi_setTimeout :: "timeval \<Rightarrow> ('w, bool) state"
  hi_commandArgv :: "string list \<Rightarrow> ('w, redisReply option) state"
  hi_free :: "('w, unit) state"

section \<open>Connection\<close>

record RedisConfig =
  redis_host :: string
  redis_port :: nat
  redis_username :: string
  redis_password :: string
  redis_database :: nat
  connect_timeout :: int
  command_timeout :: int
  key_prefix :: string

record 'w RedisConnection =
  conn_context :: bool
  conn_timeout :: int
  conn_world :: 'w
  conn_journal :: "(string list \<times> RedisCommandResult) list"

type_synonym ('w, 'a) conn_action = "('w RedisConnection, 'a) state"

definition on_world :: "('w, 'a) state \<Rightarrow> ('w, 'a) conn_action" where
  "on_world = zoom conn_world (\<lambda>w. conn_world_update (\<lambda>_. w))"

definition kIntMax :: nat where "kIntMax = 2 ^ 31 - 1"

definition remainingTimeout :: "'w Hiredis \<Rightarrow> int \<Rightarrow> int \<Rightarrow> ('w, int option) conn_action" where
  "remainingTimeout H configured deadline = do {
     now \<leftarrow> on_world (hi_now H);
     State_Monad.return
       (if now \<ge> deadline \<or> configured \<le> 0 then None
        else Some (max 1 (min ((deadline - now) div 1000) (configured * 1000))))
   }"

definition toTimeval :: "int \<Rightarrow> timeval" where
  "toTimeval us = (us div 1000000, us mod 1000000)"

definition nil_value :: RedisValue where
  "nil_value = RedisValue KindNil [] 0 []"

definition commandResult :: "RedisCommandStatus \<Rightarrow> RedisCommandResult" where
  "commandResult status = \<lparr>command_status = status, command_value = nil_value\<rparr>"

definition successfulCommand :: "RedisValue \<Rightarrow> RedisCommandResult" where
  "successfulCommand v = \<lparr>command_status = CommandOk, command_value = v\<rparr>"

definition reply_text :: "redisReply \<Rightarrow> RedisValueKind \<Rightarrow> RedisValue option" where
  "reply_text source kind = (case reply_str source of
      None \<Rightarrow> if reply_len source \<noteq> 0 then None else Some (RedisValue kind [] 0 [])
    | Some tx \<Rightarrow> Some (RedisValue kind (take (reply_len source) tx) 0 []))"

fun copyReply :: "redisReply \<Rightarrow> RedisValue option"
and copyReplies :: "redisReply option list \<Rightarrow> RedisValue list option" where
  "copyReply (Reply ty n str len els) = (case ty of
      ReplyStatus \<Rightarrow> reply_text (Reply ty n str len els) KindStatus
    | ReplyString \<Rightarrow> reply_text (Reply ty n str len els) KindString
    | ReplyInteger \<Rightarrow> Some (RedisValue KindInteger [] n [])
    | ReplyNil \<Rightarrow> Some (RedisValue KindNil [] 0 [])
    | ReplyError \<Rightarrow> reply_text (Reply ty n str len els) KindError
    | ReplyArray \<Rightarrow> map_option (RedisValue KindArray [] 0) (copyReplies els)
    | ReplyOther \<Rightarrow> None)"
| "copyReplies [] = Some []"
| "copyReplies (None # els) = None"
| "copyReplies (Some r # els) = (case copyReply r of
      None \<Rightarrow> None
    | Some v \<Rightarrow> map_option ((#) v) (copyReplies els))"

definition isOk :: "RedisCommandResult \<Rightarrow> bool" where
  "isOk r \<longleftrightarrow> command_status r = CommandOk \<and> value_kind (command_value r) = KindStatus \<and>
     value_text (command_value r) = ''OK''"

text \<open>\<open>context_.reset()\<close>: the context is freed when there is one.\<close>

definition conn_invalidate :: "'w Hiredis \<Rightarrow> ('w, unit) conn_action" where
  "conn_invalidate H = do {
     c \<leftarrow> State_Monad.get;
     if conn_context c
     then do { on_world (hi_free H); modify (conn_context_update (\<lambda>_. False)) }
     else State_Monad.return ()
   }"

definition note_sent :: "string list \<Rightarrow> RedisCommandResult \<Rightarrow> ('w, unit) conn_action" where
  "note_sent argv r = modify (conn_journal_update (\<lambda>j. j @ [(argv, r)]))"

definition conn_answer :: "'w Hiredis \<Rightarrow> string list \<Rightarrow> redisReply option \<Rightarrow> ('w, RedisCommandResult) conn_action" where
  "conn_answer H argv reply =
     (let r = (case reply of
          None \<Rightarrow> commandResult CommandIoError
        | Some source \<Rightarrow> (case copyReply source of
              None \<Rightarrow> commandResult CommandProtocolError
            | Some v \<Rightarrow> successfulCommand v))
      in do {
        note_sent argv r;
        (if command_status r \<noteq> CommandOk then conn_invalidate H else State_Monad.return ());
        State_Monad.return r
      })"

definition conn_command :: "'w Hiredis \<Rightarrow> int \<Rightarrow> string list \<Rightarrow> ('w, RedisCommandResult) conn_action" where
  "conn_command H deadline argv = do {
     c \<leftarrow> State_Monad.get;
     if \<not> conn_context c \<or> argv = [] \<or> length argv > kIntMax
     then State_Monad.return (commandResult CommandIoError)
     else do {
       timeout \<leftarrow> remainingTimeout H (conn_timeout c) deadline;
       case timeout of
         None \<Rightarrow> State_Monad.return (commandResult CommandDeadlineExceeded)
       | Some us \<Rightarrow> do {
           ok \<leftarrow> on_world (hi_setTimeout H (toTimeval us));
           if \<not> ok
           then do { conn_invalidate H; State_Monad.return (commandResult CommandIoError) }
           else do { reply \<leftarrow> on_world (hi_commandArgv H argv); conn_answer H argv reply }
         }
     }
   }"

text \<open>
  \<open>connect\<close> answers whether there is a connection; the connection under construction, if any, is
  destroyed when a step of the handshake fails.
\<close>

definition handshake :: "'w Hiredis \<Rightarrow> int \<Rightarrow> bool \<Rightarrow> string list \<Rightarrow> ('w, bool) conn_action" where
  "handshake H deadline wanted argv =
     (if \<not> wanted then State_Monad.return True
      else do {
        r \<leftarrow> conn_command H deadline argv;
        if isOk r then State_Monad.return True
        else do { conn_invalidate H; State_Monad.return False }
      })"

definition valid_redis_config :: "RedisConfig \<Rightarrow> bool" where
  "valid_redis_config cfg \<longleftrightarrow> \<not> (redis_host cfg = [] \<or> redis_port cfg = 0 \<or> connect_timeout cfg \<le> 0 \<or>
     command_timeout cfg \<le> 0 \<or> redis_database cfg > 15 \<or> (redis_username cfg \<noteq> [] \<and> redis_password cfg = []))"

definition auth_command :: "RedisConfig \<Rightarrow> string list" where
  "auth_command cfg = (if redis_username cfg = [] then [''AUTH'', redis_password cfg]
     else [''AUTH'', redis_username cfg, redis_password cfg])"

definition conn_open :: "'w Hiredis \<Rightarrow> RedisConfig \<Rightarrow> int \<Rightarrow> int \<Rightarrow> ('w, bool) conn_action" where
  "conn_open H cfg connect_us command_us = do {
     e \<leftarrow> on_world (hi_connect H (redis_host cfg) (redis_port cfg) (toTimeval connect_us) (toTimeval command_us));
     case e of
       None \<Rightarrow> State_Monad.return False
     | Some err \<Rightarrow>
         if err \<noteq> 0 then do { on_world (hi_free H); State_Monad.return False }
         else do {
           modify (\<lambda>c. c\<lparr>conn_context := True, conn_timeout := command_timeout cfg, conn_journal := []\<rparr>);
           State_Monad.return True
         }
   }"

definition conn_connect :: "'w Hiredis \<Rightarrow> RedisConfig \<Rightarrow> int \<Rightarrow> ('w, bool) conn_action" where
  "conn_connect H cfg deadline =
     (if \<not> valid_redis_config cfg then State_Monad.return False
      else do {
        connect_us \<leftarrow> remainingTimeout H (connect_timeout cfg) deadline;
        case connect_us of None \<Rightarrow> State_Monad.return False | Some cu \<Rightarrow> do {
          command_us \<leftarrow> remainingTimeout H (command_timeout cfg) deadline;
          case command_us of None \<Rightarrow> State_Monad.return False | Some mu \<Rightarrow> do {
            opened \<leftarrow> conn_open H cfg cu mu;
            if \<not> opened then State_Monad.return False
            else do {
              ok \<leftarrow> handshake H deadline (redis_password cfg \<noteq> []) (auth_command cfg);
              if \<not> ok then State_Monad.return False
              else handshake H deadline (redis_database cfg \<noteq> 0) [''SELECT'', to_string (redis_database cfg)]
            }
          }
        }
      })"

definition conn_late :: "'w Hiredis \<Rightarrow> int \<Rightarrow> ('w, bool) conn_action" where
  "conn_late H deadline = do { now \<leftarrow> on_world (hi_now H); State_Monad.return (now \<ge> deadline) }"

section \<open>The command interface\<close>

record 's Executor =
  exec_command :: "string list \<Rightarrow> ('s, RedisCommandResult) state"
  exec_invalidate :: "('s, unit) state"
  exec_late :: "('s, bool) state"

definition conn_executor :: "'w Hiredis \<Rightarrow> int \<Rightarrow> 'w RedisConnection Executor" where
  "conn_executor H deadline =
     \<lparr>exec_command = conn_command H deadline, exec_invalidate = conn_invalidate H, exec_late = conn_late H deadline\<rparr>"

text \<open>
  What a command does to the connection: an answered command was sent; a command past the deadline
  was not; a failed one was either not sent, or the connection is gone.
\<close>

definition command_effect ::
  "('s \<Rightarrow> bool) \<Rightarrow> ('s \<Rightarrow> (string list \<times> RedisCommandResult) list) \<Rightarrow> string list \<Rightarrow> 's \<Rightarrow> RedisCommandResult \<Rightarrow> 's \<Rightarrow> bool" where
  "command_effect connected journal argv s r s' \<longleftrightarrow>
     (case command_status r of
        CommandOk \<Rightarrow> connected s \<and> connected s' \<and> journal s' = journal s @ [(argv, r)]
      | CommandDeadlineExceeded \<Rightarrow> connected s' = connected s \<and> journal s' = journal s
      | _ \<Rightarrow> (connected s' = connected s \<and> journal s' = journal s) \<or>
             (\<not> connected s' \<and> journal s' \<in> {journal s, journal s @ [(argv, r)]}))"

locale redis_executor =
  fixes E :: "'s Executor"
    and connected :: "'s \<Rightarrow> bool"
    and journal :: "'s \<Rightarrow> (string list \<times> RedisCommandResult) list"
  assumes command_law: "wp (exec_command E argv) (command_effect connected journal argv s) s"
    and invalidate_law: "wp (exec_invalidate E) (\<lambda>_ s'. \<not> connected s' \<and> journal s' = journal s) s"
    and late_law: "wp (exec_late E) (\<lambda>_ s'. connected s' = connected s \<and> journal s' = journal s) s"

lemma wp_on_world [wp_rules]:
  "(\<And>a w. run_state m (conn_world c) = (a, w) \<Longrightarrow> Q a (c\<lparr>conn_world := w\<rparr>)) \<Longrightarrow> wp (on_world m) Q c"
  unfolding on_world_def by (rule wp_zoom) simp

lemma invalidate_wp [wp_rules]:
  "(\<And>c'. \<not> conn_context c' \<Longrightarrow> conn_journal c' = conn_journal c \<Longrightarrow> Q () c') \<Longrightarrow> wp (conn_invalidate H) Q c"
  unfolding conn_invalidate_def by (intro wp_rules) simp_all

lemma timeout_wp [wp_rules]: "(\<And>t w. Q t (c\<lparr>conn_world := w\<rparr>)) \<Longrightarrow> wp (remainingTimeout H configured deadline) Q c"
  unfolding remainingTimeout_def by (intro wp_rules) simp

lemma answer_wp:
  "conn_context c \<Longrightarrow> wp (conn_answer H argv reply) (command_effect conn_context conn_journal argv c) c"
  unfolding conn_answer_def note_sent_def
  by (intro wp_rules)
    (auto simp: command_effect_def commandResult_def successfulCommand_def split: option.splits RedisCommandStatus.splits)

lemma effect_world [simp]:
  "command_effect conn_context conn_journal argv (c\<lparr>conn_world := w\<rparr>) = command_effect conn_context conn_journal argv c"
  by (simp add: command_effect_def fun_eq_iff split: RedisCommandStatus.split)

lemma command_wp: "wp (conn_command H deadline argv) (command_effect conn_context conn_journal argv c) c"
proof -
  have "wp (conn_answer H argv reply) (command_effect conn_context conn_journal argv c)
      (c\<lparr>conn_world := w\<rparr>)" if "conn_context c" for reply w
    using answer_wp [of "c\<lparr>conn_world := w\<rparr>" H argv reply] that by simp
  then show ?thesis
    unfolding conn_command_def
    by (intro wp_rules) (simp_all add: command_effect_def commandResult_def)
qed

interpretation redis_conn: redis_executor "conn_executor H deadline" conn_context conn_journal for H deadline
proof
  show "wp (exec_command (conn_executor H deadline) argv) (command_effect conn_context conn_journal argv s) s" for argv s
    by (simp add: conn_executor_def command_wp)
  show "wp (exec_invalidate (conn_executor H deadline)) (\<lambda>_ s'. \<not> conn_context s' \<and> conn_journal s' = conn_journal s) s" for s
    unfolding conn_executor_def Executor.simps by (intro wp_rules) simp
  show "wp (exec_late (conn_executor H deadline))
      (\<lambda>_ s'. conn_context s' = conn_context s \<and> conn_journal s' = conn_journal s) s" for s
    unfolding conn_executor_def Executor.simps conn_late_def by (intro wp_rules) simp
qed

section \<open>Facts\<close>

lemmas command_rule [wp_rules] = command_wp [THEN wp_mono]

lemma handshake_wp:
  assumes "conn_context c"
  shows "wp (handshake H deadline wanted argv)
    (\<lambda>ok c'. if ok then conn_context c' \<and> (\<exists>rs. conn_journal c' = conn_journal c @ rs \<and>
                map fst rs = (if wanted then [argv] else []) \<and> list_all (isOk \<circ> snd) rs)
             else \<not> conn_context c') c"
  using assms unfolding handshake_def
  by (intro wp_rules) (auto simp: command_effect_def isOk_def)

lemma open_wp:
  "wp (conn_open H cfg cu mu)
     (\<lambda>ok c'. if ok then conn_context c' \<and> conn_journal c' = [] else conn_context c' = conn_context c) c"
  unfolding conn_open_def by (intro wp_rules) auto

text \<open>
  A connection that is handed out is ready: the configuration was valid, the password (when there is
  one) and the database number (when it is not the default) were sent in that order and each was
  acknowledged with OK; when none is returned, no connection is left open.
\<close>

lemma connect_commands:
  assumes "\<not> conn_context c" "run_state (conn_connect H cfg deadline) c = (ok, c')"
  shows "if ok
    then valid_redis_config cfg \<and> conn_context c' \<and> list_all (isOk \<circ> snd) (conn_journal c') \<and>
      map fst (conn_journal c') = (if redis_password cfg = [] then [] else [auth_command cfg]) @
        (if redis_database cfg = 0 then [] else [[''SELECT'', to_string (redis_database cfg)]])
    else \<not> conn_context c'"
proof -
  let ?Q = "\<lambda>ok c'. if ok
    then valid_redis_config cfg \<and> conn_context c' \<and> list_all (isOk \<circ> snd) (conn_journal c') \<and>
      map fst (conn_journal c') = (if redis_password cfg = [] then [] else [auth_command cfg]) @
        (if redis_database cfg = 0 then [] else [[''SELECT'', to_string (redis_database cfg)]])
    else \<not> conn_context c'"
  have "wp (conn_connect H cfg deadline) ?Q c"
    unfolding conn_connect_def
    by (intro wp_rules open_wp [THEN wp_mono] handshake_wp [THEN wp_mono])
      (use assms(1) in \<open>auto split: if_splits\<close>)
  then show ?thesis using assms(2) by (rule wp_run)
qed

text \<open>A server that gives a list of answers in turn, with the clock at zero, and a connection to it.\<close>

definition example_hiredis :: "redisReply list Hiredis" where
  "example_hiredis = \<lparr>hi_now = State_Monad.return 0, hi_connect = (\<lambda>_ _ _ _. State_Monad.return (Some 0)),
     hi_setTimeout = (\<lambda>_. State_Monad.return True),
     hi_commandArgv = (\<lambda>_. State (\<lambda>rs. case rs of [] \<Rightarrow> (None, []) | r # rest \<Rightarrow> (Some r, rest))),
     hi_free = State_Monad.return ()\<rparr>"

definition example_config :: RedisConfig where
  "example_config = \<lparr>redis_host = ''127.0.0.1'', redis_port = 6379, redis_username = [], redis_password = [],
     redis_database = 0, connect_timeout = 1000, command_timeout = 1000, key_prefix = ''k''\<rparr>"

definition example_closed :: "redisReply list \<Rightarrow> redisReply list RedisConnection" where
  "example_closed answers = \<lparr>conn_context = False, conn_timeout = 0, conn_world = answers, conn_journal = []\<rparr>"

definition example_open :: "redisReply list \<Rightarrow> redisReply list RedisConnection" where
  "example_open answers = \<lparr>conn_context = True, conn_timeout = 1000, conn_world = answers, conn_journal = []\<rparr>"

definition reply_ok :: redisReply where "reply_ok = Reply ReplyStatus 0 (Some ''OK'') 2 []"

definition reply_status :: "string \<Rightarrow> redisReply" where "reply_status tx = Reply ReplyStatus 0 (Some tx) (length tx) []"

definition reply_string :: "string \<Rightarrow> redisReply" where "reply_string tx = Reply ReplyString 0 (Some tx) (length tx) []"

definition reply_int :: "int \<Rightarrow> redisReply" where "reply_int n = Reply ReplyInteger n None 0 []"

definition reply_array :: "redisReply list \<Rightarrow> redisReply" where
  "reply_array rs = Reply ReplyArray 0 None 0 (map Some rs)"

lemma copy_examples [simp]:
  "copyReply reply_ok = Some (RedisValue KindStatus ''OK'' 0 [])"
  "copyReply (reply_status tx) = Some (RedisValue KindStatus tx 0 [])"
  "copyReply (reply_string tx) = Some (RedisValue KindString tx 0 [])"
  "copyReply (reply_int n) = Some (RedisValue KindInteger [] n [])"
  "copyReply (reply_array rs) = map_option (RedisValue KindArray [] 0) (copyReplies (map Some rs))"
  by (simp_all add: reply_ok_def reply_status_def reply_string_def reply_int_def reply_array_def reply_text_def)

lemma example_connects:
  "run_state (conn_connect example_hiredis example_config 5000000) (example_closed answers) = (True, example_open answers)"
  by (simp add: conn_connect_def valid_redis_config_def remainingTimeout_def on_world_def conn_open_def handshake_def
      example_hiredis_def example_config_def example_closed_def example_open_def)

text \<open>One command on the example connection.\<close>

lemma example_command:
  assumes "0 < deadline" "argv \<noteq> []" "length argv \<le> kIntMax" "copyReply r = Some v"
  shows "run_state (conn_command example_hiredis deadline argv)
      \<lparr>conn_context = True, conn_timeout = 1000, conn_world = r # answers, conn_journal = j\<rparr> =
    (successfulCommand v,
     \<lparr>conn_context = True, conn_timeout = 1000, conn_world = answers, conn_journal = j @ [(argv, successfulCommand v)]\<rparr>)"
  using assms by (simp add: conn_command_def remainingTimeout_def on_world_def example_hiredis_def conn_answer_def
      note_sent_def Let_def successfulCommand_def)

end
