(* ===== verification/Redis_Store.thy ===== *)
theory Redis_Store
  imports Redis_Connection
begin

text \<open>
  The Redis store of the blacklist (\<open>src/storage/blacklist_redis_store.cpp\<close>), operation by operation
  over the command interface.  An executor carries the deadline of the call.  The scope guard of the
  source drops the connection when an exception leaves an operation; on every return the operation
  has already left the transaction or dropped the connection itself, so the guard does nothing there
  and has no counterpart here.
\<close>

type_synonym entry_groups = "EntityType \<Rightarrow> (string \<times> nat) list"

definition entity_types :: "EntityType list" where
  "entity_types = [EntityUser, EntityIp, EntityDevice]"

section \<open>Steps\<close>

definition ensureType :: "'s Executor \<Rightarrow> string \<Rightarrow> string \<Rightarrow> bool \<Rightarrow> ('s, StoreStatus) state" where
  "ensureType E key expected allow_none = do {
     r \<leftarrow> exec_command E [''TYPE'', key];
     State_Monad.return
       (if commandStatus r \<noteq> StoreOk then commandStatus r
        else if value_kind (command_value r) \<noteq> KindStatus then ProtocolError
        else if value_text (command_value r) = expected \<or> (allow_none \<and> value_text (command_value r) = ''none'')
        then StoreOk else InvalidRemoteState)
   }"

fun ensureTypes :: "'s Executor \<Rightarrow> (string \<times> string \<times> bool) list \<Rightarrow> ('s, StoreStatus) state" where
  "ensureTypes E [] = State_Monad.return StoreOk"
| "ensureTypes E ((key, expected, allow_none) # rest) = do {
     status \<leftarrow> ensureType E key expected allow_none;
     if status \<noteq> StoreOk then State_Monad.return status else ensureTypes E rest
   }"

definition unwatch :: "'s Executor \<Rightarrow> ('s, StoreStatus) state" where
  "unwatch E = do {
     r \<leftarrow> exec_command E [''UNWATCH''];
     State_Monad.return
       (if commandStatus r \<noteq> StoreOk then commandStatus r else if statusIs r ''OK'' then StoreOk else ProtocolError)
   }"

definition discard :: "'s Executor \<Rightarrow> ('s, StoreStatus) state" where
  "discard E = do {
     r \<leftarrow> exec_command E [''DISCARD''];
     State_Monad.return
       (if commandStatus r \<noteq> StoreOk then commandStatus r else if statusIs r ''OK'' then StoreOk else ProtocolError)
   }"

definition leaveWatch :: "'s Executor \<Rightarrow> StoreStatus \<Rightarrow> ('s, StoreStatus) state" where
  "leaveWatch E original = do {
     cleaned \<leftarrow> unwatch E;
     if cleaned \<noteq> StoreOk then do { exec_invalidate E; State_Monad.return cleaned }
     else State_Monad.return original
   }"

definition leaveTransaction :: "'s Executor \<Rightarrow> StoreStatus \<Rightarrow> ('s, StoreStatus) state" where
  "leaveTransaction E original = do {
     cleaned \<leftarrow> discard E;
     if cleaned \<noteq> StoreOk then do { exec_invalidate E; State_Monad.return cleaned }
     else State_Monad.return original
   }"

text \<open>A revision held as text; it must leave room for one more increment.\<close>

definition revision_text :: "RedisCommandResult \<Rightarrow> StoreStatus \<times> nat" where
  "revision_text r =
     (if commandStatus r \<noteq> StoreOk then (commandStatus r, 0)
      else if value_kind (command_value r) \<noteq> KindString then (InvalidRemoteState, 0)
      else case parseUnsigned (value_text (command_value r)) (kMaxRedisInteger - 1) of
          None \<Rightarrow> (InvalidRemoteState, 0)
        | Some n \<Rightarrow> (StoreOk, n))"

definition ready_status :: "RedisCommandResult \<Rightarrow> StoreStatus" where
  "ready_status r =
     (if commandStatus r \<noteq> StoreOk then commandStatus r
      else if value_kind (command_value r) = KindNil then NotReady
      else if value_kind (command_value r) \<noteq> KindString \<or> value_text (command_value r) \<noteq> ''1'' then InvalidRemoteState
      else StoreOk)"

definition readWatchedReadyRevision ::
  "'s Executor \<Rightarrow> RedisKeySet \<Rightarrow> string list \<Rightarrow> ('s, StoreStatus \<times> nat) state" where
  "readWatchedReadyRevision E keys hash_keys = do {
     status \<leftarrow> ensureType E (key_cache_ready keys) ''string'' True;
     if status \<noteq> StoreOk then State_Monad.return (status, 0)
     else do {
       ready \<leftarrow> exec_command E [''GET'', key_cache_ready keys];
       if ready_status ready \<noteq> StoreOk then State_Monad.return (ready_status ready, 0)
       else do {
         status \<leftarrow> ensureTypes E ([(key_pending keys, ''stream'', True), (key_revision keys, ''string'', False)] @
                    map (\<lambda>key. (key, ''hash'', True)) hash_keys);
         if status \<noteq> StoreOk then State_Monad.return (status, 0)
         else do {
           revision \<leftarrow> exec_command E [''GET'', key_revision keys];
           State_Monad.return (revision_text revision)
         }
       }
     }
   }"

definition queueCommand :: "'s Executor \<Rightarrow> string list \<Rightarrow> ('s, StoreStatus) state" where
  "queueCommand E argv = do {
     r \<leftarrow> exec_command E argv;
     State_Monad.return
       (if commandStatus r \<noteq> StoreOk then commandStatus r else if statusIs r ''QUEUED'' then StoreOk else ProtocolError)
   }"

definition queueOrDiscard :: "'s Executor \<Rightarrow> string list \<Rightarrow> ('s, StoreStatus) state" where
  "queueOrDiscard E argv = do {
     queued \<leftarrow> queueCommand E argv;
     if queued \<noteq> StoreOk then leaveTransaction E queued else State_Monad.return StoreOk
   }"

fun queue_all :: "'s Executor \<Rightarrow> string list list \<Rightarrow> ('s, StoreStatus) state" where
  "queue_all E [] = State_Monad.return StoreOk"
| "queue_all E (argv # rest) = do {
     status \<leftarrow> queueOrDiscard E argv;
     if status \<noteq> StoreOk then State_Monad.return status else queue_all E rest
   }"

definition checkedExecStatus :: "'s Executor \<Rightarrow> RedisCommandResult \<Rightarrow> ('s, StoreStatus) state" where
  "checkedExecStatus E r =
     (if command_status r = CommandOk then State_Monad.return (execBaseStatus r)
      else do { exec_invalidate E; State_Monad.return (execBaseStatus r) })"

text \<open>
  The common end of the writing operations: \<open>MULTI\<close>, the commands one by one, \<open>EXEC\<close>.  The result
  is the status and the replies of the transaction.
\<close>

definition transact :: "'s Executor \<Rightarrow> string list list \<Rightarrow> ('s, StoreStatus \<times> RedisValue list) state" where
  "transact E argvs = do {
     multi \<leftarrow> exec_command E [''MULTI''];
     if commandStatus multi \<noteq> StoreOk \<or> \<not> statusIs multi ''OK''
     then do {
       status \<leftarrow> leaveTransaction E (if commandStatus multi = StoreOk then ProtocolError else commandStatus multi);
       State_Monad.return (status, [])
     }
     else do {
       status \<leftarrow> queue_all E argvs;
       if status \<noteq> StoreOk then State_Monad.return (status, [])
       else do {
         executed \<leftarrow> exec_command E [''EXEC''];
         status \<leftarrow> checkedExecStatus E executed;
         State_Monad.return (status, value_elements (command_value executed))
       }
     }
   }"

text \<open>The common start: a failed \<open>WATCH\<close> drops the connection unless it already failed.\<close>

definition watch_keys :: "'s Executor \<Rightarrow> string list \<Rightarrow> ('s, StoreStatus) state" where
  "watch_keys E keys = do {
     watched \<leftarrow> exec_command E (''WATCH'' # keys);
     if commandStatus watched \<noteq> StoreOk then State_Monad.return (commandStatus watched)
     else if \<not> statusIs watched ''OK'' then do { exec_invalidate E; State_Monad.return ProtocolError }
     else State_Monad.return StoreOk
   }"

definition integer_reply :: "RedisValue \<Rightarrow> nat option" where
  "integer_reply v = (if value_kind v \<noteq> KindInteger \<or> value_integer v < 0 then None else Some (nat (value_integer v)))"

section \<open>Applying mutations\<close>

definition mutation_commands :: "RedisKeySet \<Rightarrow> BlacklistMutation \<Rightarrow> string list list" where
  "mutation_commands keys m =
     (let key = hashKey keys (the (mut_entity_type m))
      in [if mut_operation m = OpUpsert then [''HSET'', key, mut_id m, to_string (mut_expire_at_ms m)]
          else [''HDEL'', key, mut_id m],
          [''XADD'', key_pending keys, ''*''] @ streamFields m])"

definition apply_commands :: "RedisKeySet \<Rightarrow> BlacklistMutation list \<Rightarrow> string list list" where
  "apply_commands keys ms =
     (if mut_operation (hd ms) = OpClearAll
      then [[''DEL'', key_users keys, key_ips keys, key_devices keys],
            [''XADD'', key_pending keys, ''*''] @ streamFields (hd ms)]
      else concat (map (mutation_commands keys) ms)) @ [[''INCR'', key_revision keys]]"

definition apply_reply_ok :: "bool \<Rightarrow> nat \<Rightarrow> RedisValue \<Rightarrow> bool" where
  "apply_reply_ok clear index v =
     (if (if clear then index = 1 else index mod 2 = 1)
      then value_kind v = KindString \<and> value_text v \<noteq> []
      else case integer_reply v of None \<Rightarrow> False | Some n \<Rightarrow> \<not> (clear \<and> n > 3))"

definition touched_keys :: "RedisKeySet \<Rightarrow> BlacklistMutation list \<Rightarrow> string list" where
  "touched_keys keys ms =
     (let touched = (if mut_operation (hd ms) = OpClearAll then [key_users keys, key_ips keys, key_devices keys]
                     else map (\<lambda>m. hashKey keys (the (mut_entity_type m))) ms)
      in sort (remdups touched))"

definition batch_shape_ok :: "BlacklistMutation list \<Rightarrow> bool" where
  "batch_shape_ok ms \<longleftrightarrow> ms \<noteq> [] \<and>
     (if mut_operation (hd ms) = OpClearAll then length ms = 1
      else list_all (\<lambda>m. mut_operation m \<noteq> OpClearAll \<and> mut_entity_type m \<noteq> None) ms)"

definition applyMutations :: "'s Executor \<Rightarrow> RedisKeySet \<Rightarrow> BlacklistMutation list \<Rightarrow> ('s, StoreResult) state" where
  "applyMutations E keys ms =
     (if \<not> batch_shape_ok ms then State_Monad.return (storeResult ProtocolError None)
      else do {
        status \<leftarrow> watch_keys E ([key_cache_ready keys, key_pending keys, key_revision keys] @ touched_keys keys ms);
        if status \<noteq> StoreOk then State_Monad.return (storeResult status None)
        else do {
          (status, revision) \<leftarrow> readWatchedReadyRevision E keys (touched_keys keys ms);
          if status \<noteq> StoreOk
          then do { status \<leftarrow> leaveWatch E status; State_Monad.return (storeResult status None) }
          else do {
            (status, replies) \<leftarrow> transact E (apply_commands keys ms);
            State_Monad.return
              (if status \<noteq> StoreOk then storeResult status None
               else if length replies \<noteq> length (apply_commands keys ms) then storeResult ProtocolError None
               else if \<not> list_all (\<lambda>(i, v). apply_reply_ok (mut_operation (hd ms) = OpClearAll) i v)
                         (zip [0..<length replies - 1] replies)
               then storeResult ProtocolError None
               else if integer_reply (last replies) \<noteq> Some (revision + 1) then storeResult ProtocolError None
               else storeResult StoreOk (Some (revision + 1)))
          }
        }
      })"

section \<open>The pending stream\<close>

record PendingBlacklistEntry =
  stream_id :: string
  pending_mutation :: "BlacklistMutation option"
  pending_error :: string

record PendingReadResult =
  pending_status :: StoreStatus
  pending_entries :: "PendingBlacklistEntry list"

definition pendingReadResult :: "StoreStatus \<Rightarrow> PendingReadResult" where
  "pendingReadResult status = \<lparr>pending_status = status, pending_entries = []\<rparr>"

definition parse_pending :: "pton \<Rightarrow> ntop \<Rightarrow> RedisValue \<Rightarrow> PendingBlacklistEntry option" where
  "parse_pending pt nt raw = (case value_elements raw of
      [i, fs] \<Rightarrow>
        if value_kind raw \<noteq> KindArray \<or> value_kind i \<noteq> KindString \<or> \<not> isStreamId (value_text i) then None
        else Some (case parseStreamMutation pt nt fs of
            Inl e \<Rightarrow> \<lparr>stream_id = value_text i, pending_mutation = None, pending_error = e\<rparr>
          | Inr m \<Rightarrow> \<lparr>stream_id = value_text i, pending_mutation = Some m, pending_error = []\<rparr>)
    | _ \<Rightarrow> None)"

fun parse_all_pending :: "pton \<Rightarrow> ntop \<Rightarrow> RedisValue list \<Rightarrow> PendingBlacklistEntry list \<Rightarrow> PendingReadResult" where
  "parse_all_pending pt nt [] entries = \<lparr>pending_status = StoreOk, pending_entries = entries\<rparr>"
| "parse_all_pending pt nt (raw # rest) entries = (case parse_pending pt nt raw of
      None \<Rightarrow> pendingReadResult ProtocolError
    | Some e \<Rightarrow> parse_all_pending pt nt rest (entries @ [e]))"

definition readPending :: "pton \<Rightarrow> ntop \<Rightarrow> 's Executor \<Rightarrow> RedisKeySet \<Rightarrow> nat \<Rightarrow> ('s, PendingReadResult) state" where
  "readPending pt nt E keys count =
     (if count = 0 then State_Monad.return (pendingReadResult ProtocolError)
      else do {
        r \<leftarrow> exec_command E [''XRANGE'', key_pending keys, ''-'', ''+'', ''COUNT'', to_string count];
        State_Monad.return
          (if commandStatus r \<noteq> StoreOk then pendingReadResult (commandStatus r)
           else if value_kind (command_value r) = KindError then pendingReadResult InvalidRemoteState
           else if value_kind (command_value r) \<noteq> KindArray then pendingReadResult ProtocolError
           else parse_all_pending pt nt (value_elements (command_value r)) [])
      })"

definition deletePending :: "'s Executor \<Rightarrow> RedisKeySet \<Rightarrow> string list \<Rightarrow> ('s, StoreStatus) state" where
  "deletePending E keys stream_ids =
     (if stream_ids = [] then State_Monad.return StoreOk
      else if list_ex (\<lambda>i. \<not> isStreamId i) stream_ids then State_Monad.return ProtocolError
      else do {
        r \<leftarrow> exec_command E ([''XDEL'', key_pending keys] @ stream_ids);
        State_Monad.return
          (if commandStatus r \<noteq> StoreOk then commandStatus r
           else if value_kind (command_value r) = KindError then InvalidRemoteState
           else if integer_reply (command_value r) \<noteq> None then StoreOk else ProtocolError)
      })"

section \<open>Revisions and snapshots\<close>

definition readReadyRevision :: "'s Executor \<Rightarrow> RedisKeySet \<Rightarrow> ('s, StoreResult) state" where
  "readReadyRevision E keys = do {
     (status, revision) \<leftarrow> readWatchedReadyRevision E keys [key_users keys, key_ips keys, key_devices keys];
     State_Monad.return (storeResult status (if status = StoreOk then Some revision else None))
   }"

definition readRevision :: "'s Executor \<Rightarrow> RedisKeySet \<Rightarrow> ('s, StoreResult) state" where
  "readRevision E keys = do {
     r \<leftarrow> exec_command E [''GET'', key_revision keys];
     State_Monad.return
       (if commandStatus r \<noteq> StoreOk then storeResult (commandStatus r) None
        else if value_kind (command_value r) \<noteq> KindString then storeResult InvalidRemoteState None
        else case parseUnsigned (value_text (command_value r)) kMaxRedisInteger of
            None \<Rightarrow> storeResult InvalidRemoteState None
          | Some n \<Rightarrow> storeResult StoreOk (Some n))
   }"

record SnapshotReadResult =
  snapshot_status :: StoreStatus
  snapshot_revision :: nat
  snapshot_entries :: "BlacklistEntry list"

definition snapshotReadResult :: "StoreStatus \<Rightarrow> SnapshotReadResult" where
  "snapshotReadResult status = \<lparr>snapshot_status = status, snapshot_revision = 0, snapshot_entries = []\<rparr>"

text \<open>The scan of one hash; \<open>None\<close> when the fuel runs out before the loop ends.\<close>

fun scan_hash ::
  "pton \<Rightarrow> ntop \<Rightarrow> 's Executor \<Rightarrow> nat \<Rightarrow> nat \<Rightarrow> EntityType \<Rightarrow> string \<Rightarrow> string \<Rightarrow> BlacklistEntry list \<Rightarrow>
   ('s, (StoreStatus \<times> BlacklistEntry list) option) state" where
  "scan_hash pt nt E 0 scan_count ty key cursor entries = State_Monad.return None"
| "scan_hash pt nt E (Suc fuel) scan_count ty key cursor entries = do {
     late \<leftarrow> exec_late E;
     if late then State_Monad.return (Some (DeadlineExceeded, entries))
     else do {
       r \<leftarrow> exec_command E [''HSCAN'', key, cursor, ''COUNT'', to_string scan_count];
       let (status, cursor, entries) = parseHashScan pt nt r ty cursor entries
       in if status \<noteq> StoreOk then State_Monad.return (Some (status, entries))
          else if cursor \<noteq> ''0'' then scan_hash pt nt E fuel scan_count ty key cursor entries
          else State_Monad.return (Some (StoreOk, entries))
     }
   }"

fun scan_hashes ::
  "pton \<Rightarrow> ntop \<Rightarrow> 's Executor \<Rightarrow> nat \<Rightarrow> nat \<Rightarrow> (EntityType \<times> string) list \<Rightarrow> BlacklistEntry list \<Rightarrow>
   ('s, (StoreStatus \<times> BlacklistEntry list) option) state" where
  "scan_hashes pt nt E fuel scan_count [] entries = State_Monad.return (Some (StoreOk, entries))"
| "scan_hashes pt nt E fuel scan_count ((ty, key) # rest) entries = do {
     scanned \<leftarrow> scan_hash pt nt E fuel scan_count ty key ''0'' entries;
     case scanned of
       None \<Rightarrow> State_Monad.return None
     | Some (status, entries) \<Rightarrow>
         if status \<noteq> StoreOk then State_Monad.return (Some (status, entries))
         else scan_hashes pt nt E fuel scan_count rest entries
   }"

definition loadStableSnapshot ::
  "pton \<Rightarrow> ntop \<Rightarrow> 's Executor \<Rightarrow> RedisKeySet \<Rightarrow> nat \<Rightarrow> nat \<Rightarrow> ('s, SnapshotReadResult option) state" where
  "loadStableSnapshot pt nt E keys fuel scan_count =
     (if scan_count = 0 then State_Monad.return (Some (snapshotReadResult ProtocolError))
      else do {
        before \<leftarrow> readRevision E keys;
        case store_revision before of
          None \<Rightarrow> State_Monad.return (Some (snapshotReadResult (store_status before)))
        | Some revision \<Rightarrow> do {
            scanned \<leftarrow> scan_hashes pt nt E fuel scan_count (map (\<lambda>ty. (ty, hashKey keys ty)) entity_types) [];
            case scanned of
              None \<Rightarrow> State_Monad.return None
            | Some (status, entries) \<Rightarrow>
                if status \<noteq> StoreOk then State_Monad.return (Some (snapshotReadResult status))
                else do {
                  after \<leftarrow> readRevision E keys;
                  State_Monad.return (Some (case store_revision after of
                      None \<Rightarrow> snapshotReadResult (store_status after)
                    | Some revision' \<Rightarrow>
                        if revision' \<noteq> revision then snapshotReadResult WatchConflict
                        else \<lparr>snapshot_status = StoreOk, snapshot_revision = revision, snapshot_entries = entries\<rparr>))
                }
          }
      })"

section \<open>Removing expired fields\<close>

definition group_insert :: "EntityType \<Rightarrow> string \<Rightarrow> nat \<Rightarrow> entry_groups \<Rightarrow> entry_groups" where
  "group_insert ty i expiry groups = groups (ty := insort_key fst (i, expiry) (groups ty))"

fun group_expired :: "pton \<Rightarrow> ntop \<Rightarrow> nat \<Rightarrow> BlacklistEntry list \<Rightarrow> entry_groups \<Rightarrow> entry_groups option" where
  "group_expired pt nt now_ms [] groups = Some groups"
| "group_expired pt nt now_ms (e # rest) groups = (case mutation_disable pt nt (entry_type e) (entry_id e) of
      None \<Rightarrow> None
    | Some m \<Rightarrow>
        if mut_id m \<noteq> entry_id e \<or> expire_at_ms e = 0 \<or> expire_at_ms e > now_ms \<or> expire_at_ms e > kMaxExpireAtMs \<or>
           map_of (groups (entry_type e)) (entry_id e) \<noteq> None
        then None
        else group_expired pt nt now_ms rest (group_insert (entry_type e) (entry_id e) (expire_at_ms e) groups))"

definition nonempty_groups :: "entry_groups \<Rightarrow> EntityType list" where
  "nonempty_groups groups = filter (\<lambda>ty. groups ty \<noteq> []) entity_types"

definition field_status :: "nat \<Rightarrow> nat \<Rightarrow> RedisCommandResult \<Rightarrow> StoreStatus" where
  "field_status now_ms scanned r =
     (if commandStatus r \<noteq> StoreOk then commandStatus r
      else if value_kind (command_value r) = KindNil then WatchConflict
      else if value_kind (command_value r) \<noteq> KindString then InvalidRemoteState
      else case parseUnsigned (value_text (command_value r)) kMaxExpireAtMs of
          None \<Rightarrow> InvalidRemoteState
        | Some remote \<Rightarrow> if remote \<noteq> scanned \<or> remote = 0 \<or> remote > now_ms then WatchConflict else StoreOk)"

fun verify_fields :: "'s Executor \<Rightarrow> nat \<Rightarrow> (string \<times> string \<times> nat) list \<Rightarrow> ('s, StoreStatus) state" where
  "verify_fields E now_ms [] = State_Monad.return StoreOk"
| "verify_fields E now_ms ((key, i, scanned) # rest) = do {
     r \<leftarrow> exec_command E [''HGET'', key, i];
     if field_status now_ms scanned r \<noteq> StoreOk then State_Monad.return (field_status now_ms scanned r)
     else verify_fields E now_ms rest
   }"

text \<open>The checks under \<open>WATCH\<close>: types, revision, then every field against its scanned value.\<close>

definition check_expired ::
  "'s Executor \<Rightarrow> RedisKeySet \<Rightarrow> entry_groups \<Rightarrow> nat \<Rightarrow> nat \<Rightarrow> ('s, StoreStatus) state" where
  "check_expired E keys groups expected_revision now_ms = do {
     status \<leftarrow> ensureTypes E ((key_revision keys, ''string'', False) #
                map (\<lambda>ty. (hashKey keys ty, ''hash'', True)) (nonempty_groups groups));
     if status \<noteq> StoreOk then State_Monad.return status
     else do {
       r \<leftarrow> exec_command E [''GET'', key_revision keys];
       case revision_text r of (status, revision) \<Rightarrow>
         if status \<noteq> StoreOk then State_Monad.return status
         else if revision \<noteq> expected_revision then State_Monad.return WatchConflict
         else verify_fields E now_ms
           (concat (map (\<lambda>ty. map (\<lambda>(i, e). (hashKey keys ty, i, e)) (groups ty)) entity_types))
     }
   }"

definition expired_commands :: "RedisKeySet \<Rightarrow> entry_groups \<Rightarrow> string list list" where
  "expired_commands keys groups =
     map (\<lambda>ty. [''HDEL'', hashKey keys ty] @ map fst (groups ty)) (nonempty_groups groups) @ [[''INCR'', key_revision keys]]"

definition removeExpiredFields ::
  "pton \<Rightarrow> ntop \<Rightarrow> 's Executor \<Rightarrow> RedisKeySet \<Rightarrow> BlacklistEntry list \<Rightarrow> nat \<Rightarrow> nat \<Rightarrow> ('s, StoreResult) state" where
  "removeExpiredFields pt nt E keys expired expected_revision now_ms =
     (if expired = [] \<or> expected_revision \<ge> kMaxRedisInteger then State_Monad.return (storeResult ProtocolError None)
      else case group_expired pt nt now_ms expired (\<lambda>_. []) of
          None \<Rightarrow> State_Monad.return (storeResult ProtocolError None)
        | Some groups \<Rightarrow> do {
            status \<leftarrow> watch_keys E (key_revision keys # map (hashKey keys) (nonempty_groups groups));
            if status \<noteq> StoreOk then State_Monad.return (storeResult status None)
            else do {
              status \<leftarrow> check_expired E keys groups expected_revision now_ms;
              if status \<noteq> StoreOk
              then do { status \<leftarrow> leaveWatch E status; State_Monad.return (storeResult status None) }
              else do {
                (status, replies) \<leftarrow> transact E (expired_commands keys groups);
                State_Monad.return
                  (if status \<noteq> StoreOk then storeResult status None
                   else if map integer_reply replies \<noteq>
                     map (\<lambda>ty. Some (length (groups ty))) (nonempty_groups groups) @ [Some (expected_revision + 1)]
                   then storeResult ProtocolError None
                   else storeResult StoreOk (Some (expected_revision + 1)))
              }
            }
          })"

section \<open>Published revision and reset barrier\<close>

definition setPublishedRevision :: "'s Executor \<Rightarrow> RedisKeySet \<Rightarrow> nat \<Rightarrow> ('s, StoreStatus) state" where
  "setPublishedRevision E keys revision =
     (if revision > kMaxRedisInteger then State_Monad.return ProtocolError
      else do {
        status \<leftarrow> watch_keys E [key_published_revision keys];
        if status \<noteq> StoreOk then State_Monad.return status
        else do {
          status \<leftarrow> ensureType E (key_published_revision keys) ''string'' True;
          if status \<noteq> StoreOk then leaveWatch E status
          else do {
            (status, replies) \<leftarrow> transact E [[''SET'', key_published_revision keys, to_string revision]];
            State_Monad.return
              (if status \<noteq> StoreOk then status
               else case replies of
                   [v] \<Rightarrow> if value_kind v = KindStatus \<and> value_text v = ''OK'' then StoreOk else ProtocolError
                 | _ \<Rightarrow> ProtocolError)
          }
        }
      })"

definition requestResetBarrier :: "'s Executor \<Rightarrow> RedisKeySet \<Rightarrow> ('s, StoreResult) state" where
  "requestResetBarrier E keys = do {
     r \<leftarrow> exec_command E [''HINCRBY'', key_reset_barrier keys, ''requested'', ''1''];
     State_Monad.return
       (if commandStatus r \<noteq> StoreOk then storeResult (commandStatus r) None
        else if value_kind (command_value r) = KindError then storeResult InvalidRemoteState None
        else if value_kind (command_value r) \<noteq> KindInteger \<or> value_integer (command_value r) \<le> 0
        then storeResult ProtocolError None
        else storeResult StoreOk (Some (nat (value_integer (command_value r)))))
   }"

record ResetBarrierState =
  reset_requested :: nat
  reset_completed :: nat

record ResetReadResult =
  reset_status :: StoreStatus
  reset_state :: ResetBarrierState

definition resetReadResult :: "StoreStatus \<Rightarrow> ResetReadResult" where
  "resetReadResult status = \<lparr>reset_status = status, reset_state = \<lparr>reset_requested = 0, reset_completed = 0\<rparr>\<rparr>"

definition barrier_field :: "RedisValue \<Rightarrow> nat option" where
  "barrier_field v = (if value_kind v = KindNil then Some 0 else if value_kind v \<noteq> KindString then None
     else parseUnsigned (value_text v) kMaxRedisInteger)"

definition parse_barrier :: "RedisCommandResult \<Rightarrow> ResetReadResult" where
  "parse_barrier r =
     (if commandStatus r \<noteq> StoreOk then resetReadResult (commandStatus r)
      else if value_kind (command_value r) = KindError then resetReadResult InvalidRemoteState
      else case value_elements (command_value r) of
          [requested, completed] \<Rightarrow>
            if value_kind (command_value r) \<noteq> KindArray then resetReadResult ProtocolError
            else (case (barrier_field requested, barrier_field completed) of
                (Some q, Some c) \<Rightarrow>
                  if c > q then resetReadResult InvalidRemoteState
                  else \<lparr>reset_status = StoreOk, reset_state = \<lparr>reset_requested = q, reset_completed = c\<rparr>\<rparr>
              | _ \<Rightarrow> resetReadResult InvalidRemoteState)
        | _ \<Rightarrow> resetReadResult ProtocolError)"

definition readResetBarrier :: "'s Executor \<Rightarrow> RedisKeySet \<Rightarrow> ('s, ResetReadResult) state" where
  "readResetBarrier E keys = do {
     r \<leftarrow> exec_command E [''HMGET'', key_reset_barrier keys, ''requested'', ''completed''];
     State_Monad.return (parse_barrier r)
   }"

definition check_barrier :: "'s Executor \<Rightarrow> RedisKeySet \<Rightarrow> nat \<Rightarrow> ('s, StoreStatus) state" where
  "check_barrier E keys token = do {
     barrier \<leftarrow> readResetBarrier E keys;
     State_Monad.return
       (if reset_status barrier \<noteq> StoreOk then reset_status barrier
        else if token > reset_requested (reset_state barrier) \<or> token < reset_completed (reset_state barrier)
        then InvalidRemoteState else StoreOk)
   }"

definition completeResetBarrier :: "'s Executor \<Rightarrow> RedisKeySet \<Rightarrow> nat \<Rightarrow> ('s, StoreStatus) state" where
  "completeResetBarrier E keys token =
     (if token = 0 \<or> token > kMaxRedisInteger then State_Monad.return ProtocolError
      else do {
        status \<leftarrow> watch_keys E [key_reset_barrier keys];
        if status \<noteq> StoreOk then State_Monad.return status
        else do {
          status \<leftarrow> check_barrier E keys token;
          if status \<noteq> StoreOk then leaveWatch E status
          else do {
            (status, replies) \<leftarrow> transact E [[''HSET'', key_reset_barrier keys, ''completed'', to_string token]];
            State_Monad.return
              (if status \<noteq> StoreOk then status
               else case replies of
                   [v] \<Rightarrow> if integer_reply v = None then ProtocolError else StoreOk
                 | _ \<Rightarrow> ProtocolError)
          }
        }
      })"

record ResetConvergence =
  convergence_status :: StoreStatus
  user_count :: nat
  ip_count :: nat
  device_count :: nat
  pending_count :: nat
  convergence_revision :: "nat option"
  convergence_published :: "nat option"

definition redisAndPublicationEmpty :: "ResetConvergence \<Rightarrow> bool" where
  "redisAndPublicationEmpty c \<longleftrightarrow> convergence_status c = StoreOk \<and> user_count c = 0 \<and> ip_count c = 0 \<and>
     device_count c = 0 \<and> pending_count c = 0 \<and> convergence_revision c \<noteq> None \<and>
     convergence_published c = convergence_revision c"

fun read_counts ::
  "'s Executor \<Rightarrow> (string \<times> string \<times> (nat \<Rightarrow> ResetConvergence \<Rightarrow> ResetConvergence)) list \<Rightarrow> ResetConvergence \<Rightarrow>
   ('s, ResetConvergence) state" where
  "read_counts E [] output = State_Monad.return output"
| "read_counts E ((key, command, destination) # rest) output = do {
     r \<leftarrow> exec_command E [command, key];
     if commandStatus r \<noteq> StoreOk then State_Monad.return (output\<lparr>convergence_status := commandStatus r\<rparr>)
     else if value_kind (command_value r) = KindError
     then State_Monad.return (output\<lparr>convergence_status := InvalidRemoteState\<rparr>)
     else case integer_reply (command_value r) of
         None \<Rightarrow> State_Monad.return (output\<lparr>convergence_status := ProtocolError\<rparr>)
       | Some n \<Rightarrow> read_counts E rest (destination n output)
   }"

definition parseRevisionKey :: "'s Executor \<Rightarrow> string \<Rightarrow> ('s, StoreStatus \<times> nat option) state" where
  "parseRevisionKey E key = do {
     r \<leftarrow> exec_command E [''GET'', key];
     State_Monad.return
       (if commandStatus r \<noteq> StoreOk then (commandStatus r, None)
        else if value_kind (command_value r) = KindNil then (StoreOk, None)
        else if value_kind (command_value r) \<noteq> KindString then (InvalidRemoteState, None)
        else case parseUnsigned (value_text (command_value r)) kMaxRedisInteger of
            None \<Rightarrow> (InvalidRemoteState, None)
          | Some n \<Rightarrow> (StoreOk, Some n))
   }"

definition readResetConvergence :: "'s Executor \<Rightarrow> RedisKeySet \<Rightarrow> ('s, ResetConvergence) state" where
  "readResetConvergence E keys = do {
     output \<leftarrow> read_counts E
       [(key_users keys, ''HLEN'', \<lambda>n. user_count_update (\<lambda>_. n)), (key_ips keys, ''HLEN'', \<lambda>n. ip_count_update (\<lambda>_. n)),
        (key_devices keys, ''HLEN'', \<lambda>n. device_count_update (\<lambda>_. n)),
        (key_pending keys, ''XLEN'', \<lambda>n. pending_count_update (\<lambda>_. n))]
       \<lparr>convergence_status = StoreOk, user_count = 0, ip_count = 0, device_count = 0, pending_count = 0,
        convergence_revision = None, convergence_published = None\<rparr>;
     if convergence_status output \<noteq> StoreOk then State_Monad.return output
     else do {
       (status, revision) \<leftarrow> parseRevisionKey E (key_revision keys);
       if status \<noteq> StoreOk then State_Monad.return (output\<lparr>convergence_status := status\<rparr>)
       else do {
         (published_status, published) \<leftarrow> parseRevisionKey E (key_published_revision keys);
         State_Monad.return (output\<lparr>convergence_revision := revision, convergence_status := published_status,
           convergence_published := published\<rparr>)
       }
     }
   }"

section \<open>Rebuilding the cache\<close>

definition entry_acceptable :: "pton \<Rightarrow> ntop \<Rightarrow> BlacklistEntry \<Rightarrow> bool" where
  "entry_acceptable pt nt e \<longleftrightarrow>
     (entry_type e = EntityIp \<longrightarrow> (case ip_parse pt nt (entry_id e) of None \<Rightarrow> False | Some a \<Rightarrow> canonicalText a = entry_id e)) \<and>
     \<not> (entry_id e = [] \<or> length (entry_id e) > kMaxEntityIdBytes \<or> containsNull (entry_id e) \<or> expire_at_ms e > kMaxExpireAtMs)"

definition rebuild_groups :: "BlacklistEntry list \<Rightarrow> entry_groups" where
  "rebuild_groups entries ty = map (\<lambda>e. (entry_id e, expire_at_ms e)) (filter (\<lambda>e. entry_type e = ty) entries)"

definition rebuild_commands :: "RedisKeySet \<Rightarrow> entry_groups \<Rightarrow> string list list" where
  "rebuild_commands keys groups =
     [[''DEL'', key_users keys, key_ips keys, key_devices keys]] @
     map (\<lambda>ty. [''HSET'', hashKey keys ty] @ concat (map (\<lambda>(i, e). [i, to_string e]) (groups ty))) (nonempty_groups groups) @
     [[''INCR'', key_revision keys], [''SET'', key_cache_ready keys, ''1'']]"

definition rebuild_reply_ok :: "nat \<Rightarrow> nat \<Rightarrow> nat \<Rightarrow> RedisValue \<Rightarrow> bool" where
  "rebuild_reply_ok n previous index v =
     (if index + 1 = n then value_kind v = KindStatus \<and> value_text v = ''OK''
      else if index + 2 = n then integer_reply v = Some (previous + 1)
      else case integer_reply v of None \<Rightarrow> False | Some k \<Rightarrow> \<not> (index = 0 \<and> k > 3))"

definition previous_revision :: "RedisCommandResult \<Rightarrow> StoreStatus \<times> nat" where
  "previous_revision r =
     (if commandStatus r = StoreOk \<and> value_kind (command_value r) = KindNil then (StoreOk, 0) else revision_text r)"

text \<open>
  The checks under \<open>WATCH\<close>: the cache must not be ready and the entries must be acceptable; the
  result is the previous revision.
\<close>

definition check_rebuild ::
  "pton \<Rightarrow> ntop \<Rightarrow> 's Executor \<Rightarrow> RedisKeySet \<Rightarrow> BlacklistEntry list \<Rightarrow> ('s, StoreStatus \<times> nat) state" where
  "check_rebuild pt nt E keys entries = do {
     status \<leftarrow> ensureTypes E [(key_cache_ready keys, ''string'', True), (key_revision keys, ''string'', True),
       (key_users keys, ''hash'', True), (key_ips keys, ''hash'', True), (key_devices keys, ''hash'', True)];
     if status \<noteq> StoreOk then State_Monad.return (status, 0)
     else do {
       ready \<leftarrow> exec_command E [''GET'', key_cache_ready keys];
       if commandStatus ready \<noteq> StoreOk then State_Monad.return (commandStatus ready, 0)
       else if value_kind (command_value ready) = KindString \<and> value_text (command_value ready) = ''1''
       then State_Monad.return (WatchConflict, 0)
       else if value_kind (command_value ready) \<noteq> KindNil then State_Monad.return (InvalidRemoteState, 0)
       else do {
         revision \<leftarrow> exec_command E [''GET'', key_revision keys];
         State_Monad.return
           (if fst (previous_revision revision) \<noteq> StoreOk \<or> list_all (entry_acceptable pt nt) entries
            then previous_revision revision else (ProtocolError, 0))
       }
     }
   }"

definition rebuildFromMysql ::
  "pton \<Rightarrow> ntop \<Rightarrow> 's Executor \<Rightarrow> RedisKeySet \<Rightarrow> BlacklistEntry list \<Rightarrow> ('s, StoreResult) state" where
  "rebuildFromMysql pt nt E keys entries = do {
     status \<leftarrow> watch_keys E [key_cache_ready keys, key_revision keys, key_users keys, key_ips keys, key_devices keys];
     if status \<noteq> StoreOk then State_Monad.return (storeResult status None)
     else do {
       (status, previous) \<leftarrow> check_rebuild pt nt E keys entries;
       if status \<noteq> StoreOk
       then do { status \<leftarrow> leaveWatch E status; State_Monad.return (storeResult status None) }
       else do {
         (status, replies) \<leftarrow> transact E (rebuild_commands keys (rebuild_groups entries));
         State_Monad.return
           (if status \<noteq> StoreOk then storeResult status None
            else if length replies \<noteq> length (rebuild_commands keys (rebuild_groups entries)) \<or>
              \<not> list_all (\<lambda>(i, v). rebuild_reply_ok (length replies) previous i v) (zip [0..<length replies] replies)
            then storeResult ProtocolError None
            else storeResult StoreOk (Some (previous + 1)))
       }
     }
   }"

end
