(* ===== verification/Redis_Transactions.thy ===== *)
theory Redis_Transactions
  imports Redis_Store
begin

text \<open>
  What the store does to a Redis session: it never leaves a watch or an open transaction behind on a
  connection that is still in use, and a write either reached \<open>EXEC\<close> with exactly the intended
  commands or never reached it.  The lemmas are proved for any executor that obeys the laws of
  \<open>redis_executor\<close> and used for the connection of this program.
\<close>

section \<open>Session modes\<close>

text \<open>
  The transaction state Redis keeps for a client, as documented: \<open>WATCH\<close> sets a watch, \<open>UNWATCH\<close>
  answered with OK clears it, \<open>MULTI\<close> starts queueing, \<open>EXEC\<close> in a transaction and \<open>DISCARD\<close>
  answered with OK end it.  When the answer does not tell, both states are possible.
\<close>

datatype redis_mode = RedisIdle | RedisWatching | RedisQueueing

definition mode_after :: "string list \<times> RedisCommandResult \<Rightarrow> redis_mode \<Rightarrow> redis_mode set" where
  "mode_after e m = (case e of (argv, r) \<Rightarrow>
     if argv = [] then {m}
     else if hd argv = ''WATCH'' then (if m = RedisQueueing then {m} else if statusIs r ''OK'' then {RedisWatching} else {m, RedisWatching})
     else if hd argv = ''UNWATCH'' then (if statusIs r ''OK'' \<and> m \<noteq> RedisQueueing then {RedisIdle} else {m})
     else if hd argv = ''MULTI'' then (if statusIs r ''OK'' then {RedisQueueing} else {m, RedisQueueing})
     else if hd argv = ''DISCARD'' then (if statusIs r ''OK'' then {RedisIdle} else {m})
     else if hd argv = ''EXEC'' then (if m = RedisQueueing then {RedisIdle} else {m})
     else {m})"

definition modes :: "(string list \<times> RedisCommandResult) list \<Rightarrow> redis_mode set" where
  "modes j = foldl (\<lambda>M e. \<Union>(mode_after e ` M)) {RedisIdle} j"

definition session_commands :: "string list" where
  "session_commands = [''WATCH'', ''UNWATCH'', ''MULTI'', ''DISCARD'', ''EXEC'']"

definition plain :: "string list \<Rightarrow> bool" where
  "plain argv \<longleftrightarrow> argv \<noteq> [] \<and> hd argv \<notin> set session_commands"

lemma modes_snoc: "modes (j @ [e]) = \<Union>(mode_after e ` modes j)"
  by (simp add: modes_def)

lemma modes_plain [simp]: "plain argv \<Longrightarrow> modes (j @ [(argv, r)]) = modes j"
  by (auto simp: modes_snoc mode_after_def plain_def session_commands_def)

lemma modes_unwatch: "statusIs r ''OK'' \<Longrightarrow> modes j \<subseteq> {RedisIdle, RedisWatching} \<Longrightarrow> modes (j @ [([''UNWATCH''], r)]) \<subseteq> {RedisIdle}"
  by (auto simp: modes_snoc mode_after_def)

lemma modes_discard: "statusIs r ''OK'' \<Longrightarrow> modes (j @ [([''DISCARD''], r)]) \<subseteq> {RedisIdle}"
  by (auto simp: modes_snoc mode_after_def)

lemma modes_watch: "modes j \<subseteq> {RedisIdle} \<Longrightarrow> modes (j @ [(''WATCH'' # keys, r)]) \<subseteq> {RedisIdle, RedisWatching}"
  by (auto simp: modes_snoc mode_after_def split: if_splits)

lemma modes_multi: "statusIs r ''OK'' \<Longrightarrow> modes (j @ [([''MULTI''], r)]) \<subseteq> {RedisQueueing}"
  by (auto simp: modes_snoc mode_after_def)

lemma modes_exec: "modes j \<subseteq> {RedisQueueing} \<Longrightarrow> modes (j @ [([''EXEC''], r)]) \<subseteq> {RedisIdle}"
  by (auto simp: modes_snoc mode_after_def)

lemma plain_cons [simp]: "plain (name # args) \<longleftrightarrow> name \<notin> set session_commands"
  by (simp add: plain_def)

lemma plain_names [simp]:
  "''TYPE'' \<notin> set session_commands" "''GET'' \<notin> set session_commands" "''HGET'' \<notin> set session_commands"
  "''HSET'' \<notin> set session_commands" "''HDEL'' \<notin> set session_commands" "''DEL'' \<notin> set session_commands"
  "''XADD'' \<notin> set session_commands" "''INCR'' \<notin> set session_commands" "''SET'' \<notin> set session_commands"
  "''XRANGE'' \<notin> set session_commands" "''XDEL'' \<notin> set session_commands" "''HSCAN'' \<notin> set session_commands"
  "''HINCRBY'' \<notin> set session_commands" "''HMGET'' \<notin> set session_commands" "''HLEN'' \<notin> set session_commands"
  "''XLEN'' \<notin> set session_commands"
  by (simp_all add: session_commands_def)

lemma apply_commands_plain: "list_all plain (apply_commands keys ms)"
  by (auto simp: apply_commands_def mutation_commands_def Let_def list_all_iff)

lemma expired_commands_plain: "list_all plain (expired_commands keys groups)"
  by (auto simp: expired_commands_def list_all_iff)

lemma rebuild_commands_plain: "list_all plain (rebuild_commands keys groups)"
  by (auto simp: rebuild_commands_def list_all_iff)

declare commandStatus.simps [simp del]

lemma commandStatus_Ok [simp]: "commandStatus r = StoreOk \<longleftrightarrow> command_status r = CommandOk"
  by (simp add: commandStatus.simps split: RedisCommandStatus.splits)

lemma ready_status_Ok: "ready_status r = StoreOk \<Longrightarrow> command_status r = CommandOk"
  by (simp add: ready_status_def split: if_splits)

lemma revision_text_Ok:
  "revision_text r = (StoreOk, n) \<Longrightarrow> command_status r = CommandOk \<and> value_kind (command_value r) = KindString \<and>
     value_text (command_value r) = to_string n \<and> n < kMaxRedisInteger"
  by (auto simp: revision_text_def parseUnsigned_Some kMaxRedisInteger_def split: if_splits option.splits)

lemma parse_barrier_Ok: "reset_status (parse_barrier r) = StoreOk \<Longrightarrow> command_status r = CommandOk"
  by (simp add: parse_barrier_def resetReadResult_def split: if_splits)

lemma field_status_Ok:
  "field_status now_ms scanned r = StoreOk \<Longrightarrow> command_status r = CommandOk \<and> value_kind (command_value r) = KindString \<and>
     value_text (command_value r) = to_string scanned \<and> 0 < scanned \<and> scanned \<le> now_ms"
  by (auto simp: field_status_def parseUnsigned_Some split: if_splits option.splits)

lemma groups_flat:
  "(\<forall>(key, i, e) \<in> set (concat (map (\<lambda>ty. map (\<lambda>(i, e). (hashKey keys ty, i, e)) (groups ty)) entity_types)). P key i e) \<longleftrightarrow>
   (\<forall>ty. \<forall>(i, e) \<in> set (groups ty). P (hashKey keys ty) i e)"
proof -
  have "set entity_types = UNIV" using EntityType.exhaust by (auto simp: entity_types_def)
  then show ?thesis by auto
qed

lemma statusIs_Ok: "statusIs r tx \<Longrightarrow> command_status r = CommandOk"
  by (simp add: statusIs_def)

section \<open>What was handed over\<close>

type_synonym redis_journal = "(string list \<times> RedisCommandResult) list"

text \<open>
  Between two journals: no \<open>EXEC\<close> was handed over; one was, and Redis refused it because a watched
  key had changed; or a transaction of exactly the given commands was executed with these replies.
\<close>

definition not_executed :: "redis_journal \<Rightarrow> redis_journal \<Rightarrow> bool" where
  "not_executed j j' \<longleftrightarrow> (\<exists>k. j' = j @ k \<and> [''EXEC''] \<notin> fst ` set k)"

definition exec_refused :: "redis_journal \<Rightarrow> redis_journal \<Rightarrow> bool" where
  "exec_refused j j' \<longleftrightarrow> (\<exists>k ex. j' = j @ k @ [([''EXEC''], ex)] \<and> [''EXEC''] \<notin> fst ` set k \<and>
     command_status ex = CommandOk \<and> value_kind (command_value ex) = KindNil)"

definition executed_journal :: "string list list \<Rightarrow> RedisValue list \<Rightarrow> redis_journal \<Rightarrow> redis_journal \<Rightarrow> bool" where
  "executed_journal argvs replies j j' \<longleftrightarrow> (\<exists>multi qs ex. length qs = length argvs \<and>
     j' = j @ [([''MULTI''], multi)] @ zip argvs qs @ [([''EXEC''], ex)] \<and>
     command_status ex = CommandOk \<and> value_kind (command_value ex) = KindArray \<and> value_elements (command_value ex) = replies)"

definition reads_events :: "redis_journal \<Rightarrow> bool" where
  "reads_events j \<longleftrightarrow> list_all (plain \<circ> fst) j"

text \<open>What the checks of an operation saw.\<close>

definition saw_ready :: "RedisKeySet \<Rightarrow> nat \<Rightarrow> redis_journal \<Rightarrow> bool" where
  "saw_ready keys revision j \<longleftrightarrow> (\<exists>r1 r2. ([''GET'', key_cache_ready keys], r1) \<in> set j \<and> ready_status r1 = StoreOk \<and>
     ([''GET'', key_revision keys], r2) \<in> set j \<and> revision_text r2 = (StoreOk, revision))"

definition saw_expired :: "RedisKeySet \<Rightarrow> entry_groups \<Rightarrow> nat \<Rightarrow> nat \<Rightarrow> redis_journal \<Rightarrow> bool" where
  "saw_expired keys groups revision now_ms j \<longleftrightarrow>
     (\<exists>r. ([''GET'', key_revision keys], r) \<in> set j \<and> revision_text r = (StoreOk, revision)) \<and>
     (\<forall>ty. \<forall>(i, scanned) \<in> set (groups ty). \<exists>r. ([''HGET'', hashKey keys ty, i], r) \<in> set j \<and> field_status now_ms scanned r = StoreOk)"

definition saw_not_ready :: "RedisKeySet \<Rightarrow> nat \<Rightarrow> redis_journal \<Rightarrow> bool" where
  "saw_not_ready keys revision j \<longleftrightarrow>
     (\<exists>r. ([''GET'', key_cache_ready keys], r) \<in> set j \<and> command_status r = CommandOk \<and> value_kind (command_value r) = KindNil) \<and>
     (\<exists>r. ([''GET'', key_revision keys], r) \<in> set j \<and>
        (revision_text r = (StoreOk, revision) \<or>
         command_status r = CommandOk \<and> value_kind (command_value r) = KindNil \<and> revision = 0))"

definition last_is :: "nat \<Rightarrow> RedisValue list \<Rightarrow> bool" where
  "last_is revision replies \<longleftrightarrow> integer_reply (last replies) = Some revision"

definition expired_answered :: "entry_groups \<Rightarrow> nat \<Rightarrow> RedisValue list \<Rightarrow> bool" where
  "expired_answered groups revision replies \<longleftrightarrow>
     map integer_reply replies = map (\<lambda>ty. Some (length (groups ty))) (nonempty_groups groups) @ [Some revision]"

definition rebuild_answered :: "string list list \<Rightarrow> nat \<Rightarrow> RedisValue list \<Rightarrow> bool" where
  "rebuild_answered cmds revision replies \<longleftrightarrow> length replies = length cmds \<and>
     list_all (\<lambda>(i, v). rebuild_reply_ok (length replies) (revision - 1) i v) (zip [0..<length replies] replies)"

definition saw_barrier :: "RedisKeySet \<Rightarrow> nat \<Rightarrow> redis_journal \<Rightarrow> bool" where
  "saw_barrier keys token j \<longleftrightarrow> (\<exists>r. ([''HMGET'', key_reset_barrier keys, ''requested'', ''completed''], r) \<in> set j \<and>
     reset_status (parse_barrier r) = StoreOk \<and> token \<le> reset_requested (reset_state (parse_barrier r)) \<and>
     reset_completed (reset_state (parse_barrier r)) \<le> token)"

definition apply_keys :: "RedisKeySet \<Rightarrow> BlacklistMutation list \<Rightarrow> string list" where
  "apply_keys keys ms = [key_cache_ready keys, key_pending keys, key_revision keys] @ touched_keys keys ms"

section \<open>Any executor\<close>

text \<open>
  \<open>within M s\<close>: the connection is gone, or its session is in one of the modes \<open>M\<close>.  \<open>reads s s'\<close>: only
  commands that leave the mode alone were handed over.  \<open>no_exec s s'\<close>: no \<open>EXEC\<close> was handed over.
\<close>

context redis_executor
begin

definition within :: "redis_mode set \<Rightarrow> 's \<Rightarrow> bool" where
  "within M s \<longleftrightarrow> (connected s \<longrightarrow> modes (journal s) \<subseteq> M)"

definition reads :: "'s \<Rightarrow> 's \<Rightarrow> bool" where
  "reads s s' \<longleftrightarrow> (\<exists>j. journal s' = journal s @ j \<and> reads_events j) \<and> (\<forall>M. within M s \<longrightarrow> within M s')"

definition no_exec :: "'s \<Rightarrow> 's \<Rightarrow> bool" where
  "no_exec s s' \<longleftrightarrow> not_executed (journal s) (journal s')"

definition reader :: "('s, 'a) state \<Rightarrow> bool" where
  "reader m \<longleftrightarrow> (\<forall>s. wp m (\<lambda>_. reads s) s)"

lemma reads_refl [simp]: "reads s s"
  by (simp add: reads_def reads_events_def)

lemma reads_trans: "reads s t \<Longrightarrow> reads t u \<Longrightarrow> reads s u"
  by (fastforce simp: reads_def reads_events_def)

lemma no_exec_refl [simp]: "no_exec s s"
  by (simp add: no_exec_def not_executed_def)

lemma no_exec_trans: "no_exec s t \<Longrightarrow> no_exec t u \<Longrightarrow> no_exec s u"
  by (fastforce simp: no_exec_def not_executed_def)

lemma reads_no_exec: "reads s t \<Longrightarrow> no_exec s t"
  by (fastforce simp: no_exec_def not_executed_def reads_def reads_events_def list_all_iff session_commands_def)

lemmas exec_command_rule = command_law [THEN wp_mono]
lemmas exec_invalidate_rule = invalidate_law [THEN wp_mono]
lemmas exec_late_rule = late_law [THEN wp_mono]

lemma effect_plain: "command_effect connected journal argv s r s' \<Longrightarrow> plain argv \<Longrightarrow> reads s s'"
  by (auto simp: command_effect_def within_def reads_def reads_events_def split: RedisCommandStatus.splits)

lemma reader_return: "reader (State_Monad.return x)"
  by (simp add: reader_def wp_def)

lemma readerD: "reader m \<Longrightarrow> (\<And>r s'. reads s s' \<Longrightarrow> Q r s') \<Longrightarrow> wp m Q s"
  unfolding reader_def by (blast intro: wp_mono)

lemma reader_bind:
  assumes "reader m" "\<And>x. reader (f x)"
  shows "reader (State_Monad.bind m f)"
  unfolding reader_def [of "State_Monad.bind m f"]
  by (intro allI wp_bind readerD [OF assms(1)] readerD [OF assms(2)]) (blast intro: reads_trans)

lemma reader_command: "plain argv \<Longrightarrow> reader (exec_command E argv)"
  unfolding reader_def by (auto intro: exec_command_rule effect_plain)

lemma reader_late: "reader (exec_late E)"
  unfolding reader_def by (auto intro!: exec_late_rule simp: reads_def reads_events_def within_def)

lemma reader_if: "(b \<Longrightarrow> reader m) \<Longrightarrow> (\<not> b \<Longrightarrow> reader n) \<Longrightarrow> reader (if b then m else n)"
  by simp

lemma reader_option: "reader m \<Longrightarrow> (\<And>a. reader (f a)) \<Longrightarrow> reader (case x of None \<Rightarrow> m | Some a \<Rightarrow> f a)"
  by (simp split: option.splits)

lemma reader_prod: "(\<And>a b. reader (f a b)) \<Longrightarrow> reader (case x of (a, b) \<Rightarrow> f a b)"
  by (simp split: prod.splits)

lemma reader_let: "reader (f x) \<Longrightarrow> reader (let y = x in f y)"
  by simp

lemmas reader_rules = reader_return reader_bind reader_command reader_late reader_if reader_option reader_prod reader_let

lemma reader_ensureType: "reader (ensureType E key expected allow_none)"
  unfolding ensureType_def by (intro reader_rules) simp

lemma reader_ensureTypes: "reader (ensureTypes E keys)"
  by (induction keys) (auto intro!: reader_rules reader_ensureType)

lemma reader_ready: "reader (readWatchedReadyRevision E keys hash_keys)"
  unfolding readWatchedReadyRevision_def by (intro reader_rules reader_ensureType reader_ensureTypes) simp_all

lemma reader_verify: "reader (verify_fields E now_ms fs)"
  by (induction fs) (auto intro!: reader_rules)

lemma reader_check_expired: "reader (check_expired E keys groups expected_revision now_ms)"
  unfolding check_expired_def by (intro reader_rules reader_ensureTypes reader_verify) simp

lemma reader_check_rebuild: "reader (check_rebuild pt nt E keys entries)"
  unfolding check_rebuild_def by (intro reader_rules reader_ensureTypes) simp_all

lemma reader_barrier: "reader (readResetBarrier E keys)"
  unfolding readResetBarrier_def by (intro reader_rules) simp

lemma reader_request_barrier: "reader (requestResetBarrier E keys)"
  unfolding requestResetBarrier_def by (intro reader_rules) simp

lemma reader_pending: "reader (readPending pt nt E keys count)"
  unfolding readPending_def by (intro reader_rules) simp

lemma reader_delete: "reader (deletePending E keys ids)"
  unfolding deletePending_def by (intro reader_rules) simp

lemma reader_revision: "reader (readRevision E keys)"
  unfolding readRevision_def by (intro reader_rules) simp

lemma reader_ready_revision: "reader (readReadyRevision E keys)"
  unfolding readReadyRevision_def by (intro reader_rules reader_ready)

lemma reader_scan: "reader (scan_hash pt nt E fuel n ty key cursor entries)"
  by (induction fuel arbitrary: cursor entries) (auto intro!: reader_rules)

lemma reader_scans: "reader (scan_hashes pt nt E fuel n hs entries)"
proof (induction hs arbitrary: entries)
  case (Cons h hs)
  then show ?case by (cases h) (auto intro!: reader_rules reader_scan)
qed (auto intro!: reader_rules)

lemma reader_snapshot: "reader (loadStableSnapshot pt nt E keys fuel n)"
  unfolding loadStableSnapshot_def by (intro reader_rules reader_revision reader_scans)

lemma reader_counts: "list_all (\<lambda>(_, command, _). command \<notin> set session_commands) cs \<Longrightarrow> reader (read_counts E cs out)"
proof (induction cs arbitrary: out)
  case (Cons h hs)
  then show ?case by (cases h) (auto intro!: reader_rules)
qed (auto intro!: reader_rules)

lemma reader_convergence: "reader (readResetConvergence E keys)"
  unfolding readResetConvergence_def parseRevisionKey_def by (intro reader_rules reader_counts) simp_all

text \<open>Leaving a watch or a transaction without \<open>EXEC\<close>.\<close>

lemma unwatch_wp:
  assumes "within {RedisIdle, RedisWatching} s"
  shows "wp (unwatch E) (\<lambda>r s'. no_exec s s' \<and> (r = StoreOk \<longrightarrow> within {RedisIdle} s')) s"
  unfolding unwatch_def using assms modes_unwatch
  by (intro wp_rules exec_command_rule)
    (auto simp: command_effect_def within_def no_exec_def not_executed_def split: RedisCommandStatus.splits)

lemma discard_wp: "wp (discard E) (\<lambda>r s'. no_exec s s' \<and> (r = StoreOk \<longrightarrow> within {RedisIdle} s')) s"
  unfolding discard_def using modes_discard
  by (intro wp_rules exec_command_rule)
    (auto simp: command_effect_def within_def no_exec_def not_executed_def split: RedisCommandStatus.splits)

definition abandoned :: "'s \<Rightarrow> StoreStatus \<Rightarrow> 's \<Rightarrow> bool" where
  "abandoned s r s' \<longleftrightarrow> r \<noteq> StoreOk \<and> within {RedisIdle} s' \<and> no_exec s s'"

lemma leaveWatch_wp:
  assumes "within {RedisIdle, RedisWatching} s" "status \<noteq> StoreOk"
  shows "wp (leaveWatch E status) (abandoned s) s"
  unfolding leaveWatch_def using assms(2)
  by (intro wp_rules unwatch_wp [OF assms(1), THEN wp_mono] exec_invalidate_rule)
    (auto simp: abandoned_def within_def no_exec_def not_executed_def)

lemma leaveTransaction_wp:
  assumes "status \<noteq> StoreOk"
  shows "wp (leaveTransaction E status) (abandoned s) s"
  unfolding leaveTransaction_def using assms
  by (intro wp_rules discard_wp [THEN wp_mono] exec_invalidate_rule)
    (auto simp: abandoned_def within_def no_exec_def not_executed_def)

lemma watch_wp:
  assumes "within {RedisIdle} s"
  shows "wp (watch_keys E keys) (\<lambda>r s'. if r = StoreOk
      then within {RedisIdle, RedisWatching} s' \<and> (\<exists>w. journal s' = journal s @ [(''WATCH'' # keys, w)])
      else abandoned s r s') s"
  unfolding watch_keys_def using assms modes_watch
  by (intro wp_rules exec_command_rule exec_invalidate_rule)
    (auto simp: command_effect_def abandoned_def within_def no_exec_def not_executed_def split: RedisCommandStatus.splits)

text \<open>A prefix of commands that was queued, or the transaction was left.\<close>

definition queued :: "string list list \<Rightarrow> 's \<Rightarrow> StoreStatus \<Rightarrow> 's \<Rightarrow> bool" where
  "queued argvs s r s' \<longleftrightarrow>
     (if r = StoreOk
      then within {RedisQueueing} s' \<and> (\<exists>qs. journal s' = journal s @ zip argvs qs \<and> length qs = length argvs)
      else abandoned s r s')"

lemma abandoned_trans: "no_exec s t \<Longrightarrow> abandoned t r u \<Longrightarrow> abandoned s r u"
  by (auto simp: abandoned_def dest: no_exec_trans)

lemma queue_wp:
  assumes "within {RedisQueueing} s" "plain argv"
  shows "wp (queueOrDiscard E argv) (queued [argv] s) s"
  unfolding queueOrDiscard_def queueCommand_def
proof (intro wp_rules exec_command_rule)
  fix r s'
  assume e: "command_effect connected journal argv s r s'"
  let ?st = "if commandStatus r \<noteq> StoreOk then commandStatus r else if statusIs r ''QUEUED'' then StoreOk else ProtocolError"
  have n: "no_exec s s'" using effect_plain [OF e assms(2)] reads_no_exec by blast
  { assume "?st \<noteq> StoreOk"
    then show "wp (leaveTransaction E ?st) (queued [argv] s) s'"
      by (intro leaveTransaction_wp [THEN wp_mono]) (auto simp: queued_def abandoned_def dest: no_exec_trans [OF n]) }
  { assume "\<not> ?st \<noteq> StoreOk"
    then have "command_status r = CommandOk" by (simp split: if_splits)
    then have "within {RedisQueueing} s'" "journal s' = journal s @ zip [argv] [r]"
      using e assms by (simp_all add: command_effect_def within_def)
    then show "queued [argv] s StoreOk s'" unfolding queued_def by (metis length_Cons list.size(3)) }
qed

lemma queued_cons: "queued [argv] s StoreOk t \<Longrightarrow> plain argv \<Longrightarrow> queued argvs t r u \<Longrightarrow> queued (argv # argvs) s r u"
proof -
  assume a: "queued [argv] s StoreOk t" "plain argv" and b: "queued argvs t r u"
  then obtain q where q: "journal t = journal s @ [(argv, q)]" by (auto simp: queued_def length_Suc_conv)
  then have n: "no_exec s t" using a(2) by (auto simp: no_exec_def not_executed_def plain_def session_commands_def)
  show ?thesis
  proof (cases "r = StoreOk")
    case True
    then obtain qs where "journal u = journal t @ zip argvs qs" "length qs = length argvs" "within {RedisQueueing} u"
      using b by (auto simp: queued_def)
    then show ?thesis using True q by (auto simp: queued_def intro!: exI [of _ "q # qs"])
  next
    case False
    then show ?thesis using b abandoned_trans [OF n] by (simp add: queued_def)
  qed
qed

lemma queue_all_wp:
  assumes "within {RedisQueueing} s" "list_all plain argvs"
  shows "wp (queue_all E argvs) (queued argvs s) s"
  using assms
proof (induction argvs arbitrary: s)
  case Nil
  then show ?case by (auto intro!: wp_rules simp: queued_def)
next
  case (Cons argv argvs)
  have p: "plain argv" "list_all plain argvs" using Cons.prems by auto
  have step: "wp (queue_all E argvs) (queued (argv # argvs) s) t" if "queued [argv] s StoreOk t" for t
  proof -
    have "within {RedisQueueing} t" using that by (simp add: queued_def)
    then show ?thesis using queued_cons [OF that p(1)] by (intro Cons.IH [THEN wp_mono, OF _ p(2)])
  qed
  show ?case unfolding queue_all.simps
    by (intro wp_rules queue_wp [OF Cons.prems(1) p(1), THEN wp_mono])
      (auto simp: step, simp add: queued_def)
qed

text \<open>
  A transaction: committed with exactly the given commands; or given up before \<open>EXEC\<close>; or \<open>EXEC\<close>
  was handed over and the status tells.
\<close>

definition committed :: "string list list \<Rightarrow> 's \<Rightarrow> RedisValue list \<Rightarrow> 's \<Rightarrow> bool" where
  "committed argvs s replies s' \<longleftrightarrow> executed_journal argvs replies (journal s) (journal s')"

definition refused :: "'s \<Rightarrow> 's \<Rightarrow> bool" where
  "refused s s' \<longleftrightarrow> exec_refused (journal s) (journal s')"

definition transacted :: "string list list \<Rightarrow> 's \<Rightarrow> StoreStatus \<times> RedisValue list \<Rightarrow> 's \<Rightarrow> bool" where
  "transacted argvs s res s' \<longleftrightarrow> within {RedisIdle} s' \<and>
     (if fst res = StoreOk then committed argvs s (snd res) s'
      else no_exec s s' \<or> refused s s' \<and> fst res = WatchConflict \<or> fst res \<in> {CommitUnknown, TransactionError, ProtocolError})"

lemma exec_cases:
  assumes "execBaseStatus r \<noteq> StoreOk" "command_status r = CommandOk"
  shows "value_kind (command_value r) = KindNil \<and> execBaseStatus r = WatchConflict \<or>
    execBaseStatus r \<in> {TransactionError, ProtocolError}"
  using assms by (auto simp: execBaseStatus_def)

lemma exec_Ok_array: "execBaseStatus r = StoreOk \<Longrightarrow> command_status r = CommandOk \<and> value_kind (command_value r) = KindArray"
  by (auto simp: execBaseStatus_def split: if_splits RedisCommandStatus.splits) (cases "command_status r"; simp)

lemma exec_wp:
  assumes t: "within {RedisQueueing} t" "journal t = journal s @ [([''MULTI''], multi)] @ zip argvs qs" "length qs = length argvs"
    and p: "list_all plain argvs"
  shows "wp (State_Monad.bind (exec_command E [''EXEC'']) (\<lambda>executed. State_Monad.bind (checkedExecStatus E executed)
     (\<lambda>status. State_Monad.return (status, value_elements (command_value executed))))) (transacted argvs s) t"
proof (intro wp_bind exec_command_rule)
  fix r u
  assume e: "command_effect connected journal [''EXEC''] t r u"
  have ne: "[''EXEC''] \<notin> fst ` set ([([''MULTI''], multi)] @ zip argvs qs)"
  proof -
    have "[''EXEC''] \<notin> set argvs" using p by (auto simp: list_all_iff session_commands_def)
    then show ?thesis using set_zip_leftD by fastforce
  qed
  show "wp (checkedExecStatus E r) (\<lambda>status. wp (State_Monad.return (status, value_elements (command_value r))) (transacted argvs s)) u"
  proof (cases "command_status r = CommandOk")
    case True
    then have j: "connected t" "journal u = journal t @ [([''EXEC''], r)]" using e by (simp_all add: command_effect_def)
    then have u: "within {RedisIdle} u" "journal u = journal s @ ([([''MULTI''], multi)] @ zip argvs qs) @ [([''EXEC''], r)]"
      using t(1,2) modes_exec [of "journal t" r] by (simp_all add: within_def)
    have "transacted argvs s (execBaseStatus r, value_elements (command_value r)) u"
    proof (cases "execBaseStatus r = StoreOk")
      case ok: True
      then have "committed argvs s (value_elements (command_value r)) u"
        unfolding committed_def executed_journal_def using exec_Ok_array [OF ok] u(2) t(3)
        by (intro exI [of _ multi] exI [of _ qs] exI [of _ r]) simp
      then show ?thesis using u(1) ok by (simp add: transacted_def)
    next
      case False
      have "refused s u" if "value_kind (command_value r) = KindNil" using u(2) ne that True unfolding refused_def exec_refused_def by blast
      then show ?thesis using u(1) False exec_cases [OF False True] by (auto simp: transacted_def)
    qed
    then show ?thesis unfolding checkedExecStatus_def using True by (intro wp_rules) simp_all
  next
    case False
    have "no_exec s u" if "command_status r = CommandDeadlineExceeded"
      using e that t(2) ne by (auto simp: command_effect_def no_exec_def not_executed_def)
    then have "transacted argvs s (execBaseStatus r, value_elements (command_value r)) v"
      if "\<not> connected v \<and> journal v = journal u" for v
      using False that by (cases "command_status r") (auto simp: transacted_def within_def execBaseStatus_def no_exec_def not_executed_def)
    then show ?thesis unfolding checkedExecStatus_def using False
      by (intro wp_rules exec_invalidate_rule) simp_all
  qed
qed

lemma transact_wp:
  assumes "list_all plain argvs"
  shows "wp (transact E argvs) (transacted argvs s) s"
  unfolding transact_def
proof (intro wp_rules exec_command_rule)
  fix r t
  assume e: "command_effect connected journal [''MULTI''] s r t"
  have n: "no_exec s t" using e by (auto simp: command_effect_def no_exec_def not_executed_def split: RedisCommandStatus.splits)
  have gone: "transacted argvs s (st, []) u" if "abandoned t st u" for st u
    using that no_exec_trans [OF n] by (auto simp: transacted_def abandoned_def)
  show "wp (leaveTransaction E (if commandStatus r = StoreOk then ProtocolError else commandStatus r))
      (\<lambda>status. wp (State_Monad.return (status, [])) (transacted argvs s)) t"
    by (intro leaveTransaction_wp [THEN wp_mono] wp_rules) (auto simp: gone)
  assume "\<not> (commandStatus r \<noteq> StoreOk \<or> \<not> statusIs r ''OK'')"
  then have t: "within {RedisQueueing} t" "journal t = journal s @ [([''MULTI''], r)]"
    using e modes_multi by (auto simp: command_effect_def within_def)
  show "wp (queue_all E argvs) (\<lambda>status. wp (if status \<noteq> StoreOk then State_Monad.return (status, [])
     else State_Monad.bind (exec_command E [''EXEC'']) (\<lambda>executed. State_Monad.bind (checkedExecStatus E executed)
       (\<lambda>status. State_Monad.return (status, value_elements (command_value executed))))) (transacted argvs s)) t"
  proof (intro queue_all_wp [OF t(1) assms, THEN wp_mono] wp_if)
    fix status u assume q: "queued argvs t status u"
    { assume "status \<noteq> StoreOk"
      then show "wp (State_Monad.return (status, [])) (transacted argvs s) u"
        using q gone by (intro wp_rules) (simp add: queued_def) }
    { assume "\<not> status \<noteq> StoreOk"
      then obtain qs where "within {RedisQueueing} u" "journal u = journal s @ [([''MULTI''], r)] @ zip argvs qs" "length qs = length argvs"
        using q t(2) by (auto simp: queued_def)
      then show "wp (State_Monad.bind (exec_command E [''EXEC'']) (\<lambda>executed. State_Monad.bind (checkedExecStatus E executed)
       (\<lambda>status. State_Monad.return (status, value_elements (command_value executed))))) (transacted argvs s) u"
        by (rule exec_wp [OF _ _ _ assms]) }
  qed
qed

text \<open>A writing operation up to its transaction: watch, read, then leave or transact.\<close>

definition unwritten :: "'s \<Rightarrow> 's \<Rightarrow> bool" where
  "unwritten s s' \<longleftrightarrow> no_exec s s' \<or> refused s s'"

lemma refused_trans: "no_exec s t \<Longrightarrow> refused t u \<Longrightarrow> refused s u"
proof -
  assume "no_exec s t" "refused t u"
  then obtain k k' ex where "journal t = journal s @ k" "[''EXEC''] \<notin> fst ` set k" "[''EXEC''] \<notin> fst ` set k'"
    "journal u = journal t @ k' @ [([''EXEC''], ex)]" "command_status ex = CommandOk" "value_kind (command_value ex) = KindNil"
    unfolding no_exec_def not_executed_def refused_def exec_refused_def by blast
  then show ?thesis unfolding refused_def exec_refused_def by (intro exI [of _ "k @ k'"] exI [of _ ex]) auto
qed

lemma unwritten_trans: "no_exec s t \<Longrightarrow> unwritten t u \<Longrightarrow> unwritten s u"
  unfolding unwritten_def using no_exec_trans refused_trans by blast

definition failed :: "'s \<Rightarrow> StoreStatus \<Rightarrow> 's \<Rightarrow> bool" where
  "failed s status s' \<longleftrightarrow> status \<noteq> StoreOk \<and> within {RedisIdle} s' \<and>
     (unwritten s s' \<or> status \<in> {CommitUnknown, TransactionError, ProtocolError})"

lemma failed_abandoned: "no_exec s t \<Longrightarrow> abandoned t status s' \<Longrightarrow> failed s status s'"
  using no_exec_trans by (auto simp: failed_def abandoned_def unwritten_def)

lemma failed_transacted: "no_exec s t \<Longrightarrow> transacted argvs t (status, replies) s' \<Longrightarrow> status \<noteq> StoreOk \<Longrightarrow> failed s status s'"
  using unwritten_trans by (auto simp: failed_def transacted_def unwritten_def)

lemma failed_reply: "within {RedisIdle} s' \<Longrightarrow> failed s ProtocolError s'"
  by (simp add: failed_def)

text \<open>An answered read is an event of the journal.\<close>

definition saw :: "'s \<Rightarrow> 's \<Rightarrow> string list \<times> RedisCommandResult \<Rightarrow> bool" where
  "saw s s' e \<longleftrightarrow> e \<in> set (drop (length (journal s)) (journal s'))"

lemma saw_step: "reads s t \<Longrightarrow> reads t u \<Longrightarrow> reads s u \<and> (\<forall>e. saw s t e \<or> saw t u e \<longrightarrow> saw s u e)"
  by (auto intro: reads_trans) (auto simp: saw_def reads_def)

lemma reader_step:
  assumes "reader m" "reads s t" "\<And>r u. reads s u \<Longrightarrow> (\<And>e. saw s t e \<Longrightarrow> saw s u e) \<Longrightarrow> Q r u"
  shows "wp m Q t"
  using saw_step [OF assms(2)] assms(3) by (intro readerD [OF assms(1)]) blast

lemma command_step:
  assumes "plain argv" "reads s t"
    and "\<And>r u. reads s u \<Longrightarrow> (\<And>e. saw s t e \<Longrightarrow> saw s u e) \<Longrightarrow> (command_status r = CommandOk \<Longrightarrow> saw s u (argv, r)) \<Longrightarrow> Q r u"
  shows "wp (exec_command E argv) Q t"
proof (intro exec_command_rule)
  fix r u assume e: "command_effect connected journal argv t r u"
  note step = saw_step [OF assms(2) effect_plain [OF e assms(1)]]
  have "saw s u (argv, r)" if "command_status r = CommandOk"
    using that e step by (simp add: command_effect_def saw_def)
  then show "Q r u" using step assms(3) by blast
qed

lemma ready_wp:
  "wp (readWatchedReadyRevision E keys hash_keys) (\<lambda>p u. reads s u \<and>
     (fst p = StoreOk \<longrightarrow> saw_ready keys (snd p) (drop (length (journal s)) (journal u)))) s"
  unfolding readWatchedReadyRevision_def saw_ready_def saw_def [symmetric]
  by (intro wp_rules reader_step [OF reader_ensureType] command_step [where s = s] reader_step [OF reader_ensureTypes])
    (simp_all, metis ready_status_Ok revision_text_Ok prod.collapse)

lemma verify_wp:
  assumes "reads s t"
  shows "wp (verify_fields E now_ms fs) (\<lambda>status u. reads s u \<and> (\<forall>e. saw s t e \<longrightarrow> saw s u e) \<and>
     (status = StoreOk \<longrightarrow> (\<forall>(key, i, scanned) \<in> set fs. \<exists>r. saw s u ([''HGET'', key, i], r) \<and> field_status now_ms scanned r = StoreOk))) t"
  using assms
proof (induction fs arbitrary: t)
  case Nil
  then show ?case by (auto intro!: wp_rules)
next
  case (Cons f fs)
  obtain key i scanned where f: "f = (key, i, scanned)" by (cases f)
  show ?case unfolding f verify_fields.simps
  proof (intro wp_rules command_step [OF _ Cons.prems])
    fix r u
    assume u: "reads s u" "\<And>e. saw s t e \<Longrightarrow> saw s u e" "command_status r = CommandOk \<Longrightarrow> saw s u ([''HGET'', key, i], r)"
    { assume "field_status now_ms scanned r \<noteq> StoreOk"
      then show "reads s u \<and> (\<forall>e. saw s t e \<longrightarrow> saw s u e) \<and> (field_status now_ms scanned r = StoreOk \<longrightarrow>
        (\<forall>(key, i, scanned) \<in> set ((key, i, scanned) # fs). \<exists>r. saw s u ([''HGET'', key, i], r) \<and> field_status now_ms scanned r = StoreOk))"
        using u by simp }
    { assume "\<not> field_status now_ms scanned r \<noteq> StoreOk"
      then show "wp (verify_fields E now_ms fs) (\<lambda>status v. reads s v \<and> (\<forall>e. saw s t e \<longrightarrow> saw s v e) \<and> (status = StoreOk \<longrightarrow>
        (\<forall>(key, i, scanned) \<in> set ((key, i, scanned) # fs). \<exists>r. saw s v ([''HGET'', key, i], r) \<and> field_status now_ms scanned r = StoreOk))) u"
        using u(2,3) field_status_Ok [of now_ms scanned r]
        by (intro Cons.IH [OF u(1), THEN wp_mono]) (simp, blast) }
  qed simp
qed

lemma check_expired_wp:
  "wp (check_expired E keys groups revision now_ms) (\<lambda>status u. reads s u \<and>
     (status = StoreOk \<longrightarrow> saw_expired keys groups revision now_ms (drop (length (journal s)) (journal u)))) s"
  unfolding check_expired_def saw_expired_def saw_def [symmetric]
proof (intro wp_rules reader_step [OF reader_ensureTypes] command_step [where s = s])
  fix r t status n
  assume t: "reads s t" "command_status r = CommandOk \<Longrightarrow> saw s t ([''GET'', key_revision keys], r)"
    and r: "revision_text r = (status, n)" "\<not> status \<noteq> StoreOk" "\<not> n \<noteq> revision"
  then have rt: "revision_text r = (StoreOk, revision)" by simp
  then have "saw s t ([''GET'', key_revision keys], r)" using revision_text_Ok t(2) by blast
  with rt show "wp (verify_fields E now_ms (concat (map (\<lambda>ty. map (\<lambda>(i, e). (hashKey keys ty, i, e)) (groups ty)) entity_types)))
     (\<lambda>status u. reads s u \<and> (status = StoreOk \<longrightarrow>
       (\<exists>r. saw s u ([''GET'', key_revision keys], r) \<and> revision_text r = (StoreOk, revision)) \<and>
       (\<forall>ty. \<forall>(i, scanned)\<in>set (groups ty). \<exists>r. saw s u ([''HGET'', hashKey keys ty, i], r) \<and> field_status now_ms scanned r = StoreOk))) t"
    by (intro verify_wp [OF t(1), THEN wp_mono]) (unfold groups_flat, blast)
qed simp_all

lemma check_rebuild_wp:
  "wp (check_rebuild pt nt E keys entries) (\<lambda>p u. reads s u \<and>
     (fst p = StoreOk \<longrightarrow> saw_not_ready keys (snd p) (drop (length (journal s)) (journal u)))) s"
  unfolding check_rebuild_def saw_not_ready_def saw_def [symmetric]
proof (intro wp_rules reader_step [OF reader_ensureTypes] command_step [where s = s])
  fix r1 t r2 u
  assume "\<not> commandStatus r1 \<noteq> StoreOk" "\<not> value_kind (command_value r1) \<noteq> KindNil"
    and "command_status r1 = CommandOk \<Longrightarrow> saw s t ([''GET'', key_cache_ready keys], r1)"
    and "reads s u" "\<And>e. saw s t e \<Longrightarrow> saw s u e" "command_status r2 = CommandOk \<Longrightarrow> saw s u ([''GET'', key_revision keys], r2)"
  moreover have "saw s u ([''GET'', key_revision keys], r2) \<and> (revision_text r2 = (StoreOk, snd (previous_revision r2)) \<or>
      command_status r2 = CommandOk \<and> value_kind (command_value r2) = KindNil \<and> snd (previous_revision r2) = 0)"
    if "fst (previous_revision r2) = StoreOk"
    using that calculation revision_text_Ok [of r2 "snd (revision_text r2)"]
    by (cases "revision_text r2") (auto simp: previous_revision_def split: if_splits)
  ultimately show "reads s u \<and> (fst (if fst (previous_revision r2) \<noteq> StoreOk \<or> list_all (entry_acceptable pt nt) entries
         then previous_revision r2 else (ProtocolError, 0)) = StoreOk \<longrightarrow>
       (\<exists>r. saw s u ([''GET'', key_cache_ready keys], r) \<and> command_status r = CommandOk \<and> value_kind (command_value r) = KindNil) \<and>
       (\<exists>r. saw s u ([''GET'', key_revision keys], r) \<and>
         (revision_text r = (StoreOk, snd (if fst (previous_revision r2) \<noteq> StoreOk \<or> list_all (entry_acceptable pt nt) entries
           then previous_revision r2 else (ProtocolError, 0))) \<or>
         command_status r = CommandOk \<and> value_kind (command_value r) = KindNil \<and>
           snd (if fst (previous_revision r2) \<noteq> StoreOk \<or> list_all (entry_acceptable pt nt) entries
             then previous_revision r2 else (ProtocolError, 0)) = 0)))"
    by (simp split: if_splits) blast
qed simp_all

lemma reads_journal: "reads s s' \<Longrightarrow> journal s' = journal s @ drop (length (journal s)) (journal s') \<and>
    reads_events (drop (length (journal s)) (journal s'))"
  by (auto simp: reads_def)

text \<open>The end of a writing operation, once the watch is set: leave it, or transact.\<close>

definition watched :: "string list \<Rightarrow> 's \<Rightarrow> 's \<Rightarrow> bool" where
  "watched keys s t \<longleftrightarrow> within {RedisIdle, RedisWatching} t \<and> (\<exists>w. journal t = journal s @ [(''WATCH'' # keys, w)])"

definition written :: "string list list \<Rightarrow> string list \<Rightarrow> (redis_journal \<Rightarrow> bool) \<Rightarrow> RedisValue list \<Rightarrow> 's \<Rightarrow> 's \<Rightarrow> bool" where
  "written argvs keys checked replies s s' \<longleftrightarrow> within {RedisIdle} s' \<and> (\<exists>w j. reads_events j \<and> checked j \<and>
     executed_journal argvs replies (journal s @ [(''WATCH'' # keys, w)] @ j) (journal s'))"

lemma watched_no_exec: "watched keys s t \<Longrightarrow> reads t u \<Longrightarrow> no_exec s u"
  using reads_no_exec by (fastforce simp: watched_def no_exec_def not_executed_def)

lemma watch_step:
  assumes "within {RedisIdle} s"
    and "\<And>status t. status \<noteq> StoreOk \<Longrightarrow> failed s status t \<Longrightarrow> Q status t" "\<And>t. watched keys s t \<Longrightarrow> Q StoreOk t"
  shows "wp (watch_keys E keys) Q s"
  using assms(2,3) by (intro watch_wp [OF assms(1), THEN wp_mono])
    (metis failed_abandoned no_exec_refl watched_def)

lemma leave_step:
  assumes "watched keys s t" "reads t u" "status \<noteq> StoreOk" "\<And>status' s'. failed s status' s' \<Longrightarrow> Q status' s'"
  shows "wp (leaveWatch E status) Q u"
proof (rule leaveWatch_wp [OF _ assms(3), THEN wp_mono])
  show "within {RedisIdle, RedisWatching} u" using assms(1,2) by (simp add: reads_def watched_def)
qed (use failed_abandoned watched_no_exec assms in blast)

lemma transact_step:
  assumes "watched keys s t" "reads t u" "list_all plain argvs" "checked (drop (length (journal t)) (journal u))"
    and "\<And>status replies s'. status \<noteq> StoreOk \<Longrightarrow> failed s status s' \<Longrightarrow> Q (status, replies) s'"
    and "\<And>replies s'. failed s ProtocolError s' \<Longrightarrow> written argvs keys checked replies s s' \<Longrightarrow> Q (StoreOk, replies) s'"
  shows "wp (transact E argvs) Q u"
proof (rule transact_wp [OF assms(3), THEN wp_mono])
  fix r s' assume t: "transacted argvs u r s'"
  obtain status replies where r: "r = (status, replies)" by fastforce
  show "Q r s'"
  proof (cases "status = StoreOk")
    case True
    then have x: "within {RedisIdle} s'" "executed_journal argvs replies (journal u) (journal s')"
      using t r by (auto simp: transacted_def committed_def)
    obtain w where "journal u = journal s @ [(''WATCH'' # keys, w)] @ drop (length (journal t)) (journal u)"
      using reads_journal [OF assms(2)] assms(1) by (metis append.assoc watched_def)
    then have "written argvs keys checked replies s s'"
      using x assms(4) reads_journal [OF assms(2)] unfolding written_def by metis
    then show ?thesis using True r assms(6) failed_reply x(1) by blast
  next
    case False
    then show ?thesis using assms(5) r t failed_transacted watched_no_exec [OF assms(1,2)] by blast
  qed
qed

text \<open>All writing operations have one shape: watch, check, then leave the watch or transact.\<close>

lemma write_op:
  assumes "within {RedisIdle} s" "list_all plain cmds"
    and check: "\<And>t. wp check (\<lambda>p u. reads t u \<and> (fst p = StoreOk \<longrightarrow> checked (snd p) (drop (length (journal t)) (journal u)))) t"
    and fail: "\<And>status s'. failed s status s' \<Longrightarrow> Q (g status) s'"
    and ok: "\<And>x replies s'. failed s ProtocolError s' \<Longrightarrow> written cmds keys (checked x) replies s s' \<Longrightarrow> Q (res x StoreOk replies) s'"
    and res: "\<And>x status replies. status \<noteq> StoreOk \<Longrightarrow> res x status replies = g status"
  shows "wp (State_Monad.bind (watch_keys E keys) (\<lambda>status.
      if status \<noteq> StoreOk then State_Monad.return (g status)
      else State_Monad.bind check (\<lambda>(status, x).
        if status \<noteq> StoreOk then State_Monad.bind (leaveWatch E status) (\<lambda>status. State_Monad.return (g status))
        else State_Monad.bind (transact E cmds) (\<lambda>(status, replies). State_Monad.return (res x status replies))))) Q s"
proof -
  have tail: "wp (if status \<noteq> StoreOk then State_Monad.bind (leaveWatch E status) (\<lambda>status. State_Monad.return (g status))
        else State_Monad.bind (transact E cmds) (\<lambda>(status, replies). State_Monad.return (res x status replies))) Q u"
    if w: "watched keys s t" "reads t u"
      and c: "status = StoreOk \<longrightarrow> checked x (drop (length (journal t)) (journal u))" for t u status x
    using c by (intro wp_rules leave_step [OF w] transact_step [OF w assms(2), where checked = "checked x"])
      (simp_all add: fail ok res)
  show ?thesis
    by (intro wp_bind watch_step [OF assms(1)])
      (simp_all add: wp_return fail, intro wp_bind check [THEN wp_mono] wp_prod, simp add: tail split: prod.splits)
qed

lemma write_op_plain:
  assumes "within {RedisIdle} s" "list_all plain cmds"
    and check: "\<And>t. wp check (\<lambda>status u. reads t u \<and> (status = StoreOk \<longrightarrow> checked (drop (length (journal t)) (journal u)))) t"
    and "\<And>status s'. failed s status s' \<Longrightarrow> Q (g status) s'"
    and "\<And>replies s'. failed s ProtocolError s' \<Longrightarrow> written cmds keys checked replies s s' \<Longrightarrow> Q (res StoreOk replies) s'"
    and "\<And>status replies. status \<noteq> StoreOk \<Longrightarrow> res status replies = g status"
  shows "wp (State_Monad.bind (watch_keys E keys) (\<lambda>status.
      if status \<noteq> StoreOk then State_Monad.return (g status)
      else State_Monad.bind check (\<lambda>status.
        if status \<noteq> StoreOk then State_Monad.bind (leaveWatch E status) (\<lambda>status. State_Monad.return (g status))
        else State_Monad.bind (transact E cmds) (\<lambda>(status, replies). State_Monad.return (res status replies))))) Q s"
proof -
  have "wp (State_Monad.bind check (\<lambda>st. State_Monad.return (st, ())))
      (\<lambda>p u. reads t u \<and> (fst p = StoreOk \<longrightarrow> checked (drop (length (journal t)) (journal u)))) t" for t
    by (intro wp_rules check [THEN wp_mono]) simp
  from write_op [OF assms(1,2), of _ "\<lambda>_. checked" Q g keys "\<lambda>_. res", OF this] assms(4-) show ?thesis
    by (simp cong: if_cong)
qed

section \<open>Outcomes\<close>

definition write_outcome ::
  "string list list \<Rightarrow> string list \<Rightarrow> (nat \<Rightarrow> redis_journal \<Rightarrow> bool) \<Rightarrow> (nat \<Rightarrow> RedisValue list \<Rightarrow> bool) \<Rightarrow> 's \<Rightarrow> StoreResult \<Rightarrow> 's \<Rightarrow> bool" where
  "write_outcome cmds keys checked answered s res s' \<longleftrightarrow>
     (if store_status res = StoreOk
      then \<exists>revision replies. store_revision res = Some (Suc revision) \<and> answered (Suc revision) replies \<and>
        written cmds keys (checked revision) replies s s'
      else store_revision res = None \<and> failed s (store_status res) s')"

lemma outcome_failed: "failed s status s' \<Longrightarrow> write_outcome cmds keys checked answered s (storeResult status None) s'"
  by (simp add: write_outcome_def storeResult_def failed_def)

lemma outcome_written:
  "written cmds keys (checked revision) replies s s' \<Longrightarrow> answered (Suc revision) replies \<Longrightarrow>
   write_outcome cmds keys checked answered s (storeResult StoreOk (Some (Suc revision))) s'"
  by (auto simp: write_outcome_def storeResult_def)

lemma apply_wp:
  assumes "within {RedisIdle} s"
  shows "wp (applyMutations E keys ms)
    (write_outcome (apply_commands keys ms) (apply_keys keys ms) (saw_ready keys) last_is s) s"
  unfolding applyMutations_def apply_keys_def [symmetric]
proof (rule wp_if)
  show "wp (State_Monad.return (storeResult ProtocolError None))
      (write_outcome (apply_commands keys ms) (apply_keys keys ms) (saw_ready keys) last_is s) s"
    by (intro wp_rules outcome_failed failed_reply assms)
qed (rule write_op [where checked = "saw_ready keys"],
    auto simp: apply_commands_plain assms outcome_failed outcome_written last_is_def intro!: ready_wp)

lemma expired_wp:
  assumes "within {RedisIdle} s"
  shows "wp (removeExpiredFields pt nt E keys expired revision now_ms) (\<lambda>res s'.
    case group_expired pt nt now_ms expired (\<lambda>_. []) of
      None \<Rightarrow> res = storeResult ProtocolError None \<and> s' = s
    | Some groups \<Rightarrow> write_outcome (expired_commands keys groups) (key_revision keys # map (hashKey keys) (nonempty_groups groups))
         (\<lambda>r j. r = revision \<and> saw_expired keys groups r now_ms j) (expired_answered groups) s res s') s"
proof (cases "group_expired pt nt now_ms expired (\<lambda>_. [])")
  case None
  then show ?thesis unfolding removeExpiredFields_def by (auto intro!: wp_rules)
next
  case (Some groups)
  show ?thesis unfolding removeExpiredFields_def Some option.case
    by (intro wp_if wp_return write_op_plain [OF assms expired_commands_plain check_expired_wp])
      (auto simp: outcome_failed failed_reply assms expired_answered_def intro!: outcome_written)
qed

lemma rebuild_wp:
  assumes "within {RedisIdle} s"
  shows "wp (rebuildFromMysql pt nt E keys entries)
    (write_outcome (rebuild_commands keys (rebuild_groups entries))
      [key_cache_ready keys, key_revision keys, key_users keys, key_ips keys, key_devices keys]
      (saw_not_ready keys) (rebuild_answered (rebuild_commands keys (rebuild_groups entries))) s) s"
  unfolding rebuildFromMysql_def
  by (rule write_op [OF assms rebuild_commands_plain check_rebuild_wp])
    (auto simp: outcome_failed rebuild_answered_def intro!: outcome_written)

definition status_outcome :: "string list list \<Rightarrow> string list \<Rightarrow> (redis_journal \<Rightarrow> bool) \<Rightarrow> 's \<Rightarrow> StoreStatus \<Rightarrow> 's \<Rightarrow> bool" where
  "status_outcome cmds keys checked s status s' \<longleftrightarrow>
     (if status = StoreOk then \<exists>replies. written cmds keys checked replies s s' else failed s status s')"

lemma published_wp:
  assumes "within {RedisIdle} s"
  shows "wp (setPublishedRevision E keys revision)
    (status_outcome [[''SET'', key_published_revision keys, to_string revision]] [key_published_revision keys] (\<lambda>_. True) s) s"
proof -
  have check: "wp (ensureType E key ''string'' True) (\<lambda>status u. reads t u \<and> (status = StoreOk \<longrightarrow> True)) t" for key t
    using readerD [OF reader_ensureType] by fastforce
  note op = write_op_plain [OF assms _ check, where g = "\<lambda>st. st", unfolded State_Monad.bind_right_identity]
  show ?thesis unfolding setPublishedRevision_def
    by (intro wp_if wp_return op)
      (auto simp: status_outcome_def failed_reply assms failed_def split: list.splits)
qed

lemma check_barrier_wp:
  "wp (check_barrier E keys token) (\<lambda>status u. reads s u \<and>
     (status = StoreOk \<longrightarrow> saw_barrier keys token (drop (length (journal s)) (journal u)))) s"
  unfolding check_barrier_def readResetBarrier_def saw_barrier_def saw_def [symmetric]
  by (intro wp_rules command_step [where s = s]) (auto simp: not_less dest: parse_barrier_Ok)

lemma complete_wp:
  assumes "within {RedisIdle} s"
  shows "wp (completeResetBarrier E keys token)
    (status_outcome [[''HSET'', key_reset_barrier keys, ''completed'', to_string token]] [key_reset_barrier keys]
      (saw_barrier keys token) s) s"
proof -
  note op = write_op_plain [OF assms _ check_barrier_wp, where g = "\<lambda>st. st", unfolded State_Monad.bind_right_identity]
  show ?thesis unfolding completeResetBarrier_def
    by (intro wp_if wp_return op)
      (auto simp: status_outcome_def failed_reply assms failed_def split: list.splits)
qed

end

section \<open>Sequences of calls\<close>

datatype store_call =
    ApplyMutations "BlacklistMutation list" | ReadPending nat | DeletePending "string list"
  | RebuildFromMysql "BlacklistEntry list" | ReadReadyRevision | ReadRevision | LoadStableSnapshot nat nat
  | RemoveExpiredFields "BlacklistEntry list" nat nat | SetPublishedRevision nat | RequestResetBarrier
  | ReadResetBarrier | CompleteResetBarrier nat | ReadResetConvergence

definition forget :: "('s, 'a) state \<Rightarrow> ('s, unit) state" where
  "forget m = State_Monad.bind m (\<lambda>_. State_Monad.return ())"

fun store_run :: "pton \<Rightarrow> ntop \<Rightarrow> RedisKeySet \<Rightarrow> 's Executor \<Rightarrow> store_call \<Rightarrow> ('s, unit) state" where
  "store_run pt nt keys E (ApplyMutations ms) = forget (applyMutations E keys ms)"
| "store_run pt nt keys E (ReadPending count) = forget (readPending pt nt E keys count)"
| "store_run pt nt keys E (DeletePending ids) = forget (deletePending E keys ids)"
| "store_run pt nt keys E (RebuildFromMysql entries) = forget (rebuildFromMysql pt nt E keys entries)"
| "store_run pt nt keys E ReadReadyRevision = forget (readReadyRevision E keys)"
| "store_run pt nt keys E ReadRevision = forget (readRevision E keys)"
| "store_run pt nt keys E (LoadStableSnapshot fuel count) = forget (loadStableSnapshot pt nt E keys fuel count)"
| "store_run pt nt keys E (RemoveExpiredFields es revision now) = forget (removeExpiredFields pt nt E keys es revision now)"
| "store_run pt nt keys E (SetPublishedRevision revision) = forget (setPublishedRevision E keys revision)"
| "store_run pt nt keys E RequestResetBarrier = forget (requestResetBarrier E keys)"
| "store_run pt nt keys E ReadResetBarrier = forget (readResetBarrier E keys)"
| "store_run pt nt keys E (CompleteResetBarrier token) = forget (completeResetBarrier E keys token)"
| "store_run pt nt keys E ReadResetConvergence = forget (readResetConvergence E keys)"

text \<open>A connection that is used for one call after the other, each with its own deadline.\<close>

fun store_session :: "pton \<Rightarrow> ntop \<Rightarrow> 'w Hiredis \<Rightarrow> RedisKeySet \<Rightarrow> (int \<times> store_call) list \<Rightarrow> ('w, unit) conn_action" where
  "store_session pt nt H keys [] = State_Monad.return ()"
| "store_session pt nt H keys ((deadline, call) # calls) =
     State_Monad.bind (store_run pt nt keys (conn_executor H deadline) call) (\<lambda>_. store_session pt nt H keys calls)"

lemma wp_forget: "wp m (\<lambda>_. Q ()) s \<Longrightarrow> wp (forget m) Q s"
  unfolding forget_def by (intro wp_rules) (erule wp_mono, rule wp_return)

context redis_executor
begin

lemma reader_clean: "reader m \<Longrightarrow> within M s \<Longrightarrow> wp m (\<lambda>_. within M) s"
  by (rule readerD) (auto simp: reads_def)

lemma outcome_clean: "write_outcome cmds keys checked answered s res s' \<Longrightarrow> within {RedisIdle} s'"
  by (auto simp: write_outcome_def written_def failed_def split: if_splits)

lemma status_clean: "status_outcome cmds keys checked s status s' \<Longrightarrow> within {RedisIdle} s'"
  by (auto simp: status_outcome_def written_def failed_def split: if_splits)

lemma store_run_clean:
  assumes "within {RedisIdle} s"
  shows "wp (store_run pt nt keys E call) (\<lambda>_. within {RedisIdle}) s"
proof (cases call)
  case (ApplyMutations ms)
  then show ?thesis by (auto intro!: wp_forget apply_wp [OF assms, THEN wp_mono] intro: outcome_clean)
next
  case (RebuildFromMysql es)
  then show ?thesis by (auto intro!: wp_forget rebuild_wp [OF assms, THEN wp_mono] intro: outcome_clean)
next
  case (RemoveExpiredFields es revision now)
  then show ?thesis
    by (auto intro!: wp_forget expired_wp [OF assms, THEN wp_mono] intro: outcome_clean assms split: option.splits)
next
  case (SetPublishedRevision revision)
  then show ?thesis by (auto intro!: wp_forget published_wp [OF assms, THEN wp_mono] intro: status_clean)
next
  case (CompleteResetBarrier token)
  then show ?thesis by (auto intro!: wp_forget complete_wp [OF assms, THEN wp_mono] intro: status_clean)
qed (auto intro!: wp_forget reader_clean assms reader_pending reader_delete reader_ready_revision reader_revision
    reader_snapshot reader_request_barrier reader_barrier reader_convergence)

end

section \<open>Properties\<close>

lemma conn_within: "redis_conn.within M c \<longleftrightarrow> (conn_context c \<longrightarrow> modes (conn_journal c) \<subseteq> M)"
  by (simp add: redis_conn.within_def)

lemma session_clean:
  assumes "conn_context c \<longrightarrow> modes (conn_journal c) \<subseteq> {RedisIdle}"
  shows "wp (store_session pt nt H keys calls) (\<lambda>_ c'. conn_context c' \<longrightarrow> modes (conn_journal c') \<subseteq> {RedisIdle}) c"
  using assms
proof (induction calls arbitrary: c)
  case Nil
  then show ?case by (auto intro!: wp_rules)
next
  case (Cons dc calls)
  then show ?case
    by (cases dc) (auto intro!: wp_rules redis_conn.store_run_clean [THEN wp_mono] simp: conn_within)
qed

lemma modes_reads: "reads_events j \<Longrightarrow> modes j \<subseteq> {RedisIdle}"
proof (induction j rule: rev_induct)
  case Nil
  then show ?case by (simp add: modes_def)
next
  case (snoc e j)
  then show ?case by (cases e) (auto simp: reads_events_def)
qed

lemma connected_idle:
  assumes "run_state (conn_connect H cfg deadline) closed = (True, c)" "\<not> conn_context closed"
  shows "modes (conn_journal c) \<subseteq> {RedisIdle}"
proof (rule modes_reads)
  have "plain (auth_command cfg)" "plain [''SELECT'', n]" for n
    by (simp_all add: plain_def auth_command_def session_commands_def)
  moreover have "map fst (conn_journal c) = (if redis_password cfg = [] then [] else [auth_command cfg]) @
        (if redis_database cfg = 0 then [] else [[''SELECT'', to_string (redis_database cfg)]])"
    using connect_commands [OF assms(2,1)] by simp
  ultimately have "list_all plain (map fst (conn_journal c))" by simp
  then show "reads_events (conn_journal c)" by (simp add: reads_events_def list.pred_map)
qed

lemma distinct_singleton_list: "distinct xs \<Longrightarrow> set xs = {x} \<Longrightarrow> xs = [x]"
  by (cases xs; cases "tl xs") auto

lemma group_expired_sorted:
  assumes "group_expired pt nt now es g = Some g'" "\<forall>ty. sorted (map fst (g ty)) \<and> distinct (map fst (g ty))"
  shows "\<forall>ty. sorted (map fst (g' ty)) \<and> distinct (map fst (g' ty))"
  using assms
proof (induction es arbitrary: g)
  case (Cons x es)
  let ?g = "group_insert (entry_type x) (entry_id x) (expire_at_ms x) g"
  have "group_expired pt nt now es ?g = Some g'" "map_of (g (entry_type x)) (entry_id x) = None"
    using Cons.prems(1) by (auto split: option.splits if_splits)
  moreover from this(2) have "\<forall>ty. sorted (map fst (?g ty)) \<and> distinct (map fst (?g ty))"
    using Cons.prems(2) by (simp add: group_insert_def sorted_insort_key distinct_insort_key map_of_eq_None_iff)
  ultimately show ?case using Cons.IH by blast
qed simp

lemma group_expired_set:
  assumes "group_expired pt nt now es g = Some g'"
  shows "(i, e) \<in> set (g' ty) \<longleftrightarrow> (i, e) \<in> set (g ty) \<or> (\<exists>x \<in> set es. entry_type x = ty \<and> entry_id x = i \<and> expire_at_ms x = e)"
  using assms
proof (induction es arbitrary: g)
  case (Cons x es)
  then have "group_expired pt nt now es (group_insert (entry_type x) (entry_id x) (expire_at_ms x) g) = Some g'"
    by (auto split: option.splits if_splits)
  from Cons.IH [OF this] show ?case by (auto simp: group_insert_def set_insort_key)
qed simp

lemma saw_expired_fields:
  assumes "saw_expired keys groups revision now_ms j" "(i, e) \<in> set (groups ty)"
  shows "0 < e \<and> e \<le> now_ms \<and> (\<exists>r. ([''HGET'', hashKey keys ty, i], r) \<in> set j \<and> value_text (command_value r) = to_string e)"
proof -
  obtain r where "([''HGET'', hashKey keys ty, i], r) \<in> set j" "field_status now_ms e r = StoreOk"
    using assms unfolding saw_expired_def by fast
  then show ?thesis using field_status_Ok by blast
qed

text \<open>The replies of a successful run: watch, checks, transaction.\<close>

definition example_keys :: RedisKeySet where
  "example_keys = fromPrefix ''k''"

definition example_batch :: "BlacklistMutation list" where
  "example_batch = [\<lparr>mut_operation = OpUpsert, mut_entity_type = Some EntityUser, mut_id = ''u'', mut_reason = ''r'',
     mut_expire_at_ms = 9\<rparr>]"

definition apply_answers :: "redisReply list" where
  "apply_answers = [reply_ok, reply_status ''string'', reply_string ''1'', reply_status ''stream'', reply_status ''string'',
     reply_status ''hash'', reply_string ''5'', reply_ok, reply_status ''QUEUED'', reply_status ''QUEUED'', reply_status ''QUEUED'',
     reply_array [reply_int 1, reply_string ''1-0'', reply_int 6]]"

lemmas example_unfold = conn_executor_def example_command kIntMax_def statusIs_def successfulCommand_def
  commandStatus.simps watch_keys_def readWatchedReadyRevision_def ensureType_def ready_status_def revision_text_def
  transact_def queueOrDiscard_def queueCommand_def checkedExecStatus_def execBaseStatus_def integer_reply_def
  parseUnsigned_def from_chars_def is_digit_def digits_value_def digit_value_def kMaxRedisInteger_def storeResult_def

lemma to_string_example: "to_string 9 = ''9''"
  by code_simp

lemma example_apply:
  "store_status (fst (run_state (applyMutations (conn_executor example_hiredis 5000000) example_keys example_batch)
     (example_open apply_answers))) = StoreOk"
  by (simp add: applyMutations_def batch_shape_ok_def example_batch_def example_keys_def fromPrefix_def example_open_def
      apply_answers_def touched_keys_def apply_commands_def mutation_commands_def streamFields_def apply_reply_ok_def
      Let_def example_unfold)

lemma example_idle: "conn_context (example_open answers) \<longrightarrow> modes (conn_journal (example_open answers)) \<subseteq> {RedisIdle}"
  by (simp add: example_open_def modes_def)

text \<open>
  C6.  No transaction is left behind.  A connection that was opened and then used for any sequence of
  store operations, whatever the server answers and however the deadlines fall, has either been
  dropped or has neither a watch nor an open transaction, so no operation runs in the transaction of
  an earlier one.
\<close>

theorem store_leaves_no_transaction:
  assumes "run_state (conn_connect H cfg deadline) closed = (True, c)" "\<not> conn_context closed"
    and "run_state (store_session pt nt H keys calls) c = (u, c')"
  shows "conn_context c' \<longrightarrow> modes (conn_journal c') \<subseteq> {RedisIdle}"
  using wp_run [OF session_clean assms(3)] connected_idle [OF assms(1,2)] by blast

theorem store_leaves_no_transaction_witness:
  "\<exists>c'. run_state (store_session example_pton example_ntop example_hiredis example_keys
       [(5000000, ApplyMutations example_batch), (5000000, ReadRevision)])
       (example_open (apply_answers @ [reply_string ''6''])) = ((), c') \<and>
     conn_context c' \<and> modes (conn_journal c') \<subseteq> {RedisIdle}"
proof -
  obtain c' where r: "run_state (store_session example_pton example_ntop example_hiredis example_keys
       [(5000000, ApplyMutations example_batch), (5000000, ReadRevision)])
       (example_open (apply_answers @ [reply_string ''6''])) = ((), c')"
    by (metis old.unit.exhaust prod.exhaust)
  have "conn_context (snd (run_state (store_session example_pton example_ntop example_hiredis example_keys
       [(5000000, ApplyMutations example_batch), (5000000, ReadRevision)])
       (example_open (apply_answers @ [reply_string ''6'']))))"
    by (simp add: forget_def readRevision_def applyMutations_def batch_shape_ok_def example_batch_def example_keys_def
        fromPrefix_def example_open_def apply_answers_def touched_keys_def apply_commands_def mutation_commands_def
        streamFields_def apply_reply_ok_def Let_def example_unfold)
  then have "conn_context c'" using r by simp
  moreover have "\<not> conn_context (example_closed (apply_answers @ [reply_string ''6'']))"
    by (simp add: example_closed_def)
  ultimately show ?thesis using store_leaves_no_transaction [OF example_connects _ r] r by blast
qed

text \<open>
  C7.  A batch of mutations is written completely or not at all.  When the store reports success, the
  server executed one transaction that consists of exactly the hash and stream commands of the batch
  in order and the increment of the revision, after the cache was seen ready and the revision was
  read under the watch, and the new revision is the read one plus one, as the server confirmed.
  When it reports a conflict, an unready or damaged cache, a deadline or an I/O error, no
  transaction was executed; only an unknown commit, a transaction error or a protocol error leave
  that open.
\<close>

theorem apply_all_or_nothing:
  assumes "conn_context c \<longrightarrow> modes (conn_journal c) \<subseteq> {RedisIdle}"
    and "run_state (applyMutations (conn_executor H deadline) keys ms) c = (res, c')"
  shows "(store_status res = StoreOk \<longrightarrow> (\<exists>revision w j replies. store_revision res = Some (Suc revision) \<and>
      reads_events j \<and> saw_ready keys revision j \<and> last_is (Suc revision) replies \<and>
      executed_journal
        ((if mut_operation (hd ms) = OpClearAll
          then [[''DEL'', key_users keys, key_ips keys, key_devices keys],
                [''XADD'', key_pending keys, ''*''] @ streamFields (hd ms)]
          else concat (map (\<lambda>m.
            [if mut_operation m = OpUpsert
             then [''HSET'', hashKey keys (the (mut_entity_type m)), mut_id m, to_string (mut_expire_at_ms m)]
             else [''HDEL'', hashKey keys (the (mut_entity_type m)), mut_id m],
             [''XADD'', key_pending keys, ''*''] @ streamFields m]) ms)) @
         [[''INCR'', key_revision keys]]) replies
        (conn_journal c @ [(''WATCH'' # apply_keys keys ms, w)] @ j) (conn_journal c'))) \<and>
    (store_status res \<notin> {StoreOk, CommitUnknown, TransactionError, ProtocolError} \<longrightarrow>
      store_revision res = None \<and>
      (not_executed (conn_journal c) (conn_journal c') \<or> exec_refused (conn_journal c) (conn_journal c')))"
proof -
  have "redis_conn.write_outcome (apply_commands keys ms) (apply_keys keys ms) (saw_ready keys) last_is c res c'"
    using wp_run [OF redis_conn.apply_wp assms(2)] assms(1) conn_within by blast
  then show ?thesis
    unfolding apply_commands_def mutation_commands_def Let_def redis_conn.write_outcome_def redis_conn.written_def redis_conn.failed_def redis_conn.unwritten_def
      redis_conn.no_exec_def redis_conn.refused_def by (auto split: if_splits)
qed

theorem apply_all_or_nothing_witness:
  "\<exists>res c' w j replies. run_state (applyMutations (conn_executor example_hiredis 5000000) example_keys example_batch)
       (example_open apply_answers) = (res, c') \<and>
     executed_journal [[''HSET'', ''k:user'', ''u'', ''9''],
        [''XADD'', ''k:pending'', ''*'', ''operation'', ''UPSERT'', ''type'', ''USER'', ''id'', ''u'', ''reason'', ''r'', ''expire_at_ms'', ''9''],
        [''INCR'', ''k:revision'']] replies (w # j) (conn_journal c')"
proof -
  obtain res c' where r: "run_state (applyMutations (conn_executor example_hiredis 5000000) example_keys example_batch)
       (example_open apply_answers) = (res, c')" by fastforce
  show ?thesis using apply_all_or_nothing [OF example_idle r] example_apply r
    by (auto simp: example_batch_def example_keys_def fromPrefix_def streamFields_def to_string_example example_open_def)
qed

text \<open>
  C8.  Cleaning never deletes a ban that is in force.  When the removal of expired fields reports
  success, exactly one transaction was executed; it deletes exactly the given entries, each once, and
  increments the revision; every entry has an expiry that has passed, and was read again under the
  watch with that same expiry; the revision read under the watch was the expected one, and the reported
  one is its successor.  A renewed ban is therefore never removed: any other outcome that rules out a
  commit left the server unchanged.
\<close>

theorem expired_fields_safe:
  assumes "conn_context c \<longrightarrow> modes (conn_journal c) \<subseteq> {RedisIdle}"
    and "run_state (removeExpiredFields pt nt (conn_executor H deadline) keys expired revision now_ms) c = (res, c')"
  shows "(store_status res = StoreOk \<longrightarrow> store_revision res = Some (Suc revision) \<and> (\<exists>groups w j replies.
      (\<forall>ty i e. (i, e) \<in> set (groups ty) \<longleftrightarrow> (\<exists>x \<in> set expired. entry_type x = ty \<and> entry_id x = i \<and> expire_at_ms x = e)) \<and>
      (\<forall>ty. sorted (map fst (groups ty)) \<and> distinct (map fst (groups ty))) \<and>
      reads_events j \<and>
      executed_journal
        (map (\<lambda>ty. [''HDEL'', hashKey keys ty] @ map fst (groups ty))
           (filter (\<lambda>ty. groups ty \<noteq> []) [EntityUser, EntityIp, EntityDevice]) @ [[''INCR'', key_revision keys]]) replies
        (conn_journal c @ [(''WATCH'' # key_revision keys # map (hashKey keys)
           (filter (\<lambda>ty. groups ty \<noteq> []) [EntityUser, EntityIp, EntityDevice]), w)] @ j) (conn_journal c') \<and>
      (\<exists>r. ([''GET'', key_revision keys], r) \<in> set j \<and> revision_text r = (StoreOk, revision)) \<and>
      (\<forall>x \<in> set expired. 0 < expire_at_ms x \<and> expire_at_ms x \<le> now_ms \<and>
        (\<exists>r. ([''HGET'', hashKey keys (entry_type x), entry_id x], r) \<in> set j \<and>
          value_text (command_value r) = to_string (expire_at_ms x))))) \<and>
    (store_status res \<notin> {StoreOk, CommitUnknown, TransactionError, ProtocolError} \<longrightarrow>
      not_executed (conn_journal c) (conn_journal c') \<or> exec_refused (conn_journal c) (conn_journal c'))"
proof (cases "group_expired pt nt now_ms expired (\<lambda>_. [])")
  case None
  have "res = storeResult ProtocolError None"
    using wp_run [OF redis_conn.expired_wp assms(2)] assms(1) conn_within None by fastforce
  then show ?thesis by (simp add: storeResult_def)
next
  case (Some groups)
  have o: "redis_conn.write_outcome (expired_commands keys groups) (key_revision keys # map (hashKey keys) (nonempty_groups groups))
      (\<lambda>r j. r = revision \<and> saw_expired keys groups r now_ms j) (expired_answered groups) c res c'"
    using wp_run [OF redis_conn.expired_wp assms(2)] assms(1) conn_within Some by fastforce
  have g: "(i, e) \<in> set (groups ty) \<longleftrightarrow> (\<exists>x \<in> set expired. entry_type x = ty \<and> entry_id x = i \<and> expire_at_ms x = e)" for ty i e
    using group_expired_set [OF Some] by simp
  have d: "\<forall>ty. sorted (map fst (groups ty)) \<and> distinct (map fst (groups ty))"
    using group_expired_sorted [OF Some] by simp
  show ?thesis
  proof (cases "store_status res = StoreOk")
    case True
    then obtain replies w j where x: "reads_events j" "saw_expired keys groups revision now_ms j"
        "store_revision res = Some (Suc revision)"
        "executed_journal (expired_commands keys groups) replies
          (conn_journal c @ [(''WATCH'' # key_revision keys # map (hashKey keys) (nonempty_groups groups), w)] @ j) (conn_journal c')"
      using o unfolding redis_conn.write_outcome_def redis_conn.written_def by auto
    have "\<forall>x \<in> set expired. 0 < expire_at_ms x \<and> expire_at_ms x \<le> now_ms \<and>
        (\<exists>r. ([''HGET'', hashKey keys (entry_type x), entry_id x], r) \<in> set j \<and>
          value_text (command_value r) = to_string (expire_at_ms x))"
      using saw_expired_fields [OF x(2)] g by blast
    moreover have "\<exists>r. ([''GET'', key_revision keys], r) \<in> set j \<and> revision_text r = (StoreOk, revision)"
      using x(2) unfolding saw_expired_def by blast
    ultimately show ?thesis
      using True x(1,3) x(4) [unfolded expired_commands_def nonempty_groups_def entity_types_def] g d by blast
  next
    case False
    then show ?thesis using o
      unfolding redis_conn.write_outcome_def redis_conn.failed_def redis_conn.unwritten_def redis_conn.no_exec_def
        redis_conn.refused_def by auto
  qed
qed

definition expired_answers :: "redisReply list" where
  "expired_answers = [reply_ok, reply_status ''string'', reply_status ''hash'', reply_string ''5'', reply_string ''7'', reply_ok,
     reply_status ''QUEUED'', reply_status ''QUEUED'', reply_array [reply_int 1, reply_int 6]]"

lemma example_expired:
  "store_status (fst (run_state (removeExpiredFields example_pton example_ntop (conn_executor example_hiredis 5000000)
     example_keys [\<lparr>entry_type = EntityUser, entry_id = ''u'', expire_at_ms = 7\<rparr>] 5 8) (example_open expired_answers))) = StoreOk"
  by (simp add: removeExpiredFields_def mutation_disable_def normalizeId_def validText_def kMaxEntityIdBytes_def
      kMaxExpireAtMs_def group_insert_def nonempty_groups_def entity_types_def check_expired_def field_status_def
      expired_commands_def example_keys_def fromPrefix_def example_open_def expired_answers_def Let_def example_unfold)

theorem expired_fields_safe_witness:
  "\<exists>res c' w j replies r r'. run_state (removeExpiredFields example_pton example_ntop (conn_executor example_hiredis 5000000)
     example_keys [\<lparr>entry_type = EntityUser, entry_id = ''u'', expire_at_ms = 7\<rparr>] 5 8) (example_open expired_answers) = (res, c') \<and>
     store_revision res = Some 6 \<and>
     executed_journal [[''HDEL'', ''k:user'', ''u''], [''INCR'', ''k:revision'']] replies (w # j) (conn_journal c') \<and>
     ([''GET'', ''k:revision''], r) \<in> set j \<and> revision_text r = (StoreOk, 5) \<and>
     ([''HGET'', ''k:user'', ''u''], r') \<in> set j \<and> value_text (command_value r') = to_string 7"
proof -
  let ?e = "\<lparr>entry_type = EntityUser, entry_id = ''u'', expire_at_ms = 7\<rparr>"
  obtain res c' where r: "run_state (removeExpiredFields example_pton example_ntop (conn_executor example_hiredis 5000000)
     example_keys [?e] 5 8) (example_open expired_answers) = (res, c')"
    by fastforce
  have k: "hashKey example_keys EntityUser = ''k:user''" "key_revision example_keys = ''k:revision''"
    by (simp_all add: example_keys_def fromPrefix_def)
  have "store_status res = StoreOk" using example_expired r by simp
  note safe = expired_fields_safe [OF example_idle r, THEN conjunct1, THEN mp, OF this]
  then obtain groups w j replies where g: "\<forall>ty i e. (i, e) \<in> set (groups ty) \<longleftrightarrow>
      (\<exists>x \<in> set [?e]. entry_type x = ty \<and> entry_id x = i \<and> expire_at_ms x = e)"
      "\<forall>ty. sorted (map fst (groups ty)) \<and> distinct (map fst (groups ty))"
    and run: "executed_journal
        (map (\<lambda>ty. [''HDEL'', hashKey example_keys ty] @ map fst (groups ty))
           (filter (\<lambda>ty. groups ty \<noteq> []) [EntityUser, EntityIp, EntityDevice]) @ [[''INCR'', key_revision example_keys]]) replies
        (conn_journal (example_open expired_answers) @ [(''WATCH'' # key_revision example_keys # map (hashKey example_keys)
           (filter (\<lambda>ty. groups ty \<noteq> []) [EntityUser, EntityIp, EntityDevice]), w)] @ j) (conn_journal c')"
    and seen: "\<exists>r. ([''GET'', key_revision example_keys], r) \<in> set j \<and> revision_text r = (StoreOk, 5)"
      "\<forall>x \<in> set [?e]. 0 < expire_at_ms x \<and> expire_at_ms x \<le> 8 \<and>
        (\<exists>r. ([''HGET'', hashKey example_keys (entry_type x), entry_id x], r) \<in> set j \<and>
          value_text (command_value r) = to_string (expire_at_ms x))"
    by (elim conjE exE) blast
  have m: "p \<in> set (groups ty) \<longleftrightarrow> ty = EntityUser \<and> p = (''u'', 7)" for p ty using g(1) by (cases p) auto
  have "set (groups EntityUser) = {(''u'', 7)}" using m by auto
  moreover have "distinct (groups EntityUser)" using g(2) by (simp add: distinct_map)
  ultimately have "groups EntityUser = [(''u'', 7)]" by (rule distinct_singleton_list [rotated])
  moreover have "groups EntityIp = []" using m [of _ EntityIp] by (cases "groups EntityIp") auto
  moreover have "groups EntityDevice = []" using m [of _ EntityDevice] by (cases "groups EntityDevice") auto
  ultimately show ?thesis using run seen safe r k by (fastforce simp: example_open_def)
qed

end
