(* ===== verification/Redis_Snapshot.thy ===== *)
theory Redis_Snapshot
  imports Redis_Transactions
begin

text \<open>
  Snapshots of the cache: what a scan returns and that it ends.  A scan follows the cursors the
  server hands out, so only the deadline bounds it; the clock is assumed to advance with every
  round trip to the server.
\<close>

section \<open>Pages and chains of pages\<close>

fun page_entries :: "EntityType \<Rightarrow> RedisValue list \<Rightarrow> BlacklistEntry list" where
  "page_entries ty (f # v # rest) =
     \<lparr>entry_type = ty, entry_id = value_text f, expire_at_ms = digits_value (value_text v)\<rparr> # page_entries ty rest"
| "page_entries ty _ = []"

definition page_cursor :: "RedisCommandResult \<Rightarrow> string" where
  "page_cursor r = value_text (value_elements (command_value r) ! 0)"

definition page_of :: "EntityType \<Rightarrow> RedisCommandResult \<Rightarrow> BlacklistEntry list" where
  "page_of ty r = page_entries ty (value_elements (value_elements (command_value r) ! 1))"

text \<open>The commands of a scan from a cursor on, each with its answer; the last answer carries cursor 0.\<close>

fun scan_journal :: "string \<Rightarrow> nat \<Rightarrow> string \<Rightarrow> RedisCommandResult list \<Rightarrow> redis_journal" where
  "scan_journal key count cursor [] = []"
| "scan_journal key count cursor (r # rs) =
     ([''HSCAN'', key, cursor, ''COUNT'', to_string count], r) # scan_journal key count (page_cursor r) rs"

definition complete_scan :: "RedisCommandResult list \<Rightarrow> bool" where
  "complete_scan rs \<longleftrightarrow> rs \<noteq> [] \<and> page_cursor (last rs) = ''0'' \<and> list_all (\<lambda>r. command_status r = CommandOk) rs"

text \<open>Three hashes one after the other.\<close>

fun scans_journal :: "nat \<Rightarrow> (EntityType \<times> string) list \<Rightarrow> RedisCommandResult list list \<Rightarrow> redis_journal" where
  "scans_journal count ((ty, key) # hs) (rs # rss) = scan_journal key count ''0'' rs @ scans_journal count hs rss"
| "scans_journal count _ _ = []"

fun scans_entries :: "(EntityType \<times> string) list \<Rightarrow> RedisCommandResult list list \<Rightarrow> BlacklistEntry list" where
  "scans_entries ((ty, key) # hs) (rs # rss) = concat (map (page_of ty) rs) @ scans_entries hs rss"
| "scans_entries _ _ = []"

definition typed_keys :: "RedisKeySet \<Rightarrow> (EntityType \<times> string) list" where
  "typed_keys keys = map (\<lambda>ty. (ty, hashKey keys ty)) entity_types"

definition entry_normal :: "pton \<Rightarrow> ntop \<Rightarrow> BlacklistEntry \<Rightarrow> bool" where
  "entry_normal pt nt e \<longleftrightarrow> normal_id pt nt (entry_type e) (entry_id e) \<and> expire_at_ms e \<le> kMaxExpireAtMs"

lemma scan_id_normal:
  "\<not> (if ty = EntityIp then case ip_parse pt nt i of None \<Rightarrow> True | Some a \<Rightarrow> canonicalText a \<noteq> i
      else i = [] \<or> length i > kMaxEntityIdBytes \<or> containsNull i) \<longleftrightarrow> normal_id pt nt ty i"
  by (auto simp: normal_id_def validText_def containsNull_def split: option.splits)

lemma scan_entries_Ok:
  assumes "scan_entries pt nt ty vs entries = (StoreOk, entries')"
  shows "entries' = entries @ page_entries ty vs \<and> list_all (entry_normal pt nt) (page_entries ty vs)"
  using assms
proof (induction ty vs arbitrary: entries rule: page_entries.induct)
  case (1 ty f v rest)
  obtain n where n: "value_text v = to_string n" "n \<le> kMaxExpireAtMs" "normal_id pt nt ty (value_text f)"
    "scan_entries pt nt ty rest (entries @ [\<lparr>entry_type = ty, entry_id = value_text f, expire_at_ms = n\<rparr>]) = (StoreOk, entries')"
    using 1(2) unfolding scan_entries.simps Let_def
    by (auto simp: scan_id_normal [symmetric] parseUnsigned_Some split: if_split_asm option.split_asm)
  from 1(1) [OF n(4)] show ?case using n(1-3) by (auto simp: entry_normal_def)
qed simp_all

lemma parse_scan_Ok:
  assumes "parseHashScan pt nt r ty cursor entries = (StoreOk, cursor', entries')"
  shows "command_status r = CommandOk \<and> cursor' = page_cursor r \<and> entries' = entries @ page_of ty r \<and>
    list_all (entry_normal pt nt) (page_of ty r)"
proof -
  obtain c vs where v: "command_status r = CommandOk" "value_elements (command_value r) = [c, vs]" "cursor' = value_text c"
    "scan_entries pt nt ty (value_elements vs) entries = (StoreOk, entries')"
    using assms unfolding parseHashScan_def Let_def
    by (auto split: if_split_asm list.split_asm prod.split_asm)
  then show ?thesis using scan_entries_Ok [OF v(4)] by (simp add: page_cursor_def page_of_def)
qed

section \<open>The scan returns the chain\<close>

context redis_executor
begin

definition scanned ::
  "pton \<Rightarrow> ntop \<Rightarrow> string \<Rightarrow> nat \<Rightarrow> EntityType \<Rightarrow> string \<Rightarrow> BlacklistEntry list \<Rightarrow> 's \<Rightarrow>
   (StoreStatus \<times> BlacklistEntry list) option \<Rightarrow> 's \<Rightarrow> bool" where
  "scanned pt nt key count ty cursor entries s res s' \<longleftrightarrow> (\<forall>entries'. res = Some (StoreOk, entries') \<longrightarrow>
     (\<exists>rs. complete_scan rs \<and> journal s' = journal s @ scan_journal key count cursor rs \<and>
        entries' = entries @ concat (map (page_of ty) rs) \<and> list_all (entry_normal pt nt) (concat (map (page_of ty) rs))))"

lemma scanned_fail: "status \<noteq> StoreOk \<Longrightarrow> scanned pt nt key count ty cursor entries s (Some (status, x)) s'"
  "scanned pt nt key count ty cursor entries s None s'"
  by (simp_all add: scanned_def)

lemma scanned_step:
  assumes "journal u = journal s @ [([''HSCAN'', key, cursor, ''COUNT'', to_string count], r)]"
    and "command_status r = CommandOk" "list_all (entry_normal pt nt) (page_of ty r)"
    and "scanned pt nt key count ty (page_cursor r) (entries @ page_of ty r) u res v"
  shows "scanned pt nt key count ty cursor entries s res v"
  unfolding scanned_def
proof (intro allI impI)
  fix entries' assume "res = Some (StoreOk, entries')"
  then obtain rs where "complete_scan rs" "journal v = journal u @ scan_journal key count (page_cursor r) rs"
    "entries' = (entries @ page_of ty r) @ concat (map (page_of ty) rs)" "list_all (entry_normal pt nt) (concat (map (page_of ty) rs))"
    using assms(4) unfolding scanned_def by blast
  then show "\<exists>rs. complete_scan rs \<and> journal v = journal s @ scan_journal key count cursor rs \<and>
        entries' = entries @ concat (map (page_of ty) rs) \<and> list_all (entry_normal pt nt) (concat (map (page_of ty) rs))"
    using assms(1-3) by (intro exI [of _ "r # rs"]) (auto simp: complete_scan_def)
qed

lemma scan_hash_wp: "wp (scan_hash pt nt E fuel count ty key cursor entries) (scanned pt nt key count ty cursor entries s) s"
proof (induction fuel arbitrary: cursor entries s)
  case 0
  then show ?case by (auto intro!: wp_rules simp: scanned_def)
next
  case (Suc fuel)
  have step: "wp (let (status, cursor', entries') = parseHashScan pt nt r ty cursor entries
       in if status \<noteq> StoreOk then State_Monad.return (Some (status, entries'))
          else if cursor' \<noteq> ''0'' then scan_hash pt nt E fuel count ty key cursor' entries'
          else State_Monad.return (Some (StoreOk, entries'))) (scanned pt nt key count ty cursor entries s) u"
    if t: "journal t = journal s" and e: "command_effect connected journal [''HSCAN'', key, cursor, ''COUNT'', to_string count] t r u" for r t u
  proof -
    obtain status cursor' entries' where p: "parseHashScan pt nt r ty cursor entries = (status, cursor', entries')"
      by (cases "parseHashScan pt nt r ty cursor entries")
    show ?thesis
    proof (cases "status = StoreOk")
      case True
      note ok = parse_scan_Ok [OF p [unfolded True]]
      then have j: "journal u = journal s @ [([''HSCAN'', key, cursor, ''COUNT'', to_string count], r)]"
        using e t by (simp add: command_effect_def)
      have final: "scanned pt nt key count ty cursor entries s (Some (StoreOk, entries')) u" if "cursor' = ''0''"
        using ok j that unfolding scanned_def by (auto intro!: exI [of _ "[r]"] simp: complete_scan_def)
      have more: "wp (scan_hash pt nt E fuel count ty key cursor' entries') (scanned pt nt key count ty cursor entries s) u"
        using ok by (auto intro!: Suc.IH [THEN wp_mono] scanned_step [OF j])
      show ?thesis unfolding p Let_def prod.case using True by (auto intro!: wp_return final more)
    next
      case False
      then show ?thesis unfolding p Let_def prod.case by (auto intro!: wp_rules simp: scanned_def)
    qed
  qed
  show ?case unfolding scan_hash.simps
    by (intro wp_bind exec_late_rule wp_if wp_return exec_command_rule) (auto intro: step [unfolded Let_def] scanned_fail)
qed

definition all_scanned ::
  "pton \<Rightarrow> ntop \<Rightarrow> nat \<Rightarrow> (EntityType \<times> string) list \<Rightarrow> BlacklistEntry list \<Rightarrow> 's \<Rightarrow>
   (StoreStatus \<times> BlacklistEntry list) option \<Rightarrow> 's \<Rightarrow> bool" where
  "all_scanned pt nt count hs entries s res s' \<longleftrightarrow> (\<forall>entries'. res = Some (StoreOk, entries') \<longrightarrow>
     (\<exists>rss. length rss = length hs \<and> list_all complete_scan rss \<and> journal s' = journal s @ scans_journal count hs rss \<and>
        entries' = entries @ scans_entries hs rss \<and> list_all (entry_normal pt nt) (scans_entries hs rss)))"

lemma all_scanned_fail: "status \<noteq> StoreOk \<Longrightarrow> all_scanned pt nt count hs entries s (Some (status, x)) s'"
  "all_scanned pt nt count hs entries s None s'"
  by (simp_all add: all_scanned_def)

lemma all_scanned_step:
  assumes "scanned pt nt key count ty ''0'' entries s (Some (StoreOk, entries1)) t" "all_scanned pt nt count hs entries1 t res u"
  shows "all_scanned pt nt count ((ty, key) # hs) entries s res u"
  unfolding all_scanned_def
proof (intro allI impI)
  fix entries' assume "res = Some (StoreOk, entries')"
  then obtain rss where "length rss = length hs" "list_all complete_scan rss" "journal u = journal t @ scans_journal count hs rss"
    "entries' = entries1 @ scans_entries hs rss" "list_all (entry_normal pt nt) (scans_entries hs rss)"
    using assms(2) unfolding all_scanned_def by blast
  moreover obtain rs where "complete_scan rs" "journal t = journal s @ scan_journal key count ''0'' rs"
    "entries1 = entries @ concat (map (page_of ty) rs)" "list_all (entry_normal pt nt) (concat (map (page_of ty) rs))"
    using assms(1) unfolding scanned_def by blast
  ultimately show "\<exists>rss. length rss = length ((ty, key) # hs) \<and> list_all complete_scan rss \<and>
        journal u = journal s @ scans_journal count ((ty, key) # hs) rss \<and>
        entries' = entries @ scans_entries ((ty, key) # hs) rss \<and> list_all (entry_normal pt nt) (scans_entries ((ty, key) # hs) rss)"
    by (intro exI [of _ "rs # rss"]) simp
qed

lemma scan_hashes_wp: "wp (scan_hashes pt nt E fuel count hs entries) (all_scanned pt nt count hs entries s) s"
proof (induction hs arbitrary: entries s)
  case Nil
  then show ?case by (auto intro!: wp_rules simp: all_scanned_def)
next
  case (Cons h hs)
  obtain ty key where h: "h = (ty, key)" by (cases h)
  have more: "wp (scan_hashes pt nt E fuel count hs entries1) (all_scanned pt nt count ((ty, key) # hs) entries s) t"
    if "scanned pt nt key count ty ''0'' entries s (Some (StoreOk, entries1)) t" for entries1 t
    by (rule Cons.IH [THEN wp_mono]) (rule all_scanned_step [OF that])
  show ?case unfolding h scan_hashes.simps
    by (intro wp_bind scan_hash_wp [THEN wp_mono] wp_option wp_prod wp_if wp_return)
      (auto intro: more all_scanned_fail)
qed

lemma revision_wp:
  "wp (readRevision E keys) (\<lambda>res s'. \<forall>n. store_revision res = Some n \<longrightarrow>
     (\<exists>r. journal s' = journal s @ [([''GET'', key_revision keys], r)] \<and> value_text (command_value r) = to_string n)) s"
  unfolding readRevision_def
  by (intro wp_rules exec_command_rule)
    (auto simp: command_effect_def storeResult_def parseUnsigned_Some split: option.splits)

text \<open>A stable snapshot: the revision, the three scans, the same revision again.\<close>

definition snapshot_taken :: "pton \<Rightarrow> ntop \<Rightarrow> RedisKeySet \<Rightarrow> nat \<Rightarrow> 's \<Rightarrow> SnapshotReadResult option \<Rightarrow> 's \<Rightarrow> bool" where
  "snapshot_taken pt nt keys count s res s' \<longleftrightarrow> (\<forall>snap. res = Some snap \<and> snapshot_status snap = StoreOk \<longrightarrow>
     (\<exists>rss r1 r2. length rss = 3 \<and> list_all complete_scan rss \<and>
        value_text (command_value r1) = to_string (snapshot_revision snap) \<and>
        value_text (command_value r2) = to_string (snapshot_revision snap) \<and>
        journal s' = journal s @ [([''GET'', key_revision keys], r1)] @ scans_journal count (typed_keys keys) rss @
          [([''GET'', key_revision keys], r2)] \<and>
        snapshot_entries snap = scans_entries (typed_keys keys) rss \<and> list_all (entry_normal pt nt) (snapshot_entries snap)))"

lemma snapshot_fail:
  "status \<noteq> StoreOk \<Longrightarrow> snapshot_taken pt nt keys count s (Some (snapshotReadResult status)) s'"
  "snapshot_taken pt nt keys count s None s'"
  by (simp_all add: snapshot_taken_def snapshotReadResult_def)

lemma read_failed: "wp (readRevision E keys) (\<lambda>res _. store_revision res = None \<longrightarrow> store_status res \<noteq> StoreOk) s"
  unfolding readRevision_def by (intro wp_rules exec_command_rule) (auto simp: storeResult_def split: option.splits)

lemma snapshot_final:
  assumes "journal t = journal s @ [([''GET'', key_revision keys], r1)]" "value_text (command_value r1) = to_string n"
    and "all_scanned pt nt count (typed_keys keys) [] t (Some (StoreOk, entries)) u"
    and "journal v = journal u @ [([''GET'', key_revision keys], r2)]" "value_text (command_value r2) = to_string n"
  shows "snapshot_taken pt nt keys count s
    (Some \<lparr>snapshot_status = StoreOk, snapshot_revision = n, snapshot_entries = entries\<rparr>) v"
proof -
  obtain rss where "length rss = length (typed_keys keys)" "list_all complete_scan rss"
    "journal u = journal t @ scans_journal count (typed_keys keys) rss" "entries = scans_entries (typed_keys keys) rss"
    "list_all (entry_normal pt nt) (scans_entries (typed_keys keys) rss)"
    using assms(3) unfolding all_scanned_def by auto
  moreover have "length (typed_keys keys) = 3" by (simp add: typed_keys_def entity_types_def)
  ultimately show ?thesis unfolding snapshot_taken_def using assms(1,2,4,5)
    by (auto intro!: exI [of _ rss] exI [of _ r1] exI [of _ r2])
qed

lemma snapshot_wp: "wp (loadStableSnapshot pt nt E keys fuel count) (snapshot_taken pt nt keys count s) s"
  unfolding loadStableSnapshot_def typed_keys_def [symmetric]
  by (intro wp_bind wp_if wp_return wp_conj [OF revision_wp read_failed, THEN wp_mono] wp_option wp_prod
      scan_hashes_wp [THEN wp_mono])
    (auto split: option.splits intro: snapshot_fail snapshot_final)

end

section \<open>The scan ends\<close>

text \<open>The clock never goes back, and a round trip to the server takes time.\<close>

definition clock_advances :: "'w Hiredis \<Rightarrow> ('w \<Rightarrow> int) \<Rightarrow> bool" where
  "clock_advances H clock \<longleftrightarrow>
     (\<forall>w t w'. run_state (hi_now H) w = (t, w') \<longrightarrow> clock w \<le> t \<and> t \<le> clock w') \<and>
     (\<forall>tv w. clock w \<le> clock (snd (run_state (hi_setTimeout H tv) w))) \<and>
     (\<forall>argv w. clock w < clock (snd (run_state (hi_commandArgv H argv) w))) \<and>
     (\<forall>w. clock w \<le> clock (snd (run_state (hi_free H) w)))"

lemma advances_rules:
  assumes "clock_advances H clock"
  shows "run_state (hi_now H) w = (t, w') \<Longrightarrow> clock w \<le> t \<and> t \<le> clock w'"
    "run_state (hi_setTimeout H tv) w = (ok, w') \<Longrightarrow> clock w \<le> clock w'"
    "run_state (hi_commandArgv H argv) w = (reply, w') \<Longrightarrow> clock w < clock w'"
    "run_state (hi_free H) w = (u, w') \<Longrightarrow> clock w \<le> clock w'"
  using assms unfolding clock_advances_def by (metis snd_conv)+

abbreviation conn_clock :: "('w \<Rightarrow> int) \<Rightarrow> 'w RedisConnection \<Rightarrow> int" where
  "conn_clock clock c \<equiv> clock (conn_world c)"

lemma now_later:
  assumes "clock_advances H clock" "\<And>t d. conn_clock clock c \<le> t \<Longrightarrow> t \<le> conn_clock clock d \<Longrightarrow> Q t d"
  shows "wp (on_world (hi_now H)) Q c"
  using advances_rules(1) [OF assms(1)] assms(2) by (intro wp_on_world) fastforce

lemma timeout_later:
  assumes "clock_advances H clock" "\<And>t d. conn_clock clock c \<le> conn_clock clock d \<Longrightarrow> Q t d"
  shows "wp (remainingTimeout H configured deadline) Q c"
  unfolding remainingTimeout_def using assms(2) by (intro wp_bind now_later [OF assms(1)] wp_return) auto

lemma set_later:
  assumes "clock_advances H clock" "\<And>ok d. conn_clock clock c \<le> conn_clock clock d \<Longrightarrow> Q ok d"
  shows "wp (on_world (hi_setTimeout H tv)) Q c"
  using advances_rules(2) [OF assms(1)] assms(2) by (intro wp_on_world) fastforce

lemma argv_later:
  assumes "clock_advances H clock" "\<And>r d. conn_clock clock c < conn_clock clock d \<Longrightarrow> Q r d"
  shows "wp (on_world (hi_commandArgv H argv)) Q c"
  using advances_rules(3) [OF assms(1)] assms(2) by (intro wp_on_world) fastforce

lemma free_later:
  assumes "clock_advances H clock" "\<And>d. conn_clock clock c \<le> conn_clock clock d \<Longrightarrow> Q () d"
  shows "wp (conn_invalidate H) Q c"
  unfolding conn_invalidate_def using advances_rules(4) [OF assms(1)] assms(2)
  by (intro wp_bind wp_get wp_if wp_on_world wp_modify wp_return) fastforce+

definition later :: "('w \<Rightarrow> int) \<Rightarrow> 'w RedisConnection \<Rightarrow> RedisCommandResult \<Rightarrow> 'w RedisConnection \<Rightarrow> bool" where
  "later clock c r c' \<longleftrightarrow> conn_clock clock c \<le> conn_clock clock c' \<and>
     (command_status r = CommandOk \<longrightarrow> conn_clock clock c < conn_clock clock c')"

lemma command_later:
  assumes "clock_advances H clock"
  shows "wp (conn_command H deadline argv) (later clock c) c"
proof -
  note rules = timeout_later [OF assms] set_later [OF assms] argv_later [OF assms] free_later [OF assms]
  have answer: "wp (conn_answer H argv reply) (later clock c) d" if "conn_clock clock c < conn_clock clock d" for reply d
    unfolding conn_answer_def note_sent_def using that
    by (intro wp_let wp_bind wp_modify wp_if wp_return rules) (simp_all add: later_def)
  show ?thesis
    unfolding conn_command_def
    by (intro wp_bind wp_get wp_if wp_return wp_option rules answer) (simp_all add: later_def commandResult_def)
qed

lemma late_later:
  assumes "clock_advances H clock"
    and "\<And>late d. conn_clock clock c \<le> conn_clock clock d \<Longrightarrow> (\<not> late \<Longrightarrow> conn_clock clock c < deadline) \<Longrightarrow> Q late d"
  shows "wp (exec_late (conn_executor H deadline)) Q c"
  unfolding conn_executor_def Executor.simps conn_late_def
  by (intro wp_bind now_later [OF assms(1)] wp_return assms(2)) auto

lemma exec_later:
  assumes "clock_advances H clock" "\<And>r d. later clock c r d \<Longrightarrow> Q r d"
  shows "wp (exec_command (conn_executor H deadline) argv) Q c"
  unfolding conn_executor_def Executor.simps by (rule command_later [OF assms(1), THEN wp_mono]) (rule assms(2))

definition ends :: "('w \<Rightarrow> int) \<Rightarrow> 'w RedisConnection \<Rightarrow> 'a option \<Rightarrow> 'w RedisConnection \<Rightarrow> bool" where
  "ends clock c res d \<longleftrightarrow> res \<noteq> None \<and> conn_clock clock c \<le> conn_clock clock d"

lemma scan_ends:
  assumes "clock_advances H clock" "nat (deadline - conn_clock clock c) < fuel"
  shows "wp (scan_hash pt nt (conn_executor H deadline) fuel count ty key cursor entries) (ends clock c) c"
  using assms(2)
proof (induction fuel arbitrary: cursor entries c)
  case (Suc fuel)
  have more: "wp (let (status, cursor', entries') = parseHashScan pt nt r ty cursor entries
       in if status \<noteq> StoreOk then State_Monad.return (Some (status, entries'))
          else if cursor' \<noteq> ''0'' then scan_hash pt nt (conn_executor H deadline) fuel count ty key cursor' entries'
          else State_Monad.return (Some (StoreOk, entries'))) (ends clock c) d2"
    if d: "conn_clock clock c < deadline" "conn_clock clock c \<le> conn_clock clock d1" "later clock d1 r d2" for d1 d2 r
  proof -
    obtain status cursor' entries' where p: "parseHashScan pt nt r ty cursor entries = (status, cursor', entries')"
      by (cases "parseHashScan pt nt r ty cursor entries")
    have "nat (deadline - conn_clock clock d2) < fuel" if "status = StoreOk"
      using parse_scan_Ok [OF p [unfolded that]] d Suc.prems by (auto simp: later_def)
    then show ?thesis unfolding p Let_def prod.case using d
      by (intro wp_if wp_return Suc.IH [THEN wp_mono]) (auto simp: later_def ends_def)
  qed
  show ?case unfolding scan_hash.simps
    by (intro wp_bind late_later [OF assms(1)] wp_if wp_return exec_later [OF assms(1)])
      (simp add: ends_def, rule more, simp_all)
qed simp

lemma scans_end:
  assumes "clock_advances H clock" "nat (deadline - conn_clock clock c) < fuel"
  shows "wp (scan_hashes pt nt (conn_executor H deadline) fuel count hs entries) (ends clock c) c"
  using assms(2)
proof (induction hs arbitrary: entries c)
  case Nil
  then show ?case by (auto intro!: wp_return simp: ends_def)
next
  case (Cons h hs)
  obtain ty key where h: "h = (ty, key)" by (cases h)
  have more: "wp (scan_hashes pt nt (conn_executor H deadline) fuel count hs entries') (ends clock c) d"
    if "ends clock c (Some x) d" for entries' x d
    using that Cons.prems by (intro Cons.IH [THEN wp_mono]) (auto simp: ends_def)
  show ?case unfolding h scan_hashes.simps
    by (intro wp_bind scan_ends [OF assms(1) Cons.prems, THEN wp_mono] wp_option wp_prod wp_if wp_return)
      (auto intro: more)
qed

lemma snapshot_ends:
  assumes "clock_advances H clock" "nat (deadline - conn_clock clock c) < fuel"
  shows "wp (loadStableSnapshot pt nt (conn_executor H deadline) keys fuel count) (\<lambda>res _. res \<noteq> None) c"
proof -
  have more: "wp (scan_hashes pt nt (conn_executor H deadline) fuel count hs entries) (\<lambda>res d. res \<noteq> None) d"
    if "later clock c r d" for hs entries r d
    using that assms(2) by (intro scans_end [OF assms(1), THEN wp_mono]) (auto simp: ends_def later_def)
  show ?thesis unfolding loadStableSnapshot_def readRevision_def
    by (intro wp_bind wp_if wp_return exec_later [OF assms(1)] wp_option more [THEN wp_mono] wp_prod) auto
qed

section \<open>Properties\<close>

lemma normal_nonempty: "list_all (entry_normal pt nt) es \<Longrightarrow> \<forall>e \<in> set es. entry_id e \<noteq> []"
  by (auto simp: list_all_iff entry_normal_def normal_id_def ip_parse_def validText_def split: if_splits)

text \<open>
  C9.  A snapshot is a complete scan at one revision.  When a snapshot is returned as good, the
  commands handed to the server were the revision, one full cursor walk over each of the three
  hashes that ends with cursor 0, and the revision again with the same value; the entries are exactly
  the fields of all those pages in order; every identifier is in canonical form and every expiry in
  range; and the manager accepts the entries for publication at any time.
\<close>

theorem snapshot_complete:
  assumes "run_state (loadStableSnapshot pt nt (conn_executor H deadline) keys fuel count) c = (Some snap, c')"
    and "snapshot_status snap = StoreOk"
  shows "(\<exists>users ips devices r1 r2. list_all complete_scan [users, ips, devices] \<and>
      value_text (command_value r1) = to_string (snapshot_revision snap) \<and>
      value_text (command_value r2) = to_string (snapshot_revision snap) \<and>
      conn_journal c' = conn_journal c @ [([''GET'', key_revision keys], r1)] @
        scan_journal (key_users keys) count ''0'' users @ scan_journal (key_ips keys) count ''0'' ips @
        scan_journal (key_devices keys) count ''0'' devices @ [([''GET'', key_revision keys], r2)] \<and>
      snapshot_entries snap = concat (map (page_of EntityUser) users) @ concat (map (page_of EntityIp) ips) @
        concat (map (page_of EntityDevice) devices)) \<and>
    list_all (entry_normal pt nt) (snapshot_entries snap) \<and> snd (publish (snapshot_entries snap) now_ms mgr)"
proof -
  obtain rss r1 r2 where r: "length rss = 3" "list_all complete_scan rss"
      "value_text (command_value r1) = to_string (snapshot_revision snap)"
      "value_text (command_value r2) = to_string (snapshot_revision snap)"
      "conn_journal c' = conn_journal c @ [([''GET'', key_revision keys], r1)] @ scans_journal count (typed_keys keys) rss @
          [([''GET'', key_revision keys], r2)]"
      "snapshot_entries snap = scans_entries (typed_keys keys) rss" "list_all (entry_normal pt nt) (snapshot_entries snap)"
    using wp_run [OF redis_conn.snapshot_wp assms(1)] assms(2) unfolding redis_conn.snapshot_taken_def by blast
  obtain users ips devices where "rss = [users, ips, devices]" using r(1) by (auto simp: length_Suc_conv numeral_3_eq_3)
  moreover have "snd (publish (snapshot_entries snap) now_ms mgr)"
    using normal_nonempty [OF r(7)] prepare_iff [of "snapshot_entries snap" now_ms] by (auto simp: publish_def publishCandidate_def)
  ultimately show ?thesis using r(2-) by (auto simp: typed_keys_def entity_types_def)
qed

definition snapshot_answers :: "redisReply list" where
  "snapshot_answers = [reply_string ''5'',
     reply_array [reply_string ''3'', reply_array [reply_string ''u'', reply_string ''0'']],
     reply_array [reply_string ''0'', reply_array [reply_string ''v'', reply_string ''9'']],
     reply_array [reply_string ''0'', reply_array []], reply_array [reply_string ''0'', reply_array []], reply_string ''5'']"

lemma example_now [simp]: "hi_now example_hiredis = State_Monad.return 0"
  by (simp add: example_hiredis_def)

lemma example_snapshot:
  "\<exists>c'. run_state (loadStableSnapshot example_pton example_ntop (conn_executor example_hiredis 5000000) example_keys (Suc (Suc 0)) 100)
     (example_open snapshot_answers) =
   (Some \<lparr>snapshot_status = StoreOk, snapshot_revision = 5, snapshot_entries =
      [\<lparr>entry_type = EntityUser, entry_id = ''u'', expire_at_ms = 0\<rparr>, \<lparr>entry_type = EntityUser, entry_id = ''v'', expire_at_ms = 9\<rparr>]\<rparr>, c')"
  by (simp add: loadStableSnapshot_def readRevision_def entity_types_def example_open_def snapshot_answers_def
      example_keys_def fromPrefix_def conn_late_def on_world_def parseHashScan_def kMaxEntityIdBytes_def
      containsNull_def kMaxExpireAtMs_def Let_def example_unfold)

theorem snapshot_complete_witness:
  "\<exists>snap c'. run_state (loadStableSnapshot example_pton example_ntop (conn_executor example_hiredis 5000000) example_keys (Suc (Suc 0)) 100)
     (example_open snapshot_answers) = (Some snap, c') \<and> length (snapshot_entries snap) = 2 \<and>
     snd (publish (snapshot_entries snap) 1 None)"
proof -
  obtain c' where r: "run_state (loadStableSnapshot example_pton example_ntop (conn_executor example_hiredis 5000000)
       example_keys (Suc (Suc 0)) 100) (example_open snapshot_answers) =
     (Some \<lparr>snapshot_status = StoreOk, snapshot_revision = 5, snapshot_entries =
      [\<lparr>entry_type = EntityUser, entry_id = ''u'', expire_at_ms = 0\<rparr>, \<lparr>entry_type = EntityUser, entry_id = ''v'', expire_at_ms = 9\<rparr>]\<rparr>, c')"
    using example_snapshot by blast
  show ?thesis using snapshot_complete [OF r, of 1 None] r by simp
qed

text \<open>
  C10.  Taking a snapshot always ends.  The scan follows whatever cursors the server sends and a
  server could send them for ever; but the clock advances with every round trip, so the deadline
  stops it.  With fuel for the time units that are left until the deadline the loop has returned, on
  any server, from any state of the connection.
\<close>

theorem snapshot_terminates:
  assumes "clock_advances H clock" "nat (deadline - clock (conn_world c)) < fuel"
  shows "\<exists>snap c'. run_state (loadStableSnapshot pt nt (conn_executor H deadline) keys fuel count) c = (Some snap, c')"
proof -
  obtain res c' where r: "run_state (loadStableSnapshot pt nt (conn_executor H deadline) keys fuel count) c = (res, c')"
    by fastforce
  then show ?thesis using wp_run [OF snapshot_ends [OF assms] r] by auto
qed

text \<open>A server whose cursors never return to 0.\<close>

definition endless_hiredis :: "int Hiredis" where
  "endless_hiredis = \<lparr>hi_now = State (\<lambda>w. (w, w)), hi_connect = (\<lambda>_ _ _ _. State_Monad.return (Some 0)),
     hi_setTimeout = (\<lambda>_. State_Monad.return True),
     hi_commandArgv = (\<lambda>argv. State (\<lambda>w. (Some (if hd argv = ''HSCAN'' then reply_array [reply_string ''7'', reply_array []]
       else reply_string ''5''), w + 1))),
     hi_free = State_Monad.return ()\<rparr>"

theorem snapshot_terminates_witness:
  "clock_advances endless_hiredis (\<lambda>w. w) \<and>
   (\<exists>snap c'. run_state (loadStableSnapshot example_pton example_ntop (conn_executor endless_hiredis 20) example_keys 30 100)
     \<lparr>conn_context = True, conn_timeout = 1000, conn_world = 0, conn_journal = []\<rparr> = (Some snap, c'))"
proof -
  have a: "clock_advances endless_hiredis (\<lambda>w. w)" by (simp add: clock_advances_def endless_hiredis_def)
  show ?thesis using a snapshot_terminates [OF a, where deadline = 20 and fuel = 30] by simp
qed

end
