(* ===== verification/Maintenance_Core.thy ===== *)
theory Maintenance_Core
  imports Candidate_Queue Redis_Store "HOL-Library.Char_ord" "HOL-Library.List_Lexorder"
    "HOL-Library.Product_Lexorder"
begin

text \<open>
  One round of blacklist maintenance (\<open>BlacklistMaintenanceCore\<close> of
  \<open>src/app/blacklist_maintenance.cpp\<close>): candidates go to Redis, the snapshot is refreshed and
  published, expired fields are removed, and pending changes go to MySQL.  The backend, the clock,
  the stop tokens and the count of running logins are a parameter; each is an action on the outside
  world.  Login workers use the candidate queue at the same time: their calls take effect right
  before an access of the core to the queue.  The history of the calls of the core is kept in the
  state for the proofs, no operation reads it.  A call to the backend may throw; the exception ends
  the round or the drain, which drops the backend.  The code logs and allocates on the way; neither
  is modelled.
\<close>

section \<open>State\<close>

record BlacklistMaintenanceConfig =
  maintenance_interval :: int
  maintenance_timeout :: int
  expire_cleanup_interval :: int
  batch_size :: nat
  candidate_batch_size :: nat

definition maximum_duration :: int where "maximum_duration = 24 * 60 * 60 * 1000"

definition validConfig :: "BlacklistMaintenanceConfig \<Rightarrow> bool" where
  "validConfig config \<longleftrightarrow>
     maintenance_interval config > 0 \<and> maintenance_timeout config > 0 \<and> expire_cleanup_interval config > 0 \<and>
     maintenance_interval config \<le> maximum_duration \<and> maintenance_timeout config \<le> maximum_duration \<and>
     expire_cleanup_interval config \<le> maximum_duration \<and>
     batch_size config > 0 \<and> candidate_batch_size config > 0"

text \<open>Durations are milliseconds, times of the steady clock nanoseconds.  A conversion to
  milliseconds drops the fraction.\<close>

definition from_ms :: "int \<Rightarrow> int" where "from_ms ms = ms * 1000000"

definition to_ms :: "int \<Rightarrow> int" where
  "to_ms ns = (if ns < 0 then - ((- ns) div 1000000) else ns div 1000000)"

type_synonym 'w token = "('w, bool) state"

text \<open>An operation of the backend answers \<open>None\<close> when it throws.\<close>

record 'w MaintenanceBackend =
  be_applyCandidates :: "BlacklistMutation list \<Rightarrow> int \<Rightarrow> ('w, StoreResult option) state"
  be_readRevision :: "int \<Rightarrow> ('w, StoreResult option) state"
  be_loadStableSnapshot :: "nat \<Rightarrow> int \<Rightarrow> ('w, SnapshotReadResult option) state"
  be_removeExpiredFields :: "BlacklistEntry list \<Rightarrow> nat \<Rightarrow> nat \<Rightarrow> int \<Rightarrow> ('w, StoreResult option) state"
  be_setPublishedRevision :: "nat \<Rightarrow> int \<Rightarrow> ('w, StoreStatus option) state"
  be_readPending :: "nat \<Rightarrow> int \<Rightarrow> ('w, PendingReadResult option) state"
  be_deletePending :: "string list \<Rightarrow> int \<Rightarrow> ('w, StoreStatus option) state"
  be_applyMysqlMutations :: "BlacklistMutation list \<Rightarrow> int \<Rightarrow> ('w, bool option) state"
  be_readResetBarrier :: "int \<Rightarrow> ('w, ResetReadResult option) state"
  be_completeResetBarrier :: "nat \<Rightarrow> int \<Rightarrow> ('w, StoreStatus option) state"

text \<open>\<open>env_create\<close> tells whether the factory made a backend; \<open>env_other_calls\<close> are the calls of
  other threads to the candidate queue: the login workers submit, the shutdown closes.\<close>

datatype other_call = OtherSubmit BlacklistMutation | OtherClose

fun queue_call_of :: "other_call \<Rightarrow> queue_call" where
  "queue_call_of (OtherSubmit m) = TrySubmit m"
| "queue_call_of OtherClose = CloseQueue"

record 'w MaintenanceEnv =
  env_backend :: "'w MaintenanceBackend"
  env_create :: "('w, bool) state"
  env_clock :: "('w, int) state"
  env_inflight :: "('w, nat option) state"
  env_sleep :: "int \<Rightarrow> ('w, unit) state"
  env_other_calls :: "('w, other_call list) state"

datatype maintenance_event =
    QueueEvent queue_call
  | ApplyEvent "BlacklistMutation list" "StoreResult option"
  | RevisionEvent "StoreResult option"
  | SnapshotEvent "SnapshotReadResult option"
  | RemoveEvent "BlacklistEntry list" nat nat "StoreResult option"
  | PublishedEvent nat "StoreStatus option"
  | PendingEvent "PendingReadResult option"
  | DeleteEvent "string list" "StoreStatus option"
  | MysqlEvent "BlacklistMutation list" "bool option"
  | BarrierEvent "ResetReadResult option"
  | CompleteEvent nat "StoreStatus option"
  | InflightEvent "nat option"

record 'w MaintenanceCore =
  mc_config :: BlacklistMaintenanceConfig
  mc_queue :: BlacklistCandidateQueue
  mc_manager :: BlacklistManager
  last_published_revision :: nat
  publication_dirty :: bool
  completed_rounds :: nat
  next_expire_cleanup :: int
  mc_backend :: bool
  mc_world :: 'w
  mc_history :: "maintenance_event list"

type_synonym ('w, 'a) core_action = "('w MaintenanceCore, 'a) state"

text \<open>\<open>None\<close>: the constructor throws.\<close>

definition core_create ::
  "BlacklistMaintenanceConfig \<Rightarrow> BlacklistCandidateQueue \<Rightarrow> BlacklistManager \<Rightarrow> nat \<Rightarrow> bool \<Rightarrow> int \<Rightarrow> 'w \<Rightarrow>
   'w MaintenanceCore option" where
  "core_create config q mgr initial_revision dirty first_expire_cleanup w =
     (if \<not> validConfig config then None
      else Some \<lparr>mc_config = config, mc_queue = q, mc_manager = mgr, last_published_revision = initial_revision,
        publication_dirty = dirty, completed_rounds = 0, next_expire_cleanup = first_expire_cleanup,
        mc_backend = False, mc_world = w, mc_history = []\<rparr>)"

section \<open>Steps\<close>

definition outside :: "('w, 'a) state \<Rightarrow> ('w, 'a) core_action" where
  "outside m = zoom mc_world (\<lambda>w. mc_world_update (\<lambda>_. w)) m"

definition note_event :: "maintenance_event \<Rightarrow> ('w, unit) core_action" where
  "note_event e = modify (\<lambda>s. s\<lparr>mc_history := mc_history s @ [e]\<rparr>)"

text \<open>How an operation ends; \<open>Unfinished\<close>: the fuel of the drain is used up.\<close>

datatype 'a outcome = Returned 'a | Thrown | Unfinished

text \<open>A call to the backend and the code that follows it.\<close>

definition attempt ::
  "('a option \<Rightarrow> maintenance_event) \<Rightarrow> ('w, 'a option) state \<Rightarrow> ('a \<Rightarrow> ('w, 'b outcome) core_action) \<Rightarrow>
   ('w, 'b outcome) core_action" where
  "attempt event m f = do {
     r \<leftarrow> outside m;
     note_event (event r);
     case r of None \<Rightarrow> State_Monad.return Thrown | Some x \<Rightarrow> f x
   }"

definition followed_by ::
  "('w, 'a outcome) core_action \<Rightarrow> ('a \<Rightarrow> ('w, 'b outcome) core_action) \<Rightarrow> ('w, 'b outcome) core_action" where
  "followed_by m f = do {
     r \<leftarrow> m;
     case r of Returned x \<Rightarrow> f x | Thrown \<Rightarrow> State_Monad.return Thrown | Unfinished \<Rightarrow> State_Monad.return Unfinished
   }"

text \<open>The handler of an exception drops the backend and goes on with a value; \<open>None\<close>: unfinished.\<close>

definition caught :: "'a \<Rightarrow> ('w, 'a outcome) core_action \<Rightarrow> ('w, 'a option) core_action" where
  "caught x m = do {
     r \<leftarrow> m;
     case r of
       Returned y \<Rightarrow> State_Monad.return (Some y)
     | Thrown \<Rightarrow> do { modify (\<lambda>s. s\<lparr>mc_backend := False\<rparr>); State_Monad.return (Some x) }
     | Unfinished \<Rightarrow> State_Monad.return None
   }"

definition queue_steps :: "queue_call list \<Rightarrow> 'w MaintenanceCore \<Rightarrow> 'w MaintenanceCore" where
  "queue_steps calls s = s\<lparr>mc_queue := fst (run_calls queue_exec calls (mc_queue s)),
     mc_history := mc_history s @ map QueueEvent calls\<rparr>"

definition other_threads :: "'w MaintenanceEnv \<Rightarrow> ('w, unit) core_action" where
  "other_threads env = do {
     calls \<leftarrow> outside (env_other_calls env);
     modify (\<lambda>s. queue_steps (map queue_call_of calls) s)
   }"

definition on_queue ::
  "'w MaintenanceEnv \<Rightarrow> queue_call \<Rightarrow> ('w, queue_result) core_action" where
  "on_queue env c = do {
     other_threads env;
     s \<leftarrow> State_Monad.get;
     modify (queue_steps [c]);
     State_Monad.return (snd (queue_exec c (mc_queue s)))
   }"

definition candidates_empty :: "'w MaintenanceEnv \<Rightarrow> ('w, bool) core_action" where
  "candidates_empty env = do {
     other_threads env;
     s \<leftarrow> State_Monad.get;
     State_Monad.return (queue_empty (mc_queue s))
   }"

section \<open>Candidates\<close>

definition ensureBackend :: "'w MaintenanceEnv \<Rightarrow> ('w, bool) core_action" where
  "ensureBackend env = do {
     s \<leftarrow> State_Monad.get;
     if mc_backend s then State_Monad.return True
     else do {
       made \<leftarrow> outside (env_create env);
       modify (\<lambda>s. s\<lparr>mc_backend := made\<rparr>);
       State_Monad.return made
     }
   }"

definition shouldStop :: "'w MaintenanceEnv \<Rightarrow> 'w token \<Rightarrow> 'w token \<Rightarrow> int \<Rightarrow> ('w, bool) core_action" where
  "shouldStop env pool_stop maintenance_stop deadline = do {
     stop \<leftarrow> outside pool_stop;
     if stop then State_Monad.return True
     else do {
       stop \<leftarrow> outside maintenance_stop;
       if stop then State_Monad.return True
       else do { now \<leftarrow> outside (env_clock env); State_Monad.return (now \<ge> deadline) }
     }
   }"

definition stored_ok :: "StoreResult \<Rightarrow> bool" where
  "stored_ok r \<longleftrightarrow> store_status r = StoreOk \<and> store_revision r \<noteq> None"

definition flushOneCandidateBatch ::
  "'w MaintenanceEnv \<Rightarrow> 'w token \<Rightarrow> 'w token \<Rightarrow> int \<Rightarrow> ('w, bool outcome) core_action" where
  "flushOneCandidateBatch env pool_stop maintenance_stop deadline = do {
     stop \<leftarrow> shouldStop env pool_stop maintenance_stop deadline;
     if stop then State_Monad.return (Returned False)
     else do {
       s \<leftarrow> State_Monad.get;
       reserved \<leftarrow> on_queue env (ReserveBatch (candidate_batch_size (mc_config s)));
       case reserved of
         Batch batch \<Rightarrow>
           if batch = [] then State_Monad.return (Returned True)
           else attempt (ApplyEvent batch) (be_applyCandidates (env_backend env) batch deadline) (\<lambda>stored.
             if \<not> stored_ok stored then State_Monad.return (Returned False)
             else do { on_queue env Acknowledge; State_Monad.return (Returned True) })
       | _ \<Rightarrow> State_Monad.return (Returned False)
     }
   }"

text \<open>The loop of \<open>drainCandidatesUntil\<close>.\<close>

fun drain_loop :: "'w MaintenanceEnv \<Rightarrow> 'w token \<Rightarrow> 'w token \<Rightarrow> int \<Rightarrow> nat \<Rightarrow> ('w, bool outcome) core_action" where
  "drain_loop env pool_stop maintenance_stop deadline 0 = State_Monad.return Unfinished"
| "drain_loop env pool_stop maintenance_stop deadline (Suc fuel) = do {
     empty \<leftarrow> candidates_empty env;
     if empty then State_Monad.return (Returned True)
     else do {
       stop \<leftarrow> shouldStop env pool_stop maintenance_stop deadline;
       if stop then State_Monad.return (Returned False)
       else followed_by (flushOneCandidateBatch env pool_stop maintenance_stop deadline) (\<lambda>flushed.
         if flushed then drain_loop env pool_stop maintenance_stop deadline fuel
         else do {
           stop \<leftarrow> shouldStop env pool_stop maintenance_stop deadline;
           if stop then State_Monad.return (Returned False)
           else do {
             now \<leftarrow> outside (env_clock env);
             outside (env_sleep env (min (to_ms (deadline - now)) 10));
             drain_loop env pool_stop maintenance_stop deadline fuel
           }
         })
     }
   }"

text \<open>\<open>None\<close>: the fuel is used up.\<close>

definition drainCandidatesUntil ::
  "'w MaintenanceEnv \<Rightarrow> nat \<Rightarrow> 'w token \<Rightarrow> 'w token \<Rightarrow> int \<Rightarrow> ('w, bool option) core_action" where
  "drainCandidatesUntil env fuel pool_stop maintenance_stop deadline = do {
     on_queue env TakeDropped;
     made \<leftarrow> ensureBackend env;
     if \<not> made then State_Monad.return (Some False)
     else caught False (drain_loop env pool_stop maintenance_stop deadline fuel)
   }"

definition complete_barrier ::
  "'w MaintenanceEnv \<Rightarrow> 'w token \<Rightarrow> 'w token \<Rightarrow> int \<Rightarrow> nat \<Rightarrow> ('w, bool outcome) core_action" where
  "complete_barrier env pool_stop maintenance_stop deadline requested = do {
     stop \<leftarrow> shouldStop env pool_stop maintenance_stop deadline;
     if stop then State_Monad.return (Returned False)
     else attempt InflightEvent (env_inflight env) (\<lambda>inflight.
       if inflight \<noteq> 0 then State_Monad.return (Returned False)
       else do {
         empty \<leftarrow> candidates_empty env;
         if \<not> empty then State_Monad.return (Returned False)
         else attempt (CompleteEvent requested) (be_completeResetBarrier (env_backend env) requested deadline)
           (\<lambda>status. State_Monad.return (Returned (status = StoreOk)))
       })
   }"

definition handleResetBarrier ::
  "'w MaintenanceEnv \<Rightarrow> nat \<Rightarrow> ResetReadResult \<Rightarrow> 'w token \<Rightarrow> 'w token \<Rightarrow> int \<Rightarrow> ('w, bool outcome) core_action" where
  "handleResetBarrier env fuel barrier pool_stop maintenance_stop deadline =
     (if reset_requested (reset_state barrier) \<le> reset_completed (reset_state barrier)
      then State_Monad.return (Returned True)
      else attempt InflightEvent (env_inflight env) (\<lambda>inflight.
        if inflight \<noteq> 0 then State_Monad.return (Returned False)
        else do {
          drained \<leftarrow> drainCandidatesUntil env fuel pool_stop maintenance_stop deadline;
          case drained of
            None \<Rightarrow> State_Monad.return Unfinished
          | Some ok \<Rightarrow>
              if \<not> ok then State_Monad.return (Returned False)
              else complete_barrier env pool_stop maintenance_stop deadline (reset_requested (reset_state barrier))
        }))"

section \<open>Snapshot and expiry\<close>

text \<open>The ordered map of the snapshot, keyed by type and identity; \<open>None\<close>: two entries of one key
  differ.  The order of the entity types is that of the enumeration.\<close>

fun entity_index :: "EntityType \<Rightarrow> nat" where
  "entity_index EntityUser = 0"
| "entity_index EntityIp = 1"
| "entity_index EntityDevice = 2"

lemma entity_index_eq: "entity_index a = entity_index b \<Longrightarrow> a = b"
  by (cases a; cases b) auto

instantiation EntityType :: linorder
begin

definition less_eq_EntityType :: "EntityType \<Rightarrow> EntityType \<Rightarrow> bool" where
  "less_eq_EntityType a b \<longleftrightarrow> entity_index a \<le> entity_index b"

definition less_EntityType :: "EntityType \<Rightarrow> EntityType \<Rightarrow> bool" where
  "less_EntityType a b \<longleftrightarrow> entity_index a < entity_index b"

instance
  by standard (auto simp: less_eq_EntityType_def less_EntityType_def dest: entity_index_eq)

end

type_synonym unique_map = "((EntityType \<times> string) \<times> nat) list"

fun unique_entries :: "BlacklistEntry list \<Rightarrow> unique_map \<Rightarrow> unique_map option" where
  "unique_entries [] unique = Some unique"
| "unique_entries (e # es) unique = (case map_of unique (entry_type e, entry_id e) of
      None \<Rightarrow> unique_entries es (insort_key fst ((entry_type e, entry_id e), expire_at_ms e) unique)
    | Some expiry \<Rightarrow> if expiry \<noteq> expire_at_ms e then None else unique_entries es unique)"

definition map_entry :: "(EntityType \<times> string) \<times> nat \<Rightarrow> BlacklistEntry" where
  "map_entry x = \<lparr>entry_type = fst (fst x), entry_id = snd (fst x), expire_at_ms = snd x\<rparr>"

definition entry_expired :: "nat \<Rightarrow> BlacklistEntry \<Rightarrow> bool" where
  "entry_expired now_ms e \<longleftrightarrow> expire_at_ms e \<noteq> 0 \<and> expire_at_ms e \<le> now_ms"

definition active_entries :: "nat \<Rightarrow> unique_map \<Rightarrow> BlacklistEntry list" where
  "active_entries now_ms unique = filter (\<lambda>e. \<not> entry_expired now_ms e) (map map_entry unique)"

definition expired_entries :: "nat \<Rightarrow> unique_map \<Rightarrow> BlacklistEntry list" where
  "expired_entries now_ms unique = filter (entry_expired now_ms) (map map_entry unique)"

text \<open>The removal transaction of a due cleanup; the result is the revision to publish.\<close>

definition remove_expired ::
  "'w MaintenanceEnv \<Rightarrow> 'w token \<Rightarrow> 'w token \<Rightarrow> int \<Rightarrow> nat \<Rightarrow> bool \<Rightarrow> nat \<Rightarrow> BlacklistEntry list \<Rightarrow>
   ('w, nat option outcome) core_action" where
  "remove_expired env pool_stop maintenance_stop deadline now_ms cleanup_due revision expired =
     (if cleanup_due \<and> expired \<noteq> [] then
        attempt (RemoveEvent expired revision now_ms)
          (be_removeExpiredFields (env_backend env) expired revision now_ms deadline) (\<lambda>removed.
          if \<not> stored_ok removed then State_Monad.return (Returned None)
          else do {
            stop \<leftarrow> shouldStop env pool_stop maintenance_stop deadline;
            State_Monad.return (Returned (if stop then None else store_revision removed))
          })
      else State_Monad.return (Returned (Some revision)))"

definition publish_active ::
  "'w MaintenanceEnv \<Rightarrow> 'w token \<Rightarrow> 'w token \<Rightarrow> int \<Rightarrow> nat \<Rightarrow> int \<Rightarrow> bool \<Rightarrow> nat \<Rightarrow> BlacklistEntry list \<Rightarrow>
   ('w, unit outcome) core_action" where
  "publish_active env pool_stop maintenance_stop deadline now_ms steady_now cleanup_due revision active =
     (case prepareCandidate active now_ms of
        None \<Rightarrow> State_Monad.return (Returned ())
      | Some candidate \<Rightarrow> do {
          stop \<leftarrow> shouldStop env pool_stop maintenance_stop deadline;
          if stop then State_Monad.return (Returned ())
          else do {
            s \<leftarrow> State_Monad.get;
            let (mgr, published) = publishCandidate (Some candidate) (mc_manager s) in
              if \<not> published then State_Monad.return (Returned ())
              else do {
                modify (\<lambda>s. s\<lparr>mc_manager := mgr, last_published_revision := revision, publication_dirty := True,
                  next_expire_cleanup := (if cleanup_due then steady_now + from_ms (expire_cleanup_interval (mc_config s))
                                          else next_expire_cleanup s)\<rparr>);
                State_Monad.return (Returned ())
              }
          }
        })"

definition refreshSnapshotAndExpiry ::
  "'w MaintenanceEnv \<Rightarrow> 'w token \<Rightarrow> 'w token \<Rightarrow> int \<Rightarrow> nat \<Rightarrow> int \<Rightarrow> ('w, unit outcome) core_action" where
  "refreshSnapshotAndExpiry env pool_stop maintenance_stop deadline now_ms steady_now = do {
     stop \<leftarrow> shouldStop env pool_stop maintenance_stop deadline;
     if stop then State_Monad.return (Returned ())
     else attempt RevisionEvent (be_readRevision (env_backend env) deadline) (\<lambda>revision. do {
       s \<leftarrow> State_Monad.get;
       let cleanup_due = steady_now \<ge> next_expire_cleanup s in
         if \<not> stored_ok revision \<or> \<not> cleanup_due \<and> store_revision revision = Some (last_published_revision s)
         then State_Monad.return (Returned ())
         else attempt SnapshotEvent (be_loadStableSnapshot (env_backend env) (batch_size (mc_config s)) deadline)
           (\<lambda>snapshot.
             if snapshot_status snapshot \<noteq> StoreOk then State_Monad.return (Returned ())
             else do {
               stop \<leftarrow> shouldStop env pool_stop maintenance_stop deadline;
               if stop then State_Monad.return (Returned ())
               else case unique_entries (snapshot_entries snapshot) [] of
                   None \<Rightarrow> State_Monad.return (Returned ())
                 | Some unique \<Rightarrow>
                     followed_by (remove_expired env pool_stop maintenance_stop deadline now_ms cleanup_due
                       (snapshot_revision snapshot) (expired_entries now_ms unique)) (\<lambda>published_revision.
                       case published_revision of
                         None \<Rightarrow> State_Monad.return (Returned ())
                       | Some r \<Rightarrow> publish_active env pool_stop maintenance_stop deadline now_ms steady_now cleanup_due
                           r (active_entries now_ms unique))
             })
     })
   }"

definition retryPublishedRevision ::
  "'w MaintenanceEnv \<Rightarrow> 'w token \<Rightarrow> 'w token \<Rightarrow> int \<Rightarrow> ('w, unit outcome) core_action" where
  "retryPublishedRevision env pool_stop maintenance_stop deadline = do {
     s \<leftarrow> State_Monad.get;
     if \<not> publication_dirty s then State_Monad.return (Returned ())
     else do {
       stop \<leftarrow> shouldStop env pool_stop maintenance_stop deadline;
       if stop then State_Monad.return (Returned ())
       else attempt (PublishedEvent (last_published_revision s))
         (be_setPublishedRevision (env_backend env) (last_published_revision s) deadline) (\<lambda>status. do {
           modify (\<lambda>s. if status = StoreOk then s\<lparr>publication_dirty := False\<rparr> else s);
           State_Monad.return (Returned ())
         })
     }
   }"

section \<open>Pending changes\<close>

definition invalid_ids :: "PendingBlacklistEntry list \<Rightarrow> string list" where
  "invalid_ids entries = map stream_id (filter (\<lambda>e. pending_mutation e = None) entries)"

definition valid_ids :: "PendingBlacklistEntry list \<Rightarrow> string list" where
  "valid_ids entries = map stream_id (filter (\<lambda>e. pending_mutation e \<noteq> None) entries)"

definition pending_mutations :: "PendingBlacklistEntry list \<Rightarrow> BlacklistMutation list" where
  "pending_mutations entries = List.map_filter pending_mutation entries"

definition commit_pending ::
  "'w MaintenanceEnv \<Rightarrow> 'w token \<Rightarrow> 'w token \<Rightarrow> int \<Rightarrow> PendingBlacklistEntry list \<Rightarrow> ('w, unit outcome) core_action" where
  "commit_pending env pool_stop maintenance_stop deadline entries =
     (if pending_mutations entries = [] then State_Monad.return (Returned ())
      else do {
        stop \<leftarrow> shouldStop env pool_stop maintenance_stop deadline;
        if stop then State_Monad.return (Returned ())
        else attempt (MysqlEvent (pending_mutations entries))
          (be_applyMysqlMutations (env_backend env) (pending_mutations entries) deadline) (\<lambda>committed.
          if \<not> committed then State_Monad.return (Returned ())
          else do {
            stop \<leftarrow> shouldStop env pool_stop maintenance_stop deadline;
            if stop then State_Monad.return (Returned ())
            else attempt (DeleteEvent (valid_ids entries))
              (be_deletePending (env_backend env) (valid_ids entries) deadline)
              (\<lambda>_. State_Monad.return (Returned ()))
          })
      })"

definition flushOnePendingBatch ::
  "'w MaintenanceEnv \<Rightarrow> 'w token \<Rightarrow> 'w token \<Rightarrow> int \<Rightarrow> ('w, unit outcome) core_action" where
  "flushOnePendingBatch env pool_stop maintenance_stop deadline = do {
     stop \<leftarrow> shouldStop env pool_stop maintenance_stop deadline;
     if stop then State_Monad.return (Returned ())
     else do {
       s \<leftarrow> State_Monad.get;
       attempt PendingEvent (be_readPending (env_backend env) (batch_size (mc_config s)) deadline) (\<lambda>pending.
         if pending_status pending \<noteq> StoreOk \<or> pending_entries pending = [] then State_Monad.return (Returned ())
         else if invalid_ids (pending_entries pending) = []
         then commit_pending env pool_stop maintenance_stop deadline (pending_entries pending)
         else attempt (DeleteEvent (invalid_ids (pending_entries pending)))
           (be_deletePending (env_backend env) (invalid_ids (pending_entries pending)) deadline) (\<lambda>deleted.
           if deleted \<noteq> StoreOk then State_Monad.return (Returned ())
           else commit_pending env pool_stop maintenance_stop deadline (pending_entries pending)))
     }
   }"

section \<open>A round\<close>

text \<open>The part of a round that follows a handled barrier or a flushed batch.\<close>

definition finish_round ::
  "'w MaintenanceEnv \<Rightarrow> 'w token \<Rightarrow> 'w token \<Rightarrow> int \<Rightarrow> nat \<Rightarrow> int \<Rightarrow> ('w, unit outcome) core_action" where
  "finish_round env pool_stop maintenance_stop deadline now_ms steady_now =
     followed_by (refreshSnapshotAndExpiry env pool_stop maintenance_stop deadline now_ms steady_now) (\<lambda>_.
     followed_by (retryPublishedRevision env pool_stop maintenance_stop deadline) (\<lambda>_.
     flushOnePendingBatch env pool_stop maintenance_stop deadline))"

text \<open>The try block of a round.\<close>

definition round_body ::
  "'w MaintenanceEnv \<Rightarrow> nat \<Rightarrow> 'w token \<Rightarrow> 'w token \<Rightarrow> int \<Rightarrow> nat \<Rightarrow> int \<Rightarrow> ('w, unit outcome) core_action" where
  "round_body env fuel pool_stop maintenance_stop deadline now_ms steady_now =
     attempt BarrierEvent (be_readResetBarrier (env_backend env) deadline) (\<lambda>barrier.
       if reset_status barrier \<noteq> StoreOk then State_Monad.return (Returned ())
       else followed_by
         (if reset_requested (reset_state barrier) > reset_completed (reset_state barrier)
          then handleResetBarrier env fuel barrier pool_stop maintenance_stop deadline
          else flushOneCandidateBatch env pool_stop maintenance_stop deadline) (\<lambda>ok.
         if \<not> ok then State_Monad.return (Returned ())
         else finish_round env pool_stop maintenance_stop deadline now_ms steady_now))"

text \<open>\<open>None\<close>: the drain of a reset barrier has used up its fuel.\<close>

definition runRound ::
  "'w MaintenanceEnv \<Rightarrow> nat \<Rightarrow> 'w token \<Rightarrow> 'w token \<Rightarrow> int \<Rightarrow> nat \<Rightarrow> int \<Rightarrow> ('w, unit option) core_action" where
  "runRound env fuel pool_stop maintenance_stop deadline now_ms steady_now = do {
     modify (\<lambda>s. s\<lparr>completed_rounds := add64 (completed_rounds s) 1\<rparr>);
     on_queue env TakeDropped;
     made \<leftarrow> ensureBackend env;
     if \<not> made then State_Monad.return (Some ())
     else do {
       stop \<leftarrow> shouldStop env pool_stop maintenance_stop deadline;
       if stop then State_Monad.return (Some ())
       else caught () (round_body env fuel pool_stop maintenance_stop deadline now_ms steady_now)
     }
   }"

end
