(* ===== verification/Maintenance_Steps.thy ===== *)
theory Maintenance_Steps
  imports Maintenance_Core
begin

text \<open>
  What a maintenance round may do, as a step relation.  A step is one visible effect on the core: a
  call to the backend, to the queue, a publication.  Its guard is what must have happened before:
  a batch is acknowledged only after Redis stored it, a pending record is deleted only after MySQL
  has the change, and so on.  Every operation of the core is a sequence of such steps
  (\<open>core_steps_round\<close>), so what the steps keep holds after any number of rounds.
\<close>

section \<open>Steps\<close>

definition noted :: "maintenance_event \<Rightarrow> 'w MaintenanceCore \<Rightarrow> 'w MaintenanceCore" where
  "noted e s = s\<lparr>mc_history := mc_history s @ [e]\<rparr>"

fun reading :: "maintenance_event \<Rightarrow> bool" where
  "reading (RevisionEvent r) = True"
| "reading (SnapshotEvent r) = True"
| "reading (PendingEvent r) = True"
| "reading (BarrierEvent r) = True"
| "reading (InflightEvent n) = True"
| "reading (RemoveEvent es r now res) = True"
| "reading (MysqlEvent ms ok) = True"
| "reading e = False"

definition just_stored :: "'w MaintenanceCore \<Rightarrow> bool" where
  "just_stored s \<longleftrightarrow> (\<exists>h r cs. mc_history s = h @ ApplyEvent (cq_reserved (mc_queue s)) (Some r) # map QueueEvent cs \<and> stored_ok r)"

definition deletable :: "maintenance_event list \<Rightarrow> string list \<Rightarrow> bool" where
  "deletable h ids \<longleftrightarrow> (\<exists>h0 r. pending_status r = StoreOk \<and>
     (h = h0 @ [PendingEvent (Some r)] \<and> ids = invalid_ids (pending_entries r) \<or>
      h = h0 @ [MysqlEvent (pending_mutations (pending_entries r)) (Some True)] \<and>
        PendingEvent (Some r) \<in> set h0 \<and> ids = valid_ids (pending_entries r)))"

definition barrier_reached :: "maintenance_event list \<Rightarrow> nat \<Rightarrow> bool" where
  "barrier_reached h token \<longleftrightarrow> (\<exists>h0 r h1 cs. h = h0 @ [BarrierEvent (Some r), InflightEvent (Some 0)] @ h1 @ [InflightEvent (Some 0)] @ map QueueEvent cs \<and>
     reset_status r = StoreOk \<and> token = reset_requested (reset_state r) \<and>
     reset_completed (reset_state r) < reset_requested (reset_state r))"

definition snapshot_ready :: "maintenance_event list \<Rightarrow> nat \<Rightarrow> BlacklistSnapshot \<Rightarrow> nat \<Rightarrow> bool" where
  "snapshot_ready h now_ms candidate revision \<longleftrightarrow> (\<exists>h0 r unique. snapshot_status r = StoreOk \<and>
     unique_entries (snapshot_entries r) [] = Some unique \<and>
     prepareCandidate (active_entries now_ms unique) now_ms = Some candidate \<and>
     (h = h0 @ [SnapshotEvent (Some r)] \<and> revision = snapshot_revision r \<or>
      (\<exists>removed. h = h0 @ [SnapshotEvent (Some r), RemoveEvent (expired_entries now_ms unique) (snapshot_revision r) now_ms (Some removed)] \<and>
         store_status removed = StoreOk \<and> store_revision removed = Some revision)))"

inductive core_step :: "'w MaintenanceCore \<Rightarrow> 'w MaintenanceCore \<Rightarrow> bool" where
  step_world: "core_step s (s\<lparr>mc_world := w\<rparr>)"
| step_backend: "core_step s (s\<lparr>mc_backend := b\<rparr>)"
| step_rounds: "core_step s (s\<lparr>completed_rounds := n\<rparr>)"
| step_read: "reading e \<Longrightarrow> core_step s (noted e s)"
| step_queue: "c \<noteq> Acknowledge \<Longrightarrow> c \<noteq> DiscardRemaining \<Longrightarrow> core_step s (queue_steps [c] s)"
| step_apply: "batch = cq_reserved (mc_queue s) \<Longrightarrow> core_step s (noted (ApplyEvent batch r) s)"
| step_acknowledge: "just_stored s \<Longrightarrow> core_step s (queue_steps [Acknowledge] s)"
| step_publish: "snapshot_ready (mc_history s) now_ms candidate revision \<Longrightarrow>
    core_step s (s\<lparr>mc_manager := Some candidate, last_published_revision := revision,
                   publication_dirty := True, next_expire_cleanup := t\<rparr>)"
| step_published: "revision = last_published_revision s \<Longrightarrow> core_step s (noted (PublishedEvent revision status) s)"
| step_clean: "mc_history s = h @ [PublishedEvent (last_published_revision s) (Some StoreOk)] \<Longrightarrow>
    core_step s (s\<lparr>publication_dirty := False\<rparr>)"
| step_delete: "deletable (mc_history s) ids \<Longrightarrow> core_step s (noted (DeleteEvent ids status) s)"
| step_complete: "barrier_reached (mc_history s) token \<Longrightarrow> queue_empty (mc_queue s) \<Longrightarrow>
    core_step s (noted (CompleteEvent token status) s)"

abbreviation core_steps :: "'w MaintenanceCore \<Rightarrow> 'w MaintenanceCore \<Rightarrow> bool" where
  "core_steps \<equiv> core_step\<^sup>*\<^sup>*"

lemma core_steps_step: "core_steps a s \<Longrightarrow> core_step s s' \<Longrightarrow> core_steps a s'"
  by (rule rtranclp.rtrancl_into_rtrancl)

lemmas core_moves = core_step.intros [THEN core_steps_step [rotated]]

section \<open>The actions\<close>

text \<open>Symbolic execution: what an action leaves of the core.\<close>

lemma wp_outside: "(\<And>a w. Q a (s\<lparr>mc_world := w\<rparr>)) \<Longrightarrow> wp (outside m) Q s"
  unfolding outside_def by (rule wp_zoom) simp

lemma wp_attempt:
  assumes "\<And>x w. wp (f x) Q (noted (event (Some x)) (s\<lparr>mc_world := w\<rparr>))"
    and "\<And>w. Q Thrown (noted (event None) (s\<lparr>mc_world := w\<rparr>))"
  shows "wp (attempt event m f) Q s"
  unfolding attempt_def note_event_def using assms
  by (intro wp_rules wp_outside) (simp_all add: noted_def)

lemma wp_followed:
  "wp m (\<lambda>r s'. (\<forall>x. r = Returned x \<longrightarrow> wp (f x) Q s') \<and> (r = Thrown \<longrightarrow> Q Thrown s') \<and> (r = Unfinished \<longrightarrow> Q Unfinished s')) s
   \<Longrightarrow> wp (followed_by m f) Q s"
  unfolding followed_by_def
  by (intro wp_bind, elim wp_mono) (auto intro: wp_return split: outcome.split)

lemma wp_caught:
  "wp m (\<lambda>r s'. (\<forall>y. r = Returned y \<longrightarrow> Q (Some y) s') \<and> (r = Thrown \<longrightarrow> Q (Some x) (s'\<lparr>mc_backend := False\<rparr>)) \<and>
     (r = Unfinished \<longrightarrow> Q None s')) s \<Longrightarrow> wp (caught x m) Q s"
  unfolding caught_def
  by (intro wp_bind, elim wp_mono) (auto intro!: wp_rules split: outcome.split)

lemma wp_stop: "(\<And>b w. Q b (s\<lparr>mc_world := w\<rparr>)) \<Longrightarrow> wp (shouldStop env p m d) Q s"
  unfolding shouldStop_def by (intro wp_rules wp_outside) (simp_all add: MaintenanceCore.update_convs)

lemma wp_others: "(\<And>cs w. Q () (queue_steps (map queue_call_of cs) (s\<lparr>mc_world := w\<rparr>))) \<Longrightarrow> wp (other_threads env) Q s"
  unfolding other_threads_def by (intro wp_rules wp_outside) simp

lemma wp_empty:
  "(\<And>cs w. let s' = queue_steps (map queue_call_of cs) (s\<lparr>mc_world := w\<rparr>) in Q (queue_empty (mc_queue s')) s') \<Longrightarrow>
   wp (candidates_empty env) Q s"
  unfolding candidates_empty_def by (intro wp_rules wp_others) (simp add: Let_def)

lemma wp_queue:
  "(\<And>cs w. let s' = queue_steps (map queue_call_of cs) (s\<lparr>mc_world := w\<rparr>) in
      Q (snd (queue_exec c (mc_queue s'))) (queue_steps [c] s')) \<Longrightarrow>
   wp (on_queue env c) Q s"
  unfolding on_queue_def by (intro wp_rules wp_others) (simp add: Let_def)

lemma queue_steps_append: "queue_steps (cs @ ds) s = queue_steps ds (queue_steps cs s)"
  by (simp add: queue_steps_def run_calls_append Let_def case_prod_beta)

lemma queue_steps_Nil [simp]: "queue_steps [] s = s"
  by (simp add: queue_steps_def)

lemma other_not_special: "queue_call_of c \<noteq> Acknowledge" "queue_call_of c \<noteq> DiscardRemaining"
  by (cases c; simp)+

lemma core_steps_others: "core_steps a s \<Longrightarrow> core_steps a (queue_steps (map queue_call_of cs) s)"
proof (induction cs arbitrary: s)
  case (Cons c cs)
  have "core_steps a (queue_steps [queue_call_of c] s)"
    using Cons.prems other_not_special by (blast intro: core_moves(5))
  then show ?case using Cons.IH queue_steps_append [of "[queue_call_of c]" "map queue_call_of cs" s] by simp
qed simp

lemma others_reserved:
  assumes "cq_reserved (mc_queue s) \<noteq> []"
  shows "cq_reserved (mc_queue (queue_steps (map queue_call_of cs) s)) = cq_reserved (mc_queue s)"
proof -
  have "x \<noteq> Acknowledge \<and> x \<noteq> DiscardRemaining" if "x \<in> set (map queue_call_of cs)" for x
    using that other_not_special by auto
  then show ?thesis using reserved_stays [OF refl assms] unfolding queue_steps_def by fastforce
qed

lemma others_history [simp]: "mc_history (queue_steps cs s) = mc_history s @ map QueueEvent cs"
  by (simp add: queue_steps_def)

lemma noted_simps [simp]:
  "mc_history (noted e s) = mc_history s @ [e]" "mc_queue (noted e s) = mc_queue s"
  "last_published_revision (noted e s) = last_published_revision s"
  by (simp_all add: noted_def)

text \<open>Rules for the composed actions, in terms of the steps made so far.\<close>

lemma outside_moves:
  "core_steps a s \<Longrightarrow> (\<And>b w. core_steps a (s\<lparr>mc_world := w\<rparr>) \<Longrightarrow> Q b (s\<lparr>mc_world := w\<rparr>)) \<Longrightarrow> wp (outside m) Q s"
  by (intro wp_outside) (simp add: core_moves(1))

lemma stop_moves:
  "core_steps a s \<Longrightarrow> (\<And>b w. core_steps a (s\<lparr>mc_world := w\<rparr>) \<Longrightarrow> Q b (s\<lparr>mc_world := w\<rparr>)) \<Longrightarrow>
   wp (shouldStop env p m d) Q s"
  by (intro wp_stop) (simp add: core_moves(1))

lemma read_moves:
  assumes "core_steps a s" "\<And>r. reading (event r)"
    "\<And>x w. core_steps a (noted (event (Some x)) (s\<lparr>mc_world := w\<rparr>)) \<Longrightarrow>
      wp (f x) Q (noted (event (Some x)) (s\<lparr>mc_world := w\<rparr>))"
    "\<And>s'. core_steps a s' \<Longrightarrow> Q Thrown s'"
  shows "wp (attempt event m f) Q s"
  by (intro wp_attempt assms core_moves(1,4))

lemma followed_moves:
  assumes "wp m (\<lambda>_. core_steps a) s" "\<And>x s'. core_steps a s' \<Longrightarrow> wp (f x) Q s'"
    "\<And>r s'. core_steps a s' \<Longrightarrow> Q r s'"
  shows "wp (followed_by m f) Q s"
  by (intro wp_followed wp_mono [OF assms(1)]) (simp add: assms(2,3))

lemma caught_moves: "wp m (\<lambda>_. core_steps a) s \<Longrightarrow> wp (caught x m) (\<lambda>_. core_steps a) s"
  by (intro wp_caught) (erule wp_mono, simp add: core_moves(2))

lemma queue_moves:
  assumes "core_steps a s" "c \<noteq> Acknowledge" "c \<noteq> DiscardRemaining" "\<And>r s'. core_steps a s' \<Longrightarrow> Q r s'"
  shows "wp (on_queue env c) Q s"
  by (intro wp_queue) (simp add: Let_def assms core_moves(1,5) core_steps_others)

lemma reserve_reserved:
  "snd (reserveBatch n q) \<noteq> [] \<Longrightarrow> cq_reserved (fst (reserveBatch n q)) = snd (reserveBatch n q)"
  by (auto simp: reserveBatch_def Let_def split: if_splits)

lemma reserve_moves:
  assumes "core_steps a s"
    and "\<And>batch s'. core_steps a s' \<Longrightarrow> (batch \<noteq> [] \<Longrightarrow> cq_reserved (mc_queue s') = batch) \<Longrightarrow> Q (Batch batch) s'"
  shows "wp (on_queue env (ReserveBatch n)) Q s"
proof (intro wp_queue, unfold Let_def)
  fix cs w
  let ?s = "queue_steps (map queue_call_of cs) (s\<lparr>mc_world := w\<rparr>)"
  let ?b = "snd (reserveBatch n (mc_queue ?s))"
  have "core_steps a (queue_steps [ReserveBatch n] ?s)"
    using assms(1) by (intro core_moves(5) core_steps_others core_moves(1)) auto
  moreover have "mc_queue (queue_steps [ReserveBatch n] ?s) = fst (reserveBatch n (mc_queue ?s))"
    by (simp add: queue_steps_def case_prod_beta Let_def)
  moreover have "snd (queue_exec (ReserveBatch n) (mc_queue ?s)) = Batch ?b"
    by (simp add: case_prod_beta)
  ultimately show "Q (snd (queue_exec (ReserveBatch n) (mc_queue ?s))) (queue_steps [ReserveBatch n] ?s)"
    using assms(2) reserve_reserved by metis
qed

lemma acknowledge_moves:
  assumes "core_steps a s" "cq_reserved (mc_queue s) = batch" "batch \<noteq> []"
    and "mc_history s = h @ [ApplyEvent batch (Some r)]" "stored_ok r" "\<And>r s'. core_steps a s' \<Longrightarrow> Q r s'"
  shows "wp (on_queue env Acknowledge) Q s"
proof (intro wp_queue, unfold Let_def)
  fix cs w
  let ?s = "queue_steps (map queue_call_of cs) (s\<lparr>mc_world := w\<rparr>)"
  have "cq_reserved (mc_queue ?s) = batch" using others_reserved [of "s\<lparr>mc_world := w\<rparr>"] assms(2,3) by simp
  then have "mc_history ?s = h @ ApplyEvent (cq_reserved (mc_queue ?s)) (Some r) # map QueueEvent (map queue_call_of cs)"
    using assms(4) by simp
  then have "just_stored ?s" unfolding just_stored_def using assms(5) by blast
  then have "core_steps a (queue_steps [Acknowledge] ?s)"
    using assms(1) by (intro core_moves(7) core_steps_others core_moves(1))
  then show "Q (snd (queue_exec Acknowledge (mc_queue ?s))) (queue_steps [Acknowledge] ?s)" by (rule assms(6))
qed

lemma wp_queue_result:
  "(\<And>b. r = Batch b \<Longrightarrow> wp (f b) Q s) \<Longrightarrow> (\<And>b. r \<noteq> Batch b \<Longrightarrow> wp m Q s) \<Longrightarrow>
   wp (case r of Batch b \<Rightarrow> f b | _ \<Rightarrow> m) Q s"
  by (cases r) auto

lemma core_steps_flush:
  assumes "core_steps a s"
  shows "wp (flushOneCandidateBatch env p m d) (\<lambda>_. core_steps a) s"
proof -
  have stored: "wp (attempt (ApplyEvent b) (be_applyCandidates (env_backend env) b d) (\<lambda>r.
       if \<not> stored_ok r then State_Monad.return (Returned False)
       else do { on_queue env Acknowledge; State_Monad.return (Returned True) })) (\<lambda>_. core_steps a) s'"
    if "core_steps a s'" "cq_reserved (mc_queue s') = b" "b \<noteq> []" for b s'
    by (intro wp_rules wp_attempt acknowledge_moves [where a = a and batch = b] core_moves(1,6) that)
       (use that in \<open>simp_all add: core_moves(1,6)\<close>)
  show ?thesis
    unfolding flushOneCandidateBatch_def using assms
    by (intro wp_rules stop_moves [where a = a] reserve_moves [where a = a] wp_queue_result)
       (simp_all add: stored)
qed

lemma core_steps_backend: "core_steps a s \<Longrightarrow> wp (ensureBackend env) (\<lambda>_. core_steps a) s"
  unfolding ensureBackend_def by (intro wp_rules wp_outside) (simp_all add: core_moves(1,2))

lemma moves_use:
  assumes "wp m (\<lambda>_. core_steps s) s" "core_steps a s" "\<And>r s'. core_steps a s' \<Longrightarrow> core_steps s s' \<Longrightarrow> Q r s'"
  shows "wp m Q s"
  using assms by (intro wp_mono [OF assms(1)]) (metis rtranclp_trans)

lemma core_steps_loop: "core_steps a s \<Longrightarrow> wp (drain_loop env p m d fuel) (\<lambda>_. core_steps a) s"
proof (induction fuel arbitrary: s)
  case (Suc fuel)
  have empty: "wp (candidates_empty env) Q s" if "\<And>b s'. core_steps a s' \<Longrightarrow> Q b s'" for Q
    using that Suc.prems by (intro wp_empty) (simp add: Let_def core_moves(1) core_steps_others)
  show ?case
    unfolding drain_loop.simps
    by (intro wp_rules empty stop_moves [where a = a] followed_moves [where a = a] core_steps_flush Suc.IH
        outside_moves [where a = a])
qed (simp add: wp_return)

lemma core_steps_drain: "core_steps a s \<Longrightarrow> wp (drainCandidatesUntil env fuel p m d) (\<lambda>_. core_steps a) s"
  unfolding drainCandidatesUntil_def
  by (intro wp_rules queue_moves [where a = a] core_steps_backend [of a, THEN wp_mono] caught_moves core_steps_loop) simp_all

lemma core_steps_history: "core_steps s s' \<Longrightarrow> \<exists>h. mc_history s' = mc_history s @ h"
proof (induction rule: rtranclp_induct)
  case (step s' t)
  then show ?case by (auto elim!: core_step.cases)
qed simp

lemma complete_moves:
  assumes "core_steps a s" "mc_history s = h0 @ [BarrierEvent (Some r), InflightEvent (Some 0)] @ h1"
    and "reset_status r = StoreOk" "reset_completed (reset_state r) < reset_requested (reset_state r)"
  shows "wp (complete_barrier env p m d (reset_requested (reset_state r))) (\<lambda>_. core_steps a) s"
proof -
  have reached: "barrier_reached (mc_history s @ InflightEvent (Some 0) # map (QueueEvent \<circ> queue_call_of) cs)
      (reset_requested (reset_state r))" for cs
    unfolding barrier_reached_def using assms(3,4)
    by (intro exI [of _ h0] exI [of _ r] exI [of _ h1] exI [of _ "map queue_call_of cs"]) (simp add: assms(2))
  show ?thesis
    unfolding complete_barrier_def
    by (intro wp_rules stop_moves [where a = a] read_moves [where a = a] wp_empty, unfold Let_def)
       (auto intro!: wp_rules wp_attempt core_moves(1,12) core_steps_others assms(1) reached)
qed

lemma core_steps_barrier:
  assumes "core_steps a s" "mc_history s = h @ [BarrierEvent (Some r)]" "reset_status r = StoreOk"
  shows "wp (handleResetBarrier env fuel r p m d) (\<lambda>_. core_steps a) s"
proof -
  have drained: "wp (drainCandidatesUntil env fuel p m d) (\<lambda>drained. wp (case drained of
        None \<Rightarrow> State_Monad.return Unfinished
      | Some ok \<Rightarrow> if \<not> ok then State_Monad.return (Returned False)
          else complete_barrier env p m d (reset_requested (reset_state r))) (\<lambda>_. core_steps a)) s'"
    if s': "core_steps a s'" "mc_history s' = h @ [BarrierEvent (Some r), InflightEvent (Some 0)]"
      and lt: "reset_completed (reset_state r) < reset_requested (reset_state r)" for s'
  proof (intro moves_use [OF core_steps_drain [OF rtranclp.rtrancl_refl] s'(1)] wp_rules)
    fix res t assume t: "core_steps a t" "core_steps s' t"
    then obtain h1 where "mc_history t = h @ [BarrierEvent (Some r), InflightEvent (Some 0)] @ h1"
      using core_steps_history [OF t(2)] s'(2) by auto
    then show "wp (complete_barrier env p m d (reset_requested (reset_state r))) (\<lambda>_. core_steps a) t"
      by (intro complete_moves t assms lt)
  qed simp_all
  show ?thesis
    unfolding handleResetBarrier_def
    by (intro wp_rules read_moves [where a = a] drained) (use assms in simp_all)
qed

lemma publish_moves:
  assumes "core_steps a s"
    and "\<And>candidate. prepareCandidate active now = Some candidate \<Longrightarrow> snapshot_ready (mc_history s) now candidate revision"
  shows "wp (publish_active env p m d now steady due revision active) (\<lambda>_. core_steps a) s"
  unfolding publish_active_def publishCandidate_def option.case Let_def prod.case not_True_eq_False if_False
  by (intro wp_rules stop_moves [where a = a] core_moves(8) [where now_ms = now] assms(1)) (simp_all add: assms(2))

lemma core_steps_refresh:
  assumes "core_steps a s"
  shows "wp (refreshSnapshotAndExpiry env p m d now steady) (\<lambda>_. core_steps a) s"
proof -
  have publish: "wp (followed_by (remove_expired env p m d now due (snapshot_revision r) (expired_entries now unique))
     (\<lambda>x. case x of None \<Rightarrow> State_Monad.return (Returned ())
        | Some v \<Rightarrow> publish_active env p m d now steady due v (active_entries now unique))) (\<lambda>_. core_steps a) s'"
    if s': "core_steps a s'" "mc_history s' = h @ [SnapshotEvent (Some r)]" "snapshot_status r = StoreOk"
      "unique_entries (snapshot_entries r) [] = Some unique" for s' due r unique h
  proof -
    have "snapshot_ready (h @ [SnapshotEvent (Some r)]) now c (snapshot_revision r)"
      if "prepareCandidate (active_entries now unique) now = Some c" for c
      unfolding snapshot_ready_def using s' that by blast
    moreover have "snapshot_ready (h @ [SnapshotEvent (Some r),
        RemoveEvent (expired_entries now unique) (snapshot_revision r) now (Some removed)]) now c v"
      if "prepareCandidate (active_entries now unique) now = Some c" "stored_ok removed" "store_revision removed = Some v" for c v removed
      unfolding snapshot_ready_def using s' that stored_ok_def by blast
    ultimately show ?thesis
      unfolding remove_expired_def
      by (intro wp_followed wp_rules read_moves [where a = a] stop_moves [where a = a] publish_moves s'(1))
         (use s' in \<open>auto split: if_splits intro!: wp_rules publish_moves\<close>)
  qed
  show ?thesis
    unfolding refreshSnapshotAndExpiry_def
    by (intro wp_rules read_moves [where a = a] stop_moves [where a = a] publish assms) simp_all
qed

lemma core_steps_retry:
  assumes "core_steps a s"
  shows "wp (retryPublishedRevision env p m d) (\<lambda>_. core_steps a) s"
  unfolding retryPublishedRevision_def using assms
  by (intro wp_rules stop_moves [where a = a] wp_attempt) (simp_all add: core_moves(1,9,10))

lemma delete_moves:
  assumes "core_steps a s" "deletable (mc_history s) ids"
    and "\<And>r s'. core_steps a s' \<Longrightarrow> mc_history s' = mc_history s @ [DeleteEvent ids (Some r)] \<Longrightarrow> wp (f r) Q s'"
    and "\<And>s'. core_steps a s' \<Longrightarrow> Q Thrown s'"
  shows "wp (attempt (DeleteEvent ids) act f) Q s"
  using assms(2) by (intro wp_attempt assms(3,4) core_moves(1,11) assms(1)) simp_all

lemma commit_moves:
  assumes "core_steps a s" "PendingEvent (Some r) \<in> set (mc_history s)" "pending_status r = StoreOk"
  shows "wp (commit_pending env p m d (pending_entries r)) (\<lambda>_. core_steps a) s"
proof -
  have "deletable (mc_history s @ [MysqlEvent (pending_mutations (pending_entries r)) (Some True)]) (valid_ids (pending_entries r))"
    unfolding deletable_def using assms by blast
  then show ?thesis
    unfolding commit_pending_def using assms(1)
    by (intro wp_rules stop_moves [where a = a] read_moves [where a = a] delete_moves [where a = a]) simp_all
qed

lemma core_steps_pending:
  assumes "core_steps a s"
  shows "wp (flushOnePendingBatch env p m d) (\<lambda>_. core_steps a) s"
proof -
  have "deletable (h @ [PendingEvent (Some r)]) (invalid_ids (pending_entries r))" if "pending_status r = StoreOk" for h r
    unfolding deletable_def using that by blast
  then show ?thesis
    unfolding flushOnePendingBatch_def using assms
    by (intro wp_rules stop_moves [where a = a] read_moves [where a = a] delete_moves [where a = a] commit_moves) simp_all
qed

text \<open>A round is a sequence of steps.\<close>

lemma core_steps_body:
  assumes "core_steps a s"
  shows "wp (round_body env fuel p m d now steady) (\<lambda>_. core_steps a) s"
  unfolding round_body_def finish_round_def
  by (intro wp_rules followed_moves [where a = a] read_moves [where a = a] core_steps_flush core_steps_barrier
      core_steps_refresh core_steps_retry core_steps_pending assms) simp_all

lemma core_steps_round:
  assumes "core_steps a s"
  shows "wp (runRound env fuel p m d now steady) (\<lambda>_. core_steps a) s"
  unfolding runRound_def
  by (intro wp_rules queue_moves [where a = a] core_steps_backend [of a, THEN wp_mono] stop_moves [where a = a]
      caught_moves core_steps_body core_moves(3) assms) simp_all

end
