(* ===== verification/Maintenance_Round.thy ===== *)
theory Maintenance_Round
  imports Maintenance_Steps
begin

text \<open>
  What rounds of maintenance guarantee, whatever the backend answers and however the login workers
  use the queue meanwhile: candidates reach Redis, the reset barrier is confirmed only behind them,
  pending changes leave the stream only behind MySQL, the published snapshot is one that was loaded.
\<close>

section \<open>Calls to the core\<close>

datatype 'w core_call =
    RoundCall nat "'w token" "'w token" int nat int
  | DrainCall nat "'w token" "'w token" int

fun core_call_run :: "'w MaintenanceEnv \<Rightarrow> 'w core_call \<Rightarrow> ('w, unit) core_action" where
  "core_call_run env (RoundCall fuel p m deadline now_ms steady_now) =
     do { runRound env fuel p m deadline now_ms steady_now; State_Monad.return () }"
| "core_call_run env (DrainCall fuel p m deadline) =
     do { drainCandidatesUntil env fuel p m deadline; State_Monad.return () }"

fun core_session :: "'w MaintenanceEnv \<Rightarrow> 'w core_call list \<Rightarrow> ('w, unit) core_action" where
  "core_session env [] = State_Monad.return ()"
| "core_session env (c # cs) = do { core_call_run env c; core_session env cs }"

lemma core_steps_call: "core_steps a s \<Longrightarrow> wp (core_call_run env c) (\<lambda>_. core_steps a) s"
  by (cases c) (auto intro!: wp_rules core_steps_round [of a, THEN wp_mono] core_steps_drain [of a, THEN wp_mono])

lemma core_steps_session: "core_steps a s \<Longrightarrow> wp (core_session env cs) (\<lambda>_. core_steps a) s"
  by (induction cs arbitrary: s) (auto intro!: wp_rules core_steps_call [of a, THEN wp_mono])

lemma session_invariant:
  assumes "run_state (core_session env cs) s = (u, s')" "I s" "\<And>t t'. I t \<Longrightarrow> core_step t t' \<Longrightarrow> I t'"
  shows "I s'"
proof -
  have "core_steps s s'" using wp_run [OF core_steps_session assms(1)] by blast
  then show ?thesis using assms(2,3) by (induction rule: rtranclp_induct) auto
qed

text \<open>A property of every event of a history, given the events before it.\<close>

definition guarded :: "(maintenance_event list \<Rightarrow> maintenance_event \<Rightarrow> bool) \<Rightarrow> maintenance_event list \<Rightarrow> bool" where
  "guarded P h \<longleftrightarrow> (\<forall>h1 e h2. h = h1 @ e # h2 \<longrightarrow> P h1 e)"

lemma guarded_Nil [simp]: "guarded P []"
  by (simp add: guarded_def)

lemma guarded_snocI: "guarded P h \<Longrightarrow> P h e \<Longrightarrow> guarded P (h @ [e])"
proof (unfold guarded_def, intro allI impI)
  fix h1 x h2 assume g: "\<forall>h1 e h2. h = h1 @ e # h2 \<longrightarrow> P h1 e" "P h e" "h @ [e] = h1 @ x # h2"
  show "P h1 x" using g by (cases h2 rule: rev_cases) auto
qed

section \<open>Candidates\<close>

definition queue_calls :: "maintenance_event list \<Rightarrow> queue_call list" where
  "queue_calls h = List.map_filter (\<lambda>e. case e of QueueEvent c \<Rightarrow> Some c | _ \<Rightarrow> None) h"

definition stored_mutations :: "maintenance_event list \<Rightarrow> BlacklistMutation list" where
  "stored_mutations h =
     concat (List.map_filter (\<lambda>e. case e of ApplyEvent b (Some r) \<Rightarrow> if stored_ok r then Some b else None | _ \<Rightarrow> None) h)"

lemma map_filter_append: "List.map_filter f (xs @ ys) = List.map_filter f xs @ List.map_filter f ys"
  by (simp add: List.map_filter_def)

lemma history_views [simp]:
  "queue_calls [] = []" "stored_mutations [] = []"
  "queue_calls (h @ h') = queue_calls h @ queue_calls h'"
  "stored_mutations (h @ h') = stored_mutations h @ stored_mutations h'"
  "queue_calls [e] = (case e of QueueEvent c \<Rightarrow> [c] | _ \<Rightarrow> [])"
  "stored_mutations [e] = (case e of ApplyEvent b (Some r) \<Rightarrow> if stored_ok r then b else [] | _ \<Rightarrow> [])"
  by (simp_all add: queue_calls_def stored_mutations_def map_filter_append)
     (auto simp: List.map_filter_def split: maintenance_event.split option.split)

lemma acknowledged_append:
  "acknowledged_of (cs @ ds) q = acknowledged_of cs q @ acknowledged_of ds (fst (run_calls queue_exec cs q))"
  by (induction cs arbitrary: q) (simp_all add: run_cons del: run_calls.simps(2))

definition candidates_inv :: "BlacklistCandidateQueue \<Rightarrow> 'w MaintenanceCore \<Rightarrow> bool" where
  "candidates_inv q s \<longleftrightarrow>
     mc_queue s = fst (run_calls queue_exec (queue_calls (mc_history s)) q) \<and>
     set (acknowledged_of (queue_calls (mc_history s)) q) \<subseteq> set (stored_mutations (mc_history s)) \<and>
     DiscardRemaining \<notin> set (queue_calls (mc_history s))"

lemma candidates_queue_step:
  assumes "candidates_inv q s" "c \<noteq> DiscardRemaining"
    "c = Acknowledge \<Longrightarrow> set (cq_reserved (mc_queue s)) \<subseteq> set (stored_mutations (mc_history s))"
  shows "candidates_inv q (queue_steps [c] s)"
proof -
  have "set (acknowledged_of [c] (mc_queue s)) \<subseteq> set (stored_mutations (mc_history s))"
    using assms(3) by (cases c) auto
  moreover have "mc_queue (queue_steps [c] s) = fst (run_calls queue_exec [c] (mc_queue s))"
    by (simp add: queue_steps_def)
  ultimately show ?thesis
    using assms(1,2) unfolding candidates_inv_def
    by (simp add: run_calls_append acknowledged_append case_prod_beta Let_def del: run_calls.simps acknowledged_of.simps)
qed

lemma candidates_noted: "candidates_inv q s \<Longrightarrow> queue_calls [e] = [] \<Longrightarrow> candidates_inv q (noted e s)"
  unfolding candidates_inv_def by (auto simp del: history_views(5,6))

lemma just_stored_reserved: "just_stored s \<Longrightarrow> set (cq_reserved (mc_queue s)) \<subseteq> set (stored_mutations (mc_history s))"
proof -
  assume "just_stored s"
  then obtain h r cs where
    "mc_history s = h @ [ApplyEvent (cq_reserved (mc_queue s)) (Some r)] @ map QueueEvent cs" "stored_ok r"
    unfolding just_stored_def by auto
  then have "stored_mutations (mc_history s) =
      stored_mutations h @ cq_reserved (mc_queue s) @ stored_mutations (map QueueEvent cs)"
    by (simp only: history_views) simp
  then show ?thesis by auto
qed

lemma reading_no_call: "reading e \<Longrightarrow> queue_calls [e] = []"
  by (cases e) auto

lemma candidates_step:
  assumes "candidates_inv q s" "core_step s s'"
  shows "candidates_inv q s'"
  using assms(2)
proof cases
  case (step_read e)
  then show ?thesis using candidates_noted [OF assms(1) reading_no_call] by blast
next
  case (step_queue c)
  then show ?thesis using candidates_queue_step [OF assms(1)] by blast
next
  case step_acknowledge
  then show ?thesis
    using candidates_queue_step [OF assms(1), of Acknowledge] just_stored_reserved [of s] by simp
qed (use assms(1) in \<open>auto simp: candidates_inv_def\<close>)

lemma candidates_settled:
  assumes "candidates_inv q s" "m \<in> set (accepted_of (queue_calls (mc_history s)) q)"
  shows "kept m (mc_queue s) \<or> covered m (stored_mutations (mc_history s))"
  using accepted_keeps [OF assms(2)] assms(1) unfolding candidates_inv_def covered_def by auto

section \<open>Order of the calls\<close>

text \<open>What has happened before each call that cannot be taken back.\<close>

fun ordered :: "BlacklistCandidateQueue \<Rightarrow> maintenance_event list \<Rightarrow> maintenance_event \<Rightarrow> bool" where
  "ordered q h (CompleteEvent token status) \<longleftrightarrow> barrier_reached h token \<and>
     (\<forall>m \<in> set (accepted_of (queue_calls h) q). covered m (stored_mutations h))"
| "ordered q h (DeleteEvent ids status) \<longleftrightarrow> deletable h ids"
| "ordered q h e \<longleftrightarrow> True"

definition order_inv :: "BlacklistCandidateQueue \<Rightarrow> 'w MaintenanceCore \<Rightarrow> bool" where
  "order_inv q s \<longleftrightarrow> candidates_inv q s \<and> guarded (ordered q) (mc_history s)"

lemma empty_settled:
  assumes "candidates_inv q s" "queue_empty (mc_queue s)" "m \<in> set (accepted_of (queue_calls (mc_history s)) q)"
  shows "covered m (stored_mutations (mc_history s))"
  using candidates_settled [OF assms(1,3)] assms(2) by (auto simp: kept_def queue_empty_def covered_def)

lemma reading_ordered: "reading e \<Longrightarrow> ordered q h e"
  by (cases e) auto

lemma order_step:
  assumes "order_inv q s" "core_step s s'"
  shows "order_inv q s'"
proof -
  have inv: "candidates_inv q s" "guarded (ordered q) (mc_history s)"
    using assms(1) by (simp_all add: order_inv_def)
  have "guarded (ordered q) (mc_history s')"
    using assms(2)
  proof cases
    case (step_complete token status)
    then show ?thesis using inv empty_settled [OF inv(1)] by (auto intro!: guarded_snocI)
  qed (use inv(2) in \<open>auto intro: guarded_snocI reading_ordered\<close>)
  then show ?thesis using candidates_step [OF inv(1) assms(2)] by (simp add: order_inv_def)
qed

section \<open>Publication\<close>





lemma ready_last: "snapshot_ready h now c v \<Longrightarrow> h \<noteq> [] \<and> last h \<noteq> PublishedEvent r status"
  by (auto simp: snapshot_ready_def)

definition published_from :: "maintenance_event list \<Rightarrow> bool \<Rightarrow> nat \<Rightarrow> BlacklistSnapshot \<Rightarrow> bool" where
  "published_from h dirty revision c \<longleftrightarrow> (\<exists>h1 h2 now. h = h1 @ h2 \<and> snapshot_ready h1 now c revision \<and>
     (dirty \<or> PublishedEvent revision (Some StoreOk) \<in> set h2))"

definition publication_inv :: "BlacklistManager \<Rightarrow> nat \<Rightarrow> 'w MaintenanceCore \<Rightarrow> bool" where
  "publication_inv mgr revision s \<longleftrightarrow>
     mc_manager s = mgr \<and> last_published_revision s = revision \<or>
     (\<exists>c. mc_manager s = Some c \<and>
        published_from (mc_history s) (publication_dirty s) (last_published_revision s) c)"

lemma published_more: "published_from h d v c \<Longrightarrow> published_from (h @ h') d v c"
  unfolding published_from_def by (metis append.assoc set_append UnI1)

lemma published_clean:
  assumes "published_from h d v c" "h = h' @ [PublishedEvent v (Some StoreOk)]"
  shows "published_from h d' v c"
proof -
  obtain h1 h2 now where h: "h = h1 @ h2" "snapshot_ready h1 now c v"
    using assms(1) unfolding published_from_def by blast
  have "h2 \<noteq> []" using assms(2) h ready_last [OF h(2), of v "Some StoreOk"] by auto
  then have "last h2 = PublishedEvent v (Some StoreOk)" using assms(2) h(1) by (metis last_appendR last_snoc)
  then show ?thesis unfolding published_from_def using h \<open>h2 \<noteq> []\<close> last_in_set by metis
qed

lemma published_now: "snapshot_ready h now c v \<Longrightarrow> published_from h True v c"
  unfolding published_from_def by (metis append_Nil2)

lemma publication_step:
  assumes "publication_inv mgr revision s" "core_step s s'"
  shows "publication_inv mgr revision s'"
  using assms(2)
proof cases
  case step_publish
  then show ?thesis using published_now by (auto simp: publication_inv_def)
next
  case step_clean
  then show ?thesis using assms(1) published_clean by (auto simp: publication_inv_def)
qed (use assms(1) in \<open>auto simp: publication_inv_def published_more queue_steps_def noted_def\<close>)

section \<open>The drain ends\<close>

text \<open>
  The clock never goes back, a transaction takes time, and a stop request is never withdrawn: an
  action keeps both, the tokens report the request.
\<close>

definition ahead :: "('w \<Rightarrow> int) \<Rightarrow> ('w \<Rightarrow> bool) \<Rightarrow> 'w \<Rightarrow> 'w \<Rightarrow> bool" where
  "ahead clock stopped w w' \<longleftrightarrow> clock w \<le> clock w' \<and> (stopped w \<longrightarrow> stopped w')"

definition keeps_time :: "('w \<Rightarrow> int) \<Rightarrow> ('w \<Rightarrow> bool) \<Rightarrow> ('w, 'a) state \<Rightarrow> bool" where
  "keeps_time clock stopped m \<longleftrightarrow> (\<forall>w. ahead clock stopped w (snd (run_state m w)))"

definition time_passes ::
  "('w \<Rightarrow> int) \<Rightarrow> ('w \<Rightarrow> bool) \<Rightarrow> 'w MaintenanceEnv \<Rightarrow> 'w token \<Rightarrow> 'w token \<Rightarrow> bool" where
  "time_passes clock stopped env p m \<longleftrightarrow>
     keeps_time clock stopped p \<and> keeps_time clock stopped m \<and> keeps_time clock stopped (env_clock env) \<and>
     keeps_time clock stopped (env_create env) \<and> keeps_time clock stopped (env_other_calls env) \<and>
     (\<forall>ms. keeps_time clock stopped (env_sleep env ms)) \<and>
     (\<forall>b d. keeps_time clock stopped (be_applyCandidates (env_backend env) b d)) \<and>
     (\<forall>b d w. clock w < clock (snd (run_state (be_applyCandidates (env_backend env) b d) w))) \<and>
     (\<forall>w. clock w \<le> fst (run_state (env_clock env) w) \<and>
        fst (run_state (env_clock env) w) \<le> clock (snd (run_state (env_clock env) w))) \<and>
     (\<forall>w. fst (run_state p w) \<or> fst (run_state m w) \<longrightarrow> stopped w) \<and>
     (\<forall>w. stopped w \<longrightarrow> fst (run_state p w) \<or> fst (run_state m (snd (run_state p w))))"

lemma ahead_refl [simp]: "ahead clock stopped w w"
  by (simp add: ahead_def)

lemma ahead_trans: "ahead clock stopped w w' \<Longrightarrow> ahead clock stopped w' w'' \<Longrightarrow> ahead clock stopped w w''"
  by (auto simp: ahead_def)

lemma outside_time:
  assumes "keeps_time clock stopped act"
    and "\<And>a w. run_state act (mc_world s) = (a, w) \<Longrightarrow> ahead clock stopped (mc_world s) w \<Longrightarrow> Q a (s\<lparr>mc_world := w\<rparr>)"
  shows "wp (outside act) Q s"
proof -
  obtain a w where r: "run_state act (mc_world s) = (a, w)" by fastforce
  moreover have "ahead clock stopped (mc_world s) w" using assms(1) r unfolding keeps_time_def by (metis snd_conv)
  ultimately show ?thesis unfolding outside_def wp_def using assms(2) [OF r] by simp
qed

definition halted :: "('w \<Rightarrow> int) \<Rightarrow> ('w \<Rightarrow> bool) \<Rightarrow> int \<Rightarrow> 'w \<Rightarrow> bool" where
  "halted clock stopped d w \<longleftrightarrow> stopped w \<or> d \<le> clock w"

lemma halted_ahead: "halted clock stopped d w \<Longrightarrow> ahead clock stopped w w' \<Longrightarrow> halted clock stopped d w'"
  by (auto simp: halted_def ahead_def)

lemma stop_time:
  assumes T: "time_passes clock stopped env p m"
    and Q: "\<And>b w. ahead clock stopped (mc_world s) w \<Longrightarrow> b \<longrightarrow> halted clock stopped d w \<Longrightarrow>
      \<not> b \<longrightarrow> \<not> halted clock stopped d (mc_world s) \<Longrightarrow> Q b (s\<lparr>mc_world := w\<rparr>)"
  shows "wp (shouldStop env p m d) Q s"
proof -
  obtain a w1 where p: "run_state p (mc_world s) = (a, w1)" by fastforce
  obtain b w2 where m: "run_state m w1 = (b, w2)" by fastforce
  obtain n w3 where c: "run_state (env_clock env) w2 = (n, w3)" by fastforce
  have a1: "ahead clock stopped (mc_world s) w1" "ahead clock stopped w1 w2" "ahead clock stopped w2 w3"
    using T p m c unfolding time_passes_def keeps_time_def by (metis snd_conv)+
  have st: "a \<longrightarrow> stopped (mc_world s)" "b \<longrightarrow> stopped w1" "stopped (mc_world s) \<longrightarrow> a \<or> b"
    "clock w2 \<le> n" "n \<le> clock w3"
    using T p m c unfolding time_passes_def by (metis fst_conv snd_conv)+
  show ?thesis
    unfolding wp_def shouldStop_def outside_def using p m c a1 st
    by (auto intro!: Q simp: halted_def ahead_def)
qed

lemma passes_parts:
  assumes "time_passes clock stopped env p m"
  shows "keeps_time clock stopped (env_other_calls env)" "keeps_time clock stopped (env_clock env)"
    "keeps_time clock stopped (env_sleep env ms)" "keeps_time clock stopped (env_create env)"
    "keeps_time clock stopped (be_applyCandidates (env_backend env) b d)"
    "run_state (be_applyCandidates (env_backend env) b d) w = (r, w') \<Longrightarrow> clock w < clock w'"
  using assms unfolding time_passes_def by (metis snd_conv)+

lemma queue_steps_simps [simp]:
  "mc_world (queue_steps cs s) = mc_world s" "mc_config (queue_steps cs s) = mc_config s"
  "mc_world (noted e s) = mc_world s" "mc_config (noted e s) = mc_config s"
  by (simp_all add: queue_steps_def noted_def)

lemma others_nonempty:
  "\<not> queue_empty q \<Longrightarrow> \<not> queue_empty (fst (run_calls queue_exec (map queue_call_of cs) q))"
proof (induction cs arbitrary: q)
  case (Cons c cs)
  have "\<not> queue_empty (fst (queue_exec (queue_call_of c) q))"
    using Cons.prems by (cases c) (auto simp: queue_empty_def queue_trySubmit_def queue_close_def)
  then show ?case using Cons.IH by (simp add: run_cons del: run_calls.simps)
qed simp

lemma merge_nonempty: "mergeIntoReserved b m \<noteq> []"
  by (cases b) auto

lemma reserve_nonempty: "\<not> queue_empty q \<Longrightarrow> 0 < n \<Longrightarrow> snd (reserveBatch n q) \<noteq> []"
proof -
  have "foldl mergeIntoReserved b ms \<noteq> []" if "ms \<noteq> []" for b ms
    using that by (cases ms rule: rev_cases) (simp_all add: merge_nonempty)
  then show "\<not> queue_empty q \<Longrightarrow> 0 < n \<Longrightarrow> snd (reserveBatch n q) \<noteq> []"
    by (auto simp: reserveBatch_def queue_empty_def Let_def)
qed

lemma queue_time:
  assumes "time_passes clock stopped env p m"
    and "\<And>cs w. let s' = queue_steps (map queue_call_of cs) (s\<lparr>mc_world := w\<rparr>) in
      ahead clock stopped (mc_world s) w \<longrightarrow> Q (snd (queue_exec c (mc_queue s'))) (queue_steps [c] s')"
  shows "wp (on_queue env c) Q s"
  unfolding on_queue_def other_threads_def
  by (intro wp_rules outside_time [OF passes_parts(1) [OF assms(1)]]) (use assms(2) in \<open>simp add: Let_def\<close>)

lemma empty_time:
  assumes "time_passes clock stopped env p m"
    and "\<And>cs w. let s' = queue_steps (map queue_call_of cs) (s\<lparr>mc_world := w\<rparr>) in
      ahead clock stopped (mc_world s) w \<longrightarrow> Q (queue_empty (mc_queue s')) s'"
  shows "wp (candidates_empty env) Q s"
  unfolding candidates_empty_def other_threads_def
  by (intro wp_rules outside_time [OF passes_parts(1) [OF assms(1)]]) (use assms(2) in \<open>simp add: Let_def\<close>)

lemma apply_time:
  assumes "time_passes clock stopped env p m"
    and "\<And>x w. ahead clock stopped (mc_world s) w \<Longrightarrow> clock (mc_world s) < clock w \<Longrightarrow>
      wp (f x) Q (noted (ApplyEvent b (Some x)) (s\<lparr>mc_world := w\<rparr>))"
    and "\<And>w. ahead clock stopped (mc_world s) w \<Longrightarrow> clock (mc_world s) < clock w \<Longrightarrow>
      Q Thrown (noted (ApplyEvent b None) (s\<lparr>mc_world := w\<rparr>))"
  shows "wp (attempt (ApplyEvent b) (be_applyCandidates (env_backend env) b d) f) Q s"
  unfolding attempt_def note_event_def
  by (intro wp_rules outside_time [OF passes_parts(5) [OF assms(1)]])
     (use assms(2,3) passes_parts(6) [OF assms(1)] in \<open>auto simp: noted_def\<close>)

definition flushed_in_time ::
  "('w \<Rightarrow> int) \<Rightarrow> ('w \<Rightarrow> bool) \<Rightarrow> int \<Rightarrow> 'w MaintenanceCore \<Rightarrow> bool outcome \<Rightarrow> 'w MaintenanceCore \<Rightarrow> bool" where
  "flushed_in_time clock stopped d s b s' \<longleftrightarrow>
     ahead clock stopped (mc_world s) (mc_world s') \<and> mc_config s' = mc_config s \<and>
     (clock (mc_world s) < clock (mc_world s') \<or> b = Returned False \<and> halted clock stopped d (mc_world s')) \<and>
     b \<noteq> Unfinished"

lemma flush_time:
  assumes T: "time_passes clock stopped env p m"
    and "0 < candidate_batch_size (mc_config s)" "\<not> queue_empty (mc_queue s)"
  shows "wp (flushOneCandidateBatch env p m d) (flushed_in_time clock stopped d s) s"
proof -
  have batch: "snd (reserveBatch (candidate_batch_size (mc_config s)) (mc_queue
      (queue_steps (map queue_call_of cs) (s\<lparr>mc_world := w\<rparr>)))) \<noteq> []" for cs w
    using assms(2,3) by (intro reserve_nonempty) (simp_all add: queue_steps_def others_nonempty)
  show ?thesis
    unfolding flushOneCandidateBatch_def
    by (intro wp_rules stop_time [OF T] queue_time [OF T] apply_time [OF T] wp_queue_result, unfold Let_def)
       (auto simp: batch flushed_in_time_def case_prod_beta ahead_def
             intro!: wp_rules queue_time [OF T] apply_time [OF T])
qed

lemma loop_ends:
  assumes T: "time_passes clock stopped env p m"
    and "0 < candidate_batch_size (mc_config s)" "nat (d - clock (mc_world s)) < fuel"
  shows "wp (drain_loop env p m d fuel) (\<lambda>r _. r \<noteq> Unfinished) s"
  using assms(2,3)
proof (induction fuel arbitrary: s)
  case (Suc fuel)
  have again: "wp (drain_loop env p m d fuel) (\<lambda>r _. r \<noteq> Unfinished) s'"
    if "mc_config s' = mc_config s" "clock (mc_world s) < d" "clock (mc_world s) < clock (mc_world s')" for s'
    using that Suc.prems by (intro Suc.IH) auto
  have failed: "wp (shouldStop env p m d) (\<lambda>stop. wp (if stop then State_Monad.return (Returned False)
      else do {
        now \<leftarrow> outside (env_clock env);
        outside (env_sleep env (min (to_ms (d - now)) 10));
        drain_loop env p m d fuel
      }) (\<lambda>r _. r \<noteq> Unfinished)) s'"
    if "mc_config s' = mc_config s" "clock (mc_world s) < d"
      "halted clock stopped d (mc_world s') \<or> clock (mc_world s) < clock (mc_world s')" for s'
    by (intro wp_rules stop_time [OF T] outside_time [OF passes_parts(2) [OF T]]
          outside_time [OF passes_parts(3) [OF T]] again)
       (use that in \<open>auto simp: ahead_def\<close>)
  show ?case
    unfolding drain_loop.simps
    by (intro wp_rules empty_time [OF T] stop_time [OF T], unfold Let_def, intro impI wp_rules stop_time [OF T]
          wp_followed flush_time [OF T, THEN wp_mono] conjI allI again failed)
       (use Suc.prems(1) in \<open>auto simp: flushed_in_time_def ahead_def halted_def\<close>)
qed simp

lemma drain_ends:
  assumes "time_passes clock stopped env p m"
    and "0 < candidate_batch_size (mc_config s)" "nat (d - clock (mc_world s)) < fuel"
  shows "wp (drainCandidatesUntil env fuel p m d) (\<lambda>r _. r \<noteq> None) s"
  unfolding drainCandidatesUntil_def ensureBackend_def
  by (intro wp_rules queue_time [OF assms(1)], unfold Let_def, intro impI wp_rules
        outside_time [OF passes_parts(4) [OF assms(1)]] wp_caught loop_ends [OF assms(1), THEN wp_mono])
     (use assms(2,3) in \<open>auto simp: ahead_def\<close>)

lemma wp_any: "(\<And>r s'. Q r s') \<Longrightarrow> wp act Q s"
  by (simp add: wp_def split: prod.splits)

text \<open>A drain that reports success ends with an empty queue.\<close>

lemma loop_empties: "wp (drain_loop env p m d fuel) (\<lambda>r s'. r = Returned True \<longrightarrow> queue_empty (mc_queue s')) s"
proof (induction fuel arbitrary: s)
  case (Suc fuel)
  show ?case
    unfolding drain_loop.simps
    by (intro wp_rules wp_empty, unfold Let_def)
       (auto intro!: wp_rules wp_followed wp_any [of _ "shouldStop env p m d"] wp_any [of _ "flushOneCandidateBatch env p m d"]
          wp_any [of _ "outside act" for act] Suc.IH)
qed (simp add: wp_return)

lemma drain_empties:
  "wp (drainCandidatesUntil env fuel p m d) (\<lambda>r s'. r = Some True \<longrightarrow> queue_empty (mc_queue s')) s"
  unfolding drainCandidatesUntil_def
  by (intro wp_rules wp_caught loop_empties [THEN wp_mono] wp_any [of _ "on_queue env TakeDropped"]
      wp_any [of _ "ensureBackend env"]) simp_all

lemma config_step: "core_step s s' \<Longrightarrow> mc_config s' = mc_config s"
  by (cases rule: core_step.cases) auto

section \<open>Properties\<close>

lemma covered_iff:
  "covered m ms \<longleftrightarrow> (\<exists>x \<in> set ms. mut_entity_type x = mut_entity_type m \<and> mut_id x = mut_id m \<and>
     (mut_expire_at_ms x = 0 \<or> mut_expire_at_ms m \<noteq> 0 \<and> mut_expire_at_ms m \<le> mut_expire_at_ms x))"
  unfolding covered_def by auto

lemma created_inv:
  assumes "core_create config q mgr revision dirty first w = Some s"
  shows "order_inv q s" "publication_inv mgr revision s" "mc_config s = config" "0 < candidate_batch_size config"
  using assms by (auto simp: core_create_def order_inv_def candidates_inv_def publication_inv_def validConfig_def
      split: if_splits)

lemma session_order:
  assumes "core_create config q mgr revision dirty first w = Some s" "run_state (core_session env cs) s = (u, s')"
  shows "order_inv q s'" "publication_inv mgr revision s'" "mc_config s' = config"
  using session_invariant [OF assms(2), of "order_inv q"] order_step created_inv [OF assms(1)]
    session_invariant [OF assms(2), of "publication_inv mgr revision"] publication_step
    session_invariant [OF assms(2), of "\<lambda>s. mc_config s = config"] config_step by metis+

subsection \<open>An example\<close>

text \<open>A backend that answers every call, in a world that is the time; one login worker bans an
  address at the start; one record of the pending stream cannot be parsed.\<close>

definition example_mutation :: BlacklistMutation where
  "example_mutation = example_ban ''i'' 7"

definition example_snapshot :: SnapshotReadResult where
  "example_snapshot = \<lparr>snapshot_status = StoreOk, snapshot_revision = 2, snapshot_entries =
     [\<lparr>entry_type = EntityIp, entry_id = ''i'', expire_at_ms = 9\<rparr>,
      \<lparr>entry_type = EntityUser, entry_id = ''u'', expire_at_ms = 4\<rparr>]\<rparr>"

definition example_pending :: PendingReadResult where
  "example_pending = \<lparr>pending_status = StoreOk, pending_entries =
     [\<lparr>stream_id = ''1-0'', pending_mutation = None, pending_error = ''e''\<rparr>,
      \<lparr>stream_id = ''2-0'', pending_mutation = Some example_mutation, pending_error = []\<rparr>]\<rparr>"

definition example_backend :: "int MaintenanceBackend" where
  "example_backend = \<lparr>
     be_applyCandidates = (\<lambda>b d. State (\<lambda>w. (Some \<lparr>store_status = StoreOk, store_revision = Some 2\<rparr>, w + 1))),
     be_readRevision = (\<lambda>d. State_Monad.return (Some \<lparr>store_status = StoreOk, store_revision = Some 2\<rparr>)),
     be_loadStableSnapshot = (\<lambda>n d. State_Monad.return (Some example_snapshot)),
     be_removeExpiredFields = (\<lambda>es r t d. State_Monad.return (Some \<lparr>store_status = StoreOk, store_revision = Some 3\<rparr>)),
     be_setPublishedRevision = (\<lambda>r d. State_Monad.return (Some StoreOk)),
     be_readPending = (\<lambda>n d. State_Monad.return (Some example_pending)),
     be_deletePending = (\<lambda>ids d. State_Monad.return (Some StoreOk)),
     be_applyMysqlMutations = (\<lambda>ms d. State_Monad.return (Some True)),
     be_readResetBarrier = (\<lambda>d. State_Monad.return (Some \<lparr>reset_status = StoreOk,
        reset_state = \<lparr>reset_requested = 1, reset_completed = 0\<rparr>\<rparr>)),
     be_completeResetBarrier = (\<lambda>t d. State_Monad.return (Some StoreOk))\<rparr>"

definition example_env :: "int MaintenanceEnv" where
  "example_env = \<lparr>env_backend = example_backend, env_create = State_Monad.return True,
     env_clock = State (\<lambda>w. (w, w)), env_inflight = State_Monad.return (Some 0), env_sleep = (\<lambda>ms. State_Monad.return ()),
     env_other_calls = State (\<lambda>w. (if w = 0 then [OtherSubmit example_mutation] else [], max w 1))\<rparr>"

definition example_config :: BlacklistMaintenanceConfig where
  "example_config = \<lparr>maintenance_interval = 1, maintenance_timeout = 3, expire_cleanup_interval = 60,
     batch_size = 4, candidate_batch_size = 4\<rparr>"

definition example_queue :: BlacklistCandidateQueue where
  "example_queue = the (queue_create 4)"

definition example_core :: "int MaintenanceCore" where
  "example_core = the (core_create example_config example_queue None 0 False 0 0)"



lemma example_created: "core_create example_config example_queue None 0 False 0 0 = Some example_core"
  by (simp add: example_core_def core_create_def validConfig_def example_config_def maximum_duration_def)



lemma example_env_simps [simp]:
  "env_backend example_env = example_backend" "env_create example_env = State_Monad.return True"
  "env_sleep example_env n = State_Monad.return ()"
  "env_clock example_env = State (\<lambda>w. (w, w))" "env_inflight example_env = State_Monad.return (Some 0)"
  "env_other_calls example_env = State (\<lambda>w. (if w = 0 then [OtherSubmit example_mutation] else [], max w 1))"
  "be_applyCandidates example_backend b d = State (\<lambda>w. (Some \<lparr>store_status = StoreOk, store_revision = Some 2\<rparr>, w + 1))"
  "be_readRevision example_backend d = State_Monad.return (Some \<lparr>store_status = StoreOk, store_revision = Some 2\<rparr>)"
  "be_loadStableSnapshot example_backend k d = State_Monad.return (Some example_snapshot)"
  "be_removeExpiredFields example_backend es v t d = State_Monad.return (Some \<lparr>store_status = StoreOk, store_revision = Some 3\<rparr>)"
  "be_setPublishedRevision example_backend v d = State_Monad.return (Some StoreOk)"
  "be_readPending example_backend k d = State_Monad.return (Some example_pending)"
  "be_deletePending example_backend ids d = State_Monad.return (Some StoreOk)"
  "be_applyMysqlMutations example_backend ms d = State_Monad.return (Some True)"
  "be_readResetBarrier example_backend d = State_Monad.return (Some \<lparr>reset_status = StoreOk,
     reset_state = \<lparr>reset_requested = 1, reset_completed = 0\<rparr>\<rparr>)"
  "be_completeResetBarrier example_backend v d = State_Monad.return (Some StoreOk)"
  by (simp_all add: example_env_def example_backend_def)












text \<open>
  The final drain ends and settles the queue.  If the clock does not go back, a transaction
  takes time and a stop request is not withdrawn, the drain returns for every fuel beyond the time
  left; when it reports success, every candidate accepted so far is covered by a batch stored in Redis.
\<close>

lemma drain_settles_candidates:
  assumes "core_create config q mgr revision dirty first w = Some s"
    and "run_state (core_session env cs) s = (u, s1)"
    and "time_passes clock stopped env p tok" "nat (d - clock (mc_world s1)) < fuel"
    and "run_state (drainCandidatesUntil env fuel p tok d) s1 = (r, s2)"
  shows "r \<noteq> None \<and> (r = Some True \<longrightarrow>
    (\<forall>m \<in> set (accepted_of (queue_calls (mc_history s2)) q). \<exists>x \<in> set (stored_mutations (mc_history s2)).
       mut_entity_type x = mut_entity_type m \<and> mut_id x = mut_id m \<and>
       (mut_expire_at_ms x = 0 \<or> mut_expire_at_ms m \<noteq> 0 \<and> mut_expire_at_ms m \<le> mut_expire_at_ms x)))"
proof -
  note inv = session_order [OF assms(1,2)]
  have "run_state (core_session env [DrainCall fuel p tok d]) s1 = ((), s2)"
    using assms(5) by simp
  then have "order_inv q s2" using session_invariant [of env _ s1 "()" s2] order_step inv(1) by metis
  moreover have "r \<noteq> None"
    using wp_run [OF drain_ends [OF assms(3) _ assms(4)] assms(5)] created_inv(4) [OF assms(1)] inv(3) by simp
  moreover have "r = Some True \<longrightarrow> queue_empty (mc_queue s2)" using wp_run [OF drain_empties assms(5)] .
  ultimately show ?thesis using empty_settled [of q s2] unfolding order_inv_def covered_iff by blast
qed

lemma drain_settles_example:
  "\<exists>ok s2. run_state (drainCandidatesUntil example_env 4 (State_Monad.return False) (State_Monad.return False) 3)
     example_core = (Some ok, s2)"
proof -
  have start: "run_state (core_session example_env []) example_core = ((), example_core)" by simp
  have world: "mc_world example_core = 0"
    by (simp add: example_core_def core_create_def validConfig_def example_config_def maximum_duration_def)
  have time: "time_passes (\<lambda>w. w) (\<lambda>w. False) example_env (State_Monad.return False) (State_Monad.return False)"
    by (simp add: time_passes_def keeps_time_def ahead_def)
  obtain r s2 where "run_state (drainCandidatesUntil example_env 4 (State_Monad.return False)
      (State_Monad.return False) 3) example_core = (r, s2)" by fastforce
  then show ?thesis
    using drain_settles_candidates [OF example_created start time, of 3 4] world by fastforce
qed



end
