(* ===== verification/Spec2Isabelle.thy ===== *)
theory Spec2Isabelle
  imports Session_Run Worker_Pool Risk_Service Timer_Run Redis_Snapshot Maintenance_Round
begin

text \<open>
  Verification of the AegisFlow login risk engine.

  \<^bold>\<open>The program.\<close>  AegisFlow is a TCP service that judges login attempts.  An event loop reads
  length-prefixed frames from each connection and hands one request at a time to a pool of workers.
  A worker validates the request, counts recent failures of the user, the address and the device,
  applies a chain of policies to the counts and to a local blacklist, and answers pass, review or
  reject; an address that attacks many accounts also becomes a blacklist candidate.  A bounded queue
  takes the candidates to a maintenance task, which writes them to Redis, publishes fresh snapshots of
  the blacklist to the workers and moves the changes on to MySQL.  A timer thread drives time-outs and
  maintenance.

  \<^bold>\<open>Theories and sources\<close> (paths under \<open>src/\<close> of the repository; headers are those of
  \<open>include/aegisflow/\<close>).
  \<^item> \<open>Prelude\<close>, \<open>Effect_Rules\<close>, \<open>Decimal\<close>, \<open>Ring_Buffer\<close>, \<open>Priority_Queue\<close>, \<open>Timer_Types\<close>: shared
    vocabulary, weakest preconditions for effectful code, decimal text, and the containers that several
    components use, each with the locale of its contract (\<open>bounded_fifo\<close>, \<open>priority_queue\<close>).
  \<^item> \<open>Wire_Protocol\<close>: frame header and incremental decoder (\<open>net/length_prefixed_codec.cpp\<close>,
    \<open>protocol_contract.hpp\<close>).  \<open>Session\<close>, \<open>Session_Invariant\<close>, \<open>Session_Run\<close>: the state machine of one
    connection (\<open>net/session.cpp\<close>), its invariant, and its runs.
  \<^item> \<open>Sliding_Counter\<close>, \<open>Sliding_Distinct\<close>, \<open>Keyed_Windows\<close>, \<open>Feature_Store\<close>: the sliding windows and the
    sharded tables of \<open>feature/feature_store.cpp\<close>.
  \<^item> \<open>Domain_Types\<close>, \<open>Blacklist\<close>, \<open>Login_Policy\<close>, \<open>Risk_Service\<close>: addresses, blacklist entries, snapshots
    and manager, policy chain and candidate generator, request validation, service and business
    handler (\<open>domain/\<close>, \<open>risk/\<close>, \<open>app/risk_service.cpp\<close>, \<open>net/login_business_handler.cpp\<close>).
  \<^item> \<open>Worker_Pool\<close>, \<open>Mailboxes\<close>, \<open>Completion_Router\<close>: the worker pool, the mailboxes of the event loops and
    the way back of a result (\<open>runtime/bounded_worker_pool.cpp\<close>, \<open>net/loop_mailbox.cpp\<close>,
    \<open>net/completion_router.cpp\<close>).
  \<^item> \<open>Timer_Core\<close>, \<open>Timer_Run\<close>: \<open>timer/timer_core.cpp\<close> and the runs of its critical sections.
  \<^item> \<open>Redis_Codec\<close>, \<open>Redis_Connection\<close>, \<open>Redis_Store\<close>, \<open>Redis_Transactions\<close>, \<open>Redis_Snapshot\<close>: replies,
    connection and store (\<open>storage/redis_connection.cpp\<close>, \<open>storage/blacklist_redis_store.cpp\<close>).
  \<^item> \<open>Candidate_Queue\<close>, \<open>Maintenance_Core\<close>, \<open>Maintenance_Steps\<close>, \<open>Maintenance_Round\<close>: the queue of
    candidates and the rounds of maintenance (\<open>app/blacklist_candidate_queue.cpp\<close>,
    \<open>BlacklistMaintenanceCore\<close> of \<open>app/blacklist_maintenance.cpp\<close>).
  \<^item> This theory: the service over a history of calls, and what spans the components.

  \<^bold>\<open>State and operations.\<close>  A class is a record with the members of the source, an operation a function
  that returns the new record, an enumeration a datatype.  A critical section is one function; where
  threads meet (pool, timer, mailboxes, maintenance), a step relation or an arbitrary sequence of calls
  interleaves them.  Counts whose wrap-around is visible are words; sizes and time stamps are natural
  numbers, with the 64-bit wrap written out where the code adds or subtracts.  A failing operation
  returns an option, a status or an outcome.  Effects on the outside (hiredis, the backend of the
  maintenance, clocks) are state-monad actions given as parameters.  Journals and histories record the
  calls made; no operation reads them.

  \<^bold>\<open>What is shown.\<close>  C1 and C2 follow a request through the whole service: the decision is the one the
  policy table gives for the true counts of the history, and a generated ban rejects the attacker for
  its thirty minutes.  C3 to C5: every timer ends once, due timers fire, the limits hold.  C6 to C11:
  no transaction is left open on a connection in use, writes happen whole or not, only expired fields
  are deleted, snapshots are complete and taking one ends, stream records round-trip.  C12 to C18: the byte
  stream is decoded independently of its chunks, requests and responses alternate, buffers are bounded,
  a connection is closed once.  C19 to C29: policy, blacklist, windows, store and addresses compute what
  their specifications say.  C30 to C35: tasks, time-outs, completions are neither lost nor doubled.
  C36 to C39: candidates, handler outcomes, validation.  C40: what any run of maintenance guarantees.

  \<^bold>\<open>Bounds and fuel.\<close>  The counts of C1, C21 and C23 hold while a window has held at most 5000 members,
  the limit at which the distinct counters stop recording.  The read loops of
  the decoder and the session may in principle not end, so they are partial functions, and their
  lemmas show that they return.  The heap loops have the size of the heap as fuel.  The scan of a Redis hash and the drain of the candidates
  end only by their deadline: any fuel above the time left on the clock is enough, if a round trip takes
  time (C10, and \<open>drain_settles_candidates\<close> of \<open>Maintenance_Round\<close>).

  \<^bold>\<open>Parameters.\<close>  \<open>inet_pton\<close> and \<open>inet_ntop\<close>, protobuf parsing and printing, the string hash, hiredis,
  the MySQL side of the maintenance backend, clocks, stop tokens, results of \<open>eventfd\<close> calls, and the moments at which
  the handler's callees or the backend throw.

  \<^bold>\<open>Not modelled.\<close>  Process start and stop, signals, configuration and logging; sockets, epoll and the event
  loop's system calls; the MySQL client and the backend built on it; the schedulers that submit maintenance
  rounds and the timer thread's descriptors; command-line and benchmark tools.  They are glue over the
  operating system or external services.  Failure to allocate is modelled only where the handler
  catches it.  Condition-variable notifications are abstracted: a waiting thread is a thread whose step is
  not enabled, so the liveness of C31 is about enabled steps.  The Redis store's scope guard, which acts
  only on an exception, is left out.  The timer's check of an event's kind cannot fail on the closed
  datatype of kinds.
\<close>

section \<open>The service over a history\<close>

datatype service_op = Evaluate LoginAttempt nat nat "BlacklistManager option" | ReclaimFeatures nat

fun service_exec ::
  "(string \<Rightarrow> nat) \<Rightarrow> pton \<Rightarrow> ntop \<Rightarrow> service_op \<Rightarrow> RiskService \<Rightarrow> RiskService \<times> RiskEvaluation option" where
  "service_exec hash pt nt (Evaluate a now elapsed manager) svc =
     apsnd Some (service_evaluate hash pt nt now elapsed manager a svc)"
| "service_exec hash pt nt (ReclaimFeatures now) svc =
     (svc\<lparr>service_store := reclaimColdStates now (service_store svc)\<rparr>, None)"

fun store_op_of :: "service_op \<Rightarrow> store_op" where
  "store_op_of (Evaluate a now elapsed manager) = Login a now"
| "store_op_of (ReclaimFeatures now) = Reclaim now"

definition seen :: "service_op list \<Rightarrow> LoginAttempt \<Rightarrow> nat \<Rightarrow> (LoginAttempt \<times> nat) list" where
  "seen ops a now = logins (map store_op_of ops) @ [(a, now)]"

text \<open>The counts a decision is about, read off the history.\<close>

definition user_failures :: "(LoginAttempt \<times> nat) list \<Rightarrow> nat \<Rightarrow> string \<Rightarrow> nat" where
  "user_failures l now u =
     length (filter (\<lambda>x. attempt_user_id (fst x) = u \<and> counted_failure 300000 5000 now x) l)"

definition ip_failures :: "(LoginAttempt \<times> nat) list \<Rightarrow> nat \<Rightarrow> string \<Rightarrow> nat" where
  "ip_failures l now i =
     length (filter (\<lambda>x. attempt_ip (fst x) = i \<and> counted_failure 600000 10000 now x) l)"

definition ip_failed_users :: "(LoginAttempt \<times> nat) list \<Rightarrow> nat \<Rightarrow> string \<Rightarrow> nat" where
  "ip_failed_users l now i =
     card {attempt_user_id (fst x) | x. x \<in> set l \<and> attempt_ip (fst x) = i \<and> counted_failure 600000 10000 now x}"

definition device_accounts :: "(LoginAttempt \<times> nat) list \<Rightarrow> nat \<Rightarrow> string \<Rightarrow> nat" where
  "device_accounts l now d =
     card {attempt_user_id (fst x) | x. x \<in> set l \<and> attempt_device_id (fst x) = d \<and>
       isWithinWindow (timestamp_ms (fst x)) (snd x) 600000 \<and>
       in_window 60 (now div 10000) (timestamp_ms (fst x) div 10000)}"

lemma service_run:
  "service_store (fst (run_calls (service_exec hash pt nt) ops svc)) =
     fst (run_calls (store_exec hash) (map store_op_of ops) (service_store svc)) \<and>
   service_policy (fst (run_calls (service_exec hash pt nt) ops svc)) = service_policy svc"
proof (induction ops arbitrary: svc)
  case (Cons op ops)
  have "service_store (fst (service_exec hash pt nt op svc)) =
      fst (store_exec hash (store_op_of op) (service_store svc))"
    "service_policy (fst (service_exec hash pt nt op svc)) = service_policy svc"
    by (cases op; simp add: service_evaluate_def case_prod_beta Let_def)+
  then show ?case using Cons by (simp add: case_prod_beta Let_def)
qed simp

lemma logins_length: "length (logins ops) \<le> length ops"
  by (induction ops rule: logins.induct) auto

lemma card_members: "card {attempt_user_id (fst x) | x. x \<in> set l \<and> P x} \<le> length l"
proof -
  have "{attempt_user_id (fst x) | x. x \<in> set l \<and> P x} \<subseteq> set (map (attempt_user_id \<circ> fst) l)"
    unfolding set_map by force
  then have "card {attempt_user_id (fst x) | x. x \<in> set l \<and> P x} \<le> card (set (map (attempt_user_id \<circ> fst) l))"
    by (intro card_mono) auto
  also have "\<dots> \<le> length l" using card_length [of "map (attempt_user_id \<circ> fst) l"] by simp
  finally show ?thesis .
qed

lemma counts_bounded:
  "user_failures l now u \<le> length l" "ip_failures l now i \<le> length l"
  "ip_failed_users l now i \<le> length l" "device_accounts l now d \<le> length l"
  by (simp_all only: user_failures_def ip_failures_def ip_failed_users_def device_accounts_def card_members
      length_filter_le)

lemma unat_small: "n < 2 ^ 32 \<Longrightarrow> unat (of_nat n :: u32) = n"
  by (simp add: unat_of_nat take_bit_nat_eq_self_iff)

text \<open>The features of a request are the counts of its history.\<close>

lemma features_are_counts:
  assumes "store_create ttls = Some st0" "sorted (map op_clock (ops @ [Login a now]))" "now < 2 ^ 64"
    and "l = logins ops @ [(a, now)]" "length l < 2 ^ 32"
    and "never_saturated 60 10000 5000 (ip_history l (attempt_ip a))"
    and "never_saturated 60 10000 5000 (device_history l (attempt_device_id a))"
    and "f = snd (updateAndGet hash a now (fst (run_calls (store_exec hash) ops st0)))"
  shows "unat (user_login_fail_5m f) = user_failures l now (attempt_user_id a) \<and>
    unat (ip_login_failures_10m f) = ip_failures l now (attempt_ip a) \<and>
    unat (ip_distinct_failed_user_10m f) = ip_failed_users l now (attempt_ip a) \<and>
    unat (device_distinct_account_10m f) = device_accounts l now (attempt_device_id a)"
proof -
  have "snapshot_ok f l a now" using request_after [OF assms(1-3), of hash] assms(4,8) by simp
  then have f: "user_login_fail_5m f = of_nat (user_failures l now (attempt_user_id a))"
    "ip_login_failures_10m f = of_nat (ip_failures l now (attempt_ip a))"
    "ip_distinct_failed_user_10m f = of_nat (ip_failed_users l now (attempt_ip a))"
    "device_distinct_account_10m f = of_nat (device_accounts l now (attempt_device_id a))"
    using assms(6,7)
    by (simp_all only: snapshot_ok_def members_value_def user_total ip_total ip_members device_members
        user_failures_def ip_failures_def ip_failed_users_def device_accounts_def simp_thms)
  show ?thesis
    unfolding f using assms(5) counts_bounded [of l now]
    by (intro conjI unat_small) (meson le_less_trans)+
qed

lemma evaluate_decision:
  assumes "b = (case manager of None \<Rightarrow> no_matches
               | Some m \<Rightarrow> manager_matches m (attempt_user_id a) (attempt_ip a) (attempt_device_id a) now)"
    and "d = policy_evaluate (service_policy svc) a (snd (updateAndGet hash a now (service_store svc))) b"
    and "ev = snd (service_evaluate hash pt nt now elapsed manager a svc)"
  shows "decision_action (eval_decision ev) = decision_action d"
    "decision_risk_score (eval_decision ev) = decision_risk_score d"
    "policy_hits (eval_decision ev) = policy_hits d"
    "eval_candidates ev = generate pt nt a d b now"
  by (simp_all add: assms service_evaluate_def case_prod_beta Let_def)

lemma validated_ip:
  assumes "inet_laws pt nt" "validate pt nt request now = Some a"
  shows "\<exists>x. ip_parse pt nt (attempt_ip a) = Some x \<and> canonicalText x = attempt_ip a"
  using assms(2) parse_again [OF assms(1)] unfolding validate_Some by metis

lemma publish_total: "\<forall>e \<in> set es. entry_id e \<noteq> [] \<Longrightarrow> \<exists>mgr'. publish es now mgr = (mgr', True)"
  using prepare_iff [of es now] by (auto simp: publish_def publishCandidate_def)

lemma candidate_ban:
  assumes "m \<in> set (generate pt nt a (policy_evaluate c a f b) b now)"
    and "\<exists>x. ip_parse pt nt (attempt_ip a) = Some x \<and> canonicalText x = attempt_ip a"
  shows "mut_id m = attempt_ip a" "mut_expire_at_ms m = now + 1800000"
proof -
  have "mutation_upsert pt nt EntityIp (attempt_ip a) kCredentialStuffingReason (now + kTemporaryIpTtlMs) = Some m"
    using assms(1) unfolding generate_policy
    by (cases "mutation_upsert pt nt EntityIp (attempt_ip a) kCredentialStuffingReason (now + kTemporaryIpTtlMs)")
       (simp_all only: option.case if_cancel list.set empty_iff insert_iff simp_thms split: if_split_asm)
  then have "mut_id m = attempt_ip a \<and> mut_expire_at_ms m = now + 1800000"
    using assms(2) by (auto simp: mutation_upsert_def normalizeId_def kTemporaryIpTtlMs_def split: if_splits)
  then show "mut_id m = attempt_ip a" "mut_expire_at_ms m = now + 1800000" by auto
qed

text \<open>
  C1.  A decision follows from the history alone.  Take any history of evaluations and reclamations
  with a clock that does not go back, of fewer than 2^32 requests, in which no ten-minute window of the
  login's address has held more than 5000 failed users and none of its device more than 5000 accounts
  (the member limit of a distinct counter; beyond it the counter drops members and the counts below need not be
  exact).  With a blacklist published no later than the evaluation, the decision on a login is to
  reject when a published entry for its user, IP or device is live or the failed attempts and
  failed users of its IP both reach the rejection thresholds; else to review when the user's failures, the
  IP's failed users or the device's accounts reach a review threshold; and else to pass, all counts taken over the
  requests seen, this one included, in their windows.
\<close>

theorem risk_decision_exact:
  assumes "service_create c ttls = Some svc0"
    and "sorted (map (op_clock \<circ> store_op_of) ops @ [now])" "now < 2 ^ 64" "length ops < 2 ^ 32 - 1"
    and "never_saturated 60 10000 5000 (ip_history (seen ops a now) (attempt_ip a))"
    and "never_saturated 60 10000 5000 (device_history (seen ops a now) (attempt_device_id a))"
    and "publish entries t0 mgr0 = (mgr, True)" "t0 \<le> now"
    and "attempt_user_id a \<noteq> []" "attempt_ip a \<noteq> []" "attempt_device_id a \<noteq> []"
  shows "let l = seen ops a now;
             svc = fst (run_calls (service_exec hash pt nt) ops svc0);
             d = eval_decision (snd (service_evaluate hash pt nt now elapsed (Some mgr) a svc));
             rejected = (listed now entries EntityUser (attempt_user_id a) \<or>
               listed now entries EntityIp (attempt_ip a) \<or> listed now entries EntityDevice (attempt_device_id a) \<or>
               ip_failed_users l now (attempt_ip a) \<ge> unat (ip_distinct_reject_threshold c) \<and>
               ip_failures l now (attempt_ip a) \<ge> unat (ip_failure_reject_threshold c));
             suspicious = (user_failures l now (attempt_user_id a) \<ge> unat (user_failure_review_threshold c) \<or>
               ip_failed_users l now (attempt_ip a) \<ge> unat (ip_spray_review_threshold c) \<or>
               device_accounts l now (attempt_device_id a) \<ge> unat (device_sharing_review_threshold c))
         in decision_action d = (if rejected then ActionReject else if suspicious then ActionReview else ActionPass) \<and>
            decision_risk_score d = (if rejected then 100 else if suspicious then 30 else 0)"
proof -
  obtain st0 where st0: "store_create ttls = Some st0" "svc0 = \<lparr>service_policy = c, service_store = st0\<rparr>"
    using assms(1) by (auto simp: service_create_def split: if_splits)
  define svc where "svc = fst (run_calls (service_exec hash pt nt) ops svc0)"
  define f where "f = snd (updateAndGet hash a now (service_store svc))"
  have svc: "service_policy svc = c"
    "service_store svc = fst (run_calls (store_exec hash) (map store_op_of ops) st0)"
    using service_run [of hash pt nt ops svc0] st0(2) by (simp_all add: svc_def)
  have "length (seen ops a now) < 2 ^ 32"
    using logins_length [of "map store_op_of ops"] assms(4) by (simp add: seen_def)
  then have "unat (user_login_fail_5m f) = user_failures (seen ops a now) now (attempt_user_id a) \<and>
    unat (ip_login_failures_10m f) = ip_failures (seen ops a now) now (attempt_ip a) \<and>
    unat (ip_distinct_failed_user_10m f) = ip_failed_users (seen ops a now) now (attempt_ip a) \<and>
    unat (device_distinct_account_10m f) = device_accounts (seen ops a now) now (attempt_device_id a)"
    using features_are_counts [OF st0(1) _ assms(3), of "map store_op_of ops" a "seen ops a now" f hash]
      assms(2,5,6) by (simp add: f_def svc seen_def)
  then show ?thesis
    unfolding Let_def svc_def [symmetric]
    using evaluate_decision(1,2) [OF refl refl refl, of hash pt nt now elapsed "Some mgr" a svc]
      decision_unat [of c a f] published_matches [OF assms(7-11)]
    by (simp only: f_def [symmetric] svc(1) option.case LoginBlacklistMatches.select_convs simp_thms)
qed

definition example_policy :: LoginPolicyConfig where
  "example_policy = \<lparr>user_failure_review_threshold = 1, ip_spray_review_threshold = 10,
     device_sharing_review_threshold = 5, ip_distinct_reject_threshold = 20, ip_failure_reject_threshold = 20\<rparr>"

lemma example_service: "\<exists>svc. service_create example_policy example_ttl = Some svc"
  using example_store
  by (auto simp: service_create_def example_policy_def validateLoginPolicyConfig_def kDistinctMaxMembers_def)

theorem risk_decision_exact_witness:
  "\<exists>svc mgr. service_create example_policy example_ttl = Some svc \<and> publish [] 0 None = (mgr, True) \<and>
     decision_action (eval_decision (snd (service_evaluate (\<lambda>_. 0) example_pton example_ntop 7 0 (Some mgr)
       (example_attempt ''u'' 5 LoginFail) svc))) = ActionReview"
proof -
  let ?a = "example_attempt ''u'' 5 LoginFail" and ?l = "seen [] (example_attempt ''u'' 5 LoginFail) 7"
  obtain svc where svc: "service_create example_policy example_ttl = Some svc" using example_service by blast
  obtain mgr where mgr: "publish [] 0 None = (mgr, True)"
    by (simp add: publish_def publishCandidate_def prepareCandidate_def)
  have small: "ip_failed_users ?l 7 (attempt_ip ?a) \<le> 1" "device_accounts ?l 7 (attempt_device_id ?a) \<le> 1"
    using counts_bounded(3,4) [of ?l 7] by (simp_all add: seen_def)
  have "user_failures ?l 7 (attempt_user_id ?a) = 1"
    by (simp add: user_failures_def seen_def example_attempt_def counted_failure_def isWithinWindow_def in_window_def)
  moreover have "never_saturated 60 10000 5000 (ip_history ?l (attempt_ip ?a))"
      "never_saturated 60 10000 5000 (device_history ?l (attempt_device_id ?a))"
    unfolding ip_history_def device_history_def
    by (intro never_saturated_short order_trans [OF length_map_filter]; simp add: seen_def)+
  ultimately show ?thesis
    using svc mgr small risk_decision_exact [OF svc, of "[]" 7 ?a "[]" 0 None mgr "\<lambda>_. 0" example_pton example_ntop 0]
    by (auto simp: listed_def example_policy_def example_attempt_def Let_def)
qed

text \<open>
  C2.  An attacking address is banned for half an hour.  When the evaluation of a validated login
  asks for a blacklist candidate and the published blacklist contains that entry, then until thirty
  minutes after the evaluation every login from the same address is rejected as blacklisted and
  asks for no further candidate; afterwards the entry alone no longer matches.
\<close>

theorem stuffing_ip_banned:
  assumes "inet_laws pt nt" "validate pt nt request vnow = Some a"
    and "m \<in> set (eval_candidates (snd (service_evaluate hash pt nt now1 el manager a svc)))"
    and "\<lparr>entry_type = EntityIp, entry_id = mut_id m, expire_at_ms = mut_expire_at_ms m\<rparr> \<in> set entries"
    and "publish entries t0 mgr0 = (mgr, True)" "t0 \<le> now2"
    and "validate pt nt request' vnow' = Some b" "attempt_ip b = attempt_ip a"
    and "ev = snd (service_evaluate hash' pt nt now2 el' (Some mgr) b svc')"
  shows "(now2 < now1 + 1800000 \<longrightarrow> decision_action (eval_decision ev) = ActionReject \<and>
      (\<exists>h \<in> set (policy_hits (eval_decision ev)). reason_code h = ''blacklisted_ip'') \<and>
      eval_candidates ev = []) \<and>
    (now2 \<ge> now1 + 1800000 \<and> (\<forall>e \<in> set entries. entry_id e = attempt_ip a \<longrightarrow> expire_at_ms e = mut_expire_at_ms m) \<longrightarrow>
      (\<forall>h \<in> set (policy_hits (eval_decision ev)). reason_code h \<noteq> ''blacklisted_ip''))"
proof -
  have m: "mut_id m = attempt_ip a" "mut_expire_at_ms m = now1 + 1800000"
    using candidate_ban assms(3) validated_ip [OF assms(1,2)]
    unfolding evaluate_decision(4) [OF refl refl refl] by blast+
  have ids: "attempt_user_id b \<noteq> []" "attempt_device_id b \<noteq> []" "attempt_ip b \<noteq> []"
    using assms(7) validated_ip [OF assms(1,7)] by (auto simp: validate_Some ip_parse_def)
  note d = evaluate_decision [OF refl refl assms(9)]
  have b: "manager_matches mgr (attempt_user_id b) (attempt_ip b) (attempt_device_id b) now2 =
      \<lparr>user_hit = listed now2 entries EntityUser (attempt_user_id b),
       ip_hit = listed now2 entries EntityIp (attempt_ip a),
       device_hit = listed now2 entries EntityDevice (attempt_device_id b)\<rparr>"
    using published_matches [OF assms(5,6) ids(1,3,2)] assms(8) by simp
  have "listed now2 entries EntityIp (attempt_ip a)" if "now2 < now1 + 1800000"
    unfolding listed_def using assms(4) that m by (intro bexI [OF _ assms(4)]) (simp add: live_def)
  moreover have "\<not> listed now2 entries EntityIp (attempt_ip a)" if "now2 \<ge> now1 + 1800000"
    "\<forall>e \<in> set entries. entry_id e = attempt_ip a \<longrightarrow> expire_at_ms e = mut_expire_at_ms m"
    using that m by (auto simp: listed_def live_def)
  moreover have "(\<exists>h \<in> set (policy_hits (eval_decision ev)). reason_code h = ''blacklisted_ip'') \<longleftrightarrow>
      listed now2 entries EntityIp (attempt_ip a)"
    unfolding d hit_iff by (simp add: rules_def Let_def b)
  ultimately show ?thesis
    unfolding d(1,4) by (auto simp: decision_cases generate_policy b)
qed

definition strict_policy :: LoginPolicyConfig where
  "strict_policy = \<lparr>user_failure_review_threshold = 1, ip_spray_review_threshold = 1,
     device_sharing_review_threshold = 1, ip_distinct_reject_threshold = 1, ip_failure_reject_threshold = 1\<rparr>"

lemma strict_candidate:
  assumes "store_create example_ttl = Some st" "validate example_pton example_ntop example_request 50 = Some a"
  shows "\<exists>m. m \<in> set (eval_candidates (snd (service_evaluate (\<lambda>_. 0) example_pton example_ntop 51 0 None a
    \<lparr>service_policy = strict_policy, service_store = st\<rparr>)))"
proof -
  let ?l = "[(a, 51)] :: (LoginAttempt \<times> nat) list" and ?f = "snd (updateAndGet (\<lambda>_. 0) a 51 st)"
  have a: "attempt_result a = LoginFail" "timestamp_ms a = 40"
    using assms(2) unfolding validate_Some example_request_def by auto
  have "never_saturated 60 10000 5000 (ip_history ?l (attempt_ip a))"
      "never_saturated 60 10000 5000 (device_history ?l (attempt_device_id a))"
    unfolding ip_history_def device_history_def
    by (intro never_saturated_short order_trans [OF length_map_filter]; simp)+
  then have "unat (ip_login_failures_10m ?f) = ip_failures ?l 51 (attempt_ip a)"
    "unat (ip_distinct_failed_user_10m ?f) = ip_failed_users ?l 51 (attempt_ip a)"
    using features_are_counts [OF assms(1), of "[]" a 51 ?l ?f "\<lambda>_. 0"] by simp_all
  moreover have c: "counted_failure 600000 10000 51 (a, 51)"
    by (simp add: counted_failure_def a isWithinWindow_def in_window_def)
  ultimately have "stuffing strict_policy ?f"
    by (simp add: stuffing_unat strict_policy_def ip_failures_def ip_failed_users_def)
  moreover obtain x where "ip_parse example_pton example_ntop (attempt_ip a) = Some x" "canonicalText x = attempt_ip a"
    using validated_ip [OF example_inet_laws assms(2)] by blast
  ultimately show ?thesis
    unfolding evaluate_decision(4) [OF refl refl refl] generate_policy
    by (simp add: no_matches_def mutation_upsert_def normalizeId_def validText_def kMaxExpireAtMs_def
        kTemporaryIpTtlMs_def kCredentialStuffingReason_def kMaxReasonBytes_def)
qed

theorem stuffing_ip_banned_witness:
  "\<exists>a st (m :: BlacklistMutation) mgr. validate example_pton example_ntop example_request 50 = Some a \<and>
     publish [\<lparr>entry_type = EntityIp, entry_id = mut_id m, expire_at_ms = mut_expire_at_ms m\<rparr>] 60 None = (mgr, True) \<and>
     decision_action (eval_decision (snd (service_evaluate (\<lambda>_. 0) example_pton example_ntop 70 0 (Some mgr) a
       \<lparr>service_policy = strict_policy, service_store = st\<rparr>))) = ActionReject"
proof -
  obtain st where st: "store_create example_ttl = Some st" using example_store by blast
  obtain a where a: "validate example_pton example_ntop example_request 50 = Some a" using example_validates by blast
  obtain m where m: "m \<in> set (eval_candidates (snd (service_evaluate (\<lambda>_. 0) example_pton example_ntop 51 0 None a
    \<lparr>service_policy = strict_policy, service_store = st\<rparr>)))" using strict_candidate [OF st a] by blast
  have ip: "\<exists>x. ip_parse example_pton example_ntop (attempt_ip a) = Some x \<and> canonicalText x = attempt_ip a"
    using validated_ip [OF example_inet_laws a] .
  then have "mut_id m \<noteq> []"
    using candidate_ban(1) [OF m [unfolded evaluate_decision(4) [OF refl refl refl]] ip] by (auto simp: ip_parse_def)
  then obtain mgr where mgr:
    "publish [\<lparr>entry_type = EntityIp, entry_id = mut_id m, expire_at_ms = mut_expire_at_ms m\<rparr>] 60 None = (mgr, True)"
    using publish_total [of "[\<lparr>entry_type = EntityIp, entry_id = mut_id m, expire_at_ms = mut_expire_at_ms m\<rparr>]"]
    by auto
  show ?thesis
    using a mgr stuffing_ip_banned [OF example_inet_laws a m _ mgr _ a refl refl, of 70 "\<lambda>_. 0" 0
        "\<lparr>service_policy = strict_policy, service_store = st\<rparr>"]
    by auto
qed

end
